(* ===== verification/Ora_Prelude.thy ===== *)
theory Ora_Prelude
  imports Main "HOL-Library.Word" "HOL-Library.Signed_Division"
begin

text \<open>
  The shared prelude of the development: results of code that may raise an
  error (\<open>ereport (ERROR, \<dots>)\<close>), the loops over such code, C integer division,
  and the generic facts the component theories use.

  A C function that may raise is a function into \<open>'e + 'a\<close>: \<open>Inl e\<close> is the error,
  \<open>Inr a\<close> the value. C's \<open>/\<close> and \<open>%\<close> truncate towards zero; they are \<open>sdiv\<close> and
  \<open>smod\<close> of HOL-Library.Signed_Division.
\<close>

named_theorems res_simps \<open>rules for results of code that may raise\<close>
named_theorems cdiv_simps \<open>C division where the operands are not negative\<close>

type_synonym byte = "8 word"
type_synonym bytes = "8 word list"
type_synonym ('e, 'a) res = "'e + 'a"

section \<open>Code that may raise\<close>

definition bindR :: "('e, 'a) res \<Rightarrow> ('a \<Rightarrow> ('e, 'b) res) \<Rightarrow> ('e, 'b) res" where
  "bindR m f = (case m of Inl e \<Rightarrow> Inl e | Inr a \<Rightarrow> f a)"

text \<open>A \<open>for\<close> loop over a list whose body updates a state and may raise.\<close>

fun foldR :: "('a \<Rightarrow> 's \<Rightarrow> ('e, 's) res) \<Rightarrow> 'a list \<Rightarrow> 's \<Rightarrow> ('e, 's) res" where
  "foldR f [] s = Inr s"
| "foldR f (x # xs) s = bindR (f x s) (foldR f xs)"

text \<open>A search loop: stops at the first element whose test, which may raise, succeeds.\<close>

fun existsR :: "('a \<Rightarrow> ('e, bool) res) \<Rightarrow> 'a list \<Rightarrow> ('e, bool) res" where
  "existsR p [] = Inr False"
| "existsR p (x # xs) = bindR (p x) (\<lambda>b. if b then Inr True else existsR p xs)"

lemma bindR_Inr [simp, res_simps]: "bindR (Inr a) f = f a"
  by (simp add: bindR_def)

lemma bindR_Inl [simp, res_simps]: "bindR (Inl e) f = Inl e"
  by (simp add: bindR_def)

lemma bindR_eq_Inr [res_simps]: "bindR m f = Inr b \<longleftrightarrow> (\<exists>a. m = Inr a \<and> f a = Inr b)"
  by (cases m) auto

lemma bindR_assoc: "bindR (bindR m f) g = bindR m (\<lambda>x. bindR (f x) g)"
  by (cases m) auto

lemma bindR_cong [fundef_cong]:
  "m = m' \<Longrightarrow> (\<And>a. m' = Inr a \<Longrightarrow> f a = f' a) \<Longrightarrow> bindR m f = bindR m' f'"
  by (cases m') auto

lemma foldR_Inr: "(\<And>x s. x \<in> set xs \<Longrightarrow> f x s = Inr (g x s)) \<Longrightarrow> foldR f xs s = Inr (fold g xs s)"
  by (induction xs arbitrary: s) auto

lemma existsR_Inr: "(\<And>x. x \<in> set xs \<Longrightarrow> p x = Inr (q x)) \<Longrightarrow> existsR p xs = Inr (\<exists>x\<in>set xs. q x)"
  by (induction xs) auto

lemma foldR_append: "foldR f (xs @ ys) s = bindR (foldR f xs s) (foldR f ys)"
  by (induction xs arbitrary: s) (auto simp: bindR_assoc intro!: bindR_cong)

lemma foldR_invariant:
  assumes "foldR f xs s = Inr s'" "I s"
    and "\<And>x s t. x \<in> set xs \<Longrightarrow> I s \<Longrightarrow> f x s = Inr t \<Longrightarrow> I t"
  shows "I s'"
  using assms
proof (induction xs arbitrary: s)
  case Nil
  then show ?case by simp
next
  case (Cons x xs)
  from Cons.prems(1) obtain t where t: "f x s = Inr t" "foldR f xs t = Inr s'"
    by (auto simp: bindR_eq_Inr)
  have "I t" by (rule Cons.prems(3) [OF _ Cons.prems(2) t(1)]) simp
  with t(2) show ?case by (rule Cons.IH) (use Cons.prems(3) in auto)
qed

section \<open>C division\<close>

lemma sdiv_nonneg [cdiv_simps]: "0 \<le> a \<Longrightarrow> 0 < b \<Longrightarrow> a sdiv b = a div b" for a b :: int
  by (cases "a = 0") (auto simp: signed_divide_int_def)

lemma smod_nonneg [cdiv_simps]: "0 \<le> a \<Longrightarrow> 0 < b \<Longrightarrow> a smod b = a mod b" for a b :: int
  by (cases "a = 0") (auto simp: signed_modulo_int_def)

lemma sdiv_smod_split: "a = b * (a sdiv b) + a smod b" for a b :: int
  by (simp add: mult_sdiv_smod_eq)

lemma smod_eq_0_iff: "a smod b = 0 \<longleftrightarrow> b dvd a" for a b :: int
  by (auto simp: signed_modulo_int_def sgn_eq_0_iff dvd_eq_mod_eq_0 [symmetric])

lemma smod_pos_bounds: "0 < b \<Longrightarrow> - b < a smod b \<and> a smod b < b" for a b :: int
proof -
  assume b: "0 < b"
  have "0 \<le> \<bar>a\<bar> mod b" "\<bar>a\<bar> mod b < b" using b by simp_all
  with b show ?thesis by (cases "a < 0"; cases "a = 0") (auto simp: signed_modulo_int_def)
qed

lemma div_window:
  fixes x u :: int
  assumes "0 < u"
  shows "x div u * u \<le> x" "x < (x div u + 1) * u"
proof -
  have "x = x div u * u + x mod u" "0 \<le> x mod u" "x mod u < u" using assms by simp_all
  then show "x div u * u \<le> x" "x < (x div u + 1) * u" unfolding distrib_right by linarith+
qed

text \<open>Flooring a truncated division, as the timestamp code does it.\<close>

lemma floor_of_trunc:
  fixes a b :: int
  assumes "0 < b"
  shows "(if a smod b < 0 then a sdiv b - 1 else a sdiv b) = a div b"
    and "(if a smod b < 0 then a smod b + b else a smod b) = a mod b"
proof -
  have q: "a = b * (a sdiv b) + a smod b" by (rule sdiv_smod_split)
  have r: "- b < a smod b" "a smod b < b" using smod_pos_bounds [OF assms] by auto
  show "(if a smod b < 0 then a sdiv b - 1 else a sdiv b) = a div b"
  proof (cases "a smod b < 0")
    case True
    have "a = b * (a sdiv b - 1) + (a smod b + b)" using q by (simp add: algebra_simps)
    then have "a div b = a sdiv b - 1"
      by (rule int_div_pos_eq) (use True r in auto)
    with True show ?thesis by simp
  next
    case False
    from q have "a div b = a sdiv b"
      by (rule int_div_pos_eq) (use False r in auto)
    with False show ?thesis by simp
  qed
  show "(if a smod b < 0 then a smod b + b else a smod b) = a mod b"
  proof (cases "a smod b < 0")
    case True
    have "a = b * (a sdiv b - 1) + (a smod b + b)" using q by (simp add: algebra_simps)
    then have "a mod b = a smod b + b"
      by (rule int_mod_pos_eq) (use True r in auto)
    with True show ?thesis by simp
  next
    case False
    from q have "a mod b = a smod b"
      by (rule int_mod_pos_eq) (use False r in auto)
    with False show ?thesis by simp
  qed
qed

section \<open>Machine integers\<close>

text \<open>Conversion to a 32-bit \<open>int\<close>; the server is compiled with wrapping signed arithmetic.\<close>

definition wrap32 :: "int \<Rightarrow> int" where
  "wrap32 k = sint (word_of_int k :: 32 word)"

lemma wrap32_id: "- (2 ^ 31) \<le> k \<Longrightarrow> k < 2 ^ 31 \<Longrightarrow> wrap32 k = k"
  by (simp add: wrap32_def signed_of_int signed_take_bit_int_eq_self)

lemma wrap32_above:
  assumes "2 ^ 31 \<le> k" "k < 2 ^ 31 + 2 ^ 32"
  shows "wrap32 k = k - 2 ^ 32"
proof -
  have "(word_of_int (k - 2 ^ 32) :: 32 word) = word_of_int k"
    by (simp add: word_of_int_eq_iff take_bit_eq_mod)
  then have "wrap32 k = wrap32 (k - 2 ^ 32)" by (simp only: wrap32_def)
  also have "\<dots> = k - 2 ^ 32" using assms by (intro wrap32_id) auto
  finally show ?thesis .
qed

lemma wrap32_bounds: "- (2 ^ 31) \<le> wrap32 k" "wrap32 k < 2 ^ 31"
  using sint_ge [of "word_of_int k :: 32 word"] sint_lt [of "word_of_int k :: 32 word"] by (simp_all add: wrap32_def)

text \<open>The same for a 64-bit integer.\<close>

definition wrap64 :: "int \<Rightarrow> int" where
  "wrap64 k = sint (word_of_int k :: 64 word)"

lemma wrap64_id: "- (2 ^ 63) \<le> k \<Longrightarrow> k < 2 ^ 63 \<Longrightarrow> wrap64 k = k"
  by (simp add: wrap64_def signed_of_int signed_take_bit_int_eq_self)

lemma wrap64_above:
  assumes "2 ^ 63 \<le> k" "k < 2 ^ 63 + 2 ^ 64"
  shows "wrap64 k = k - 2 ^ 64"
proof -
  have "(word_of_int (k - 2 ^ 64) :: 64 word) = word_of_int k"
    by (simp add: word_of_int_eq_iff take_bit_eq_mod)
  then have "wrap64 k = wrap64 (k - 2 ^ 64)" by (simp only: wrap64_def)
  also have "\<dots> = k - 2 ^ 64" using assms by (intro wrap64_id) auto
  finally show ?thesis .
qed

unbundle bit_operations_syntax

lemma unat_byte: "unat (b :: byte) < 256"
  using unsigned_less [of b] by simp

lemma or_disjoint:
  fixes x y :: nat
  assumes "y < 2 ^ k"
  shows "(x * 2 ^ k) OR y = x * 2 ^ k + y"
proof -
  have y: "take_bit k y = y" using assms by (simp add: take_bit_nat_eq_self)
  have "\<not> bit (x * 2 ^ k) n \<or> \<not> bit y n" for n
  proof (cases "n < k")
    case True
    then show ?thesis by (simp add: push_bit_eq_mult [symmetric] bit_push_bit_iff)
  next
    case False
    then show ?thesis by (subst y [symmetric]) (simp add: bit_take_bit_iff)
  qed
  from disjunctive_add [OF this] show ?thesis by simp
qed

lemma or_of_nat_disjoint:
  "y < 2 ^ k \<Longrightarrow> (of_nat (x * 2 ^ k) :: 32 word) OR of_nat y = of_nat (x * 2 ^ k + y)"
  by (simp only: of_nat_or_eq [symmetric] or_disjoint)

section \<open>Codecs\<close>

text \<open>An encoder and a decoder that may raise, inverse to each other on the data that can be encoded.\<close>

locale codec =
  fixes enc :: "'a \<Rightarrow> ('e, 'b) res"
    and dec :: "'b \<Rightarrow> ('e, 'a) res"
    and ok :: "'a \<Rightarrow> bool"
  assumes dec_enc: "ok a \<Longrightarrow> \<exists>b. enc a = Inr b \<and> dec b = Inr a"
begin

lemma enc_total: "ok a \<Longrightarrow> \<exists>b. enc a = Inr b"
  using dec_enc by blast

lemma round_trip: "ok a \<Longrightarrow> bindR (enc a) dec = Inr a"
  using dec_enc [of a] by auto

lemma enc_inj:
  assumes "ok a" "ok a'" "enc a = enc a'"
  shows "a = a'"
  using dec_enc [OF assms(1)] dec_enc [OF assms(2)] assms(3) by auto

end

end
