(* ===== verification/Pg_Calendar.thy ===== *)
theory Pg_Calendar
  imports Ora_Prelude
begin

text \<open>
  The calendar arithmetic of the server that the Oracle date functions and the
  job scheduler rest on: Julian day numbers (\<open>date2j\<close>, \<open>j2date\<close>, \<open>j2day\<close> of
  src/src/backend/utils/adt/datetime.c) and broken-down time (\<open>dt2time\<close>,
  \<open>timestamp2tm\<close>, \<open>tm2timestamp\<close> of src/src/backend/utils/adt/timestamp.c).

  C's \<open>int\<close> and \<open>int64\<close> are \<open>int\<close>; the unsigned arithmetic of \<open>j2date\<close> is done on
  \<open>32 word\<close>, and the overflow tests of \<open>tm2timestamp\<close> are written out. What the
  functions read from the session (the compatibility mode, the current date and the
  time zone rules) is the record \<open>dt_env\<close>.
\<close>

section \<open>Data\<close>

record pg_tm =
  tm_sec :: int
  tm_min :: int
  tm_hour :: int
  tm_mday :: int
  tm_mon :: int
  tm_year :: int
  tm_isdst :: int
  tm_gmtoff :: int

datatype dt_error =
    FieldOverflow            \<comment> \<open>day not in 1 .. last day of the month\<close>
  | TimestampOutOfRange
  | DateOutOfRange
  | BadFormat                \<comment> \<open>invalid value for a format or weekday name\<close>
  | InvalidTimeZone
  | OutOfBounds              \<comment> \<open>an array read outside its bounds: undefined in C\<close>

text \<open>
  The session: \<open>compatible_db = ORA_PARSER\<close>; the broken-down current time in the
  session time zone (\<open>None\<close> when it is out of range); the zone rules as \<open>pg_localtime\<close>
  and \<open>DetermineTimeZoneOffset\<close> give them; the case folding of \<open>LC_CTYPE\<close>, which is
  consulted for characters outside ASCII only.
\<close>

record dt_env =
  ora_mode :: bool
  now_tm :: "pg_tm option"
  tz_localtime :: "int \<Rightarrow> pg_tm"
  tz_offset :: "pg_tm \<Rightarrow> int"
  lc_toupper :: "char \<Rightarrow> char"
  lc_tolower :: "char \<Rightarrow> char"

definition USECS_PER_DAY :: int where "USECS_PER_DAY = 86400000000"
definition USECS_PER_HOUR :: int where "USECS_PER_HOUR = 3600000000"
definition USECS_PER_MINUTE :: int where "USECS_PER_MINUTE = 60000000"
definition USECS_PER_SEC :: int where "USECS_PER_SEC = 1000000"
definition POSTGRES_EPOCH_JDATE :: int where "POSTGRES_EPOCH_JDATE = 2451545"
definition UNIX_EPOCH_JDATE :: int where "UNIX_EPOCH_JDATE = 2440588"
definition MIN_TIMESTAMP :: int where "MIN_TIMESTAMP = - 211813488000000000"
definition END_TIMESTAMP :: int where "END_TIMESTAMP = 9223371331200000000"
definition PG_INT64_MIN :: int where "PG_INT64_MIN = - (2 ^ 63)"
definition PG_INT64_MAX :: int where "PG_INT64_MAX = 2 ^ 63 - 1"
definition INT_MAX :: int where "INT_MAX = 2 ^ 31 - 1"

lemmas time_units = USECS_PER_DAY_def USECS_PER_HOUR_def USECS_PER_MINUTE_def USECS_PER_SEC_def

definition isleap :: "int \<Rightarrow> bool" where
  "isleap y \<longleftrightarrow> y smod 4 = 0 \<and> (y smod 100 \<noteq> 0 \<or> y smod 400 = 0)"

text \<open>The rows of \<open>day_tab\<close> have a thirteenth entry, 0.\<close>

definition day_tab :: "bool \<Rightarrow> int list" where
  "day_tab leap = (if leap then [31, 29, 31, 30, 31, 30, 31, 31, 30, 31, 30, 31, 0]
                   else [31, 28, 31, 30, 31, 30, 31, 31, 30, 31, 30, 31, 0])"

section \<open>Julian days\<close>

text \<open>The arithmetic of \<open>date2j\<close>, after the defaults have been filled in.\<close>

definition date2j_core :: "int \<Rightarrow> int \<Rightarrow> int \<Rightarrow> int" where
  "date2j_core year month day =
     (let month' = (if month > 2 then month + 1 else month + 13);
          year' = (if month > 2 then year + 4800 else year + 4799);
          century = year' sdiv 100;
          julian = year' * 365 - 32167;
          julian = julian + (year' sdiv 4 - century + century sdiv 4)
      in julian + ((7834 * month') sdiv 256 + day))"

text \<open>
  The whole function. In Oracle mode a year or month of 0 means "not given" and is
  replaced by the current one.
\<close>

definition date2j :: "dt_env \<Rightarrow> int \<Rightarrow> int \<Rightarrow> int \<Rightarrow> (dt_error, int) res" where
  "date2j env year month day =
     (if (year = 0 \<or> month = 0) \<and> ora_mode env then
        (case now_tm env of
           None \<Rightarrow> Inl TimestampOutOfRange
         | Some tm \<Rightarrow>
             (let year' = (if year = 0 then tm_year tm else year);
                  month' = (if month = 0 then tm_mon tm else month)
              in if month' < 1 \<or> 13 < month' then Inl OutOfBounds
                 else if day > day_tab (isleap year') ! nat (month' - 1) then Inl FieldOverflow
                 else Inr (date2j_core year' month' day)))
      else Inr (date2j_core year month day))"

definition j2date :: "int \<Rightarrow> int \<times> int \<times> int" where
  "j2date jd =
     (let julian = (word_of_int jd :: 32 word);
          julian = julian + 32044;
          quad = julian div 146097;
          extra = (julian - quad * 146097) * 4 + 3;
          julian = julian + (60 + quad * 3 + extra div 146097);
          quad = julian div 1461;
          julian = julian - quad * 1461;
          y = julian * 4 div 1461;
          julian = (if y \<noteq> 0 then (julian + 305) mod 365 else (julian + 306) mod 366) + 123;
          y = y + quad * 4;
          year = sint y - 4800;
          quad = julian * 2141 div 65536;
          day = sint (julian - 7834 * quad div 256);
          month = sint ((quad + 10) mod 12 + 1)
      in (year, month, day))"

definition j2day :: "int \<Rightarrow> int" where
  "j2day date = (let date = (date + 1) smod 7 in if date < 0 then date + 7 else date)"

section \<open>Broken-down time\<close>

text \<open>\<open>TMODULO\<close> and the correction for negative remainders that follows each use of it.\<close>

definition TMODULO :: "int \<Rightarrow> int \<Rightarrow> int \<times> int" where
  "TMODULO t u = (let q = t sdiv u in (q, if q \<noteq> 0 then t - q * u else t))"

definition day_and_time :: "int \<Rightarrow> int \<times> int" where
  "day_and_time t =
     (let (date, time) = TMODULO t USECS_PER_DAY
      in if time < 0 then (date - 1, time + USECS_PER_DAY) else (date, time))"

definition dt2time :: "int \<Rightarrow> int \<times> int \<times> int \<times> int" where
  "dt2time jd =
     (let time = jd;
          hour = time sdiv USECS_PER_HOUR;
          time = time - hour * USECS_PER_HOUR;
          minute = time sdiv USECS_PER_MINUTE;
          time = time - minute * USECS_PER_MINUTE;
          sec = time sdiv USECS_PER_SEC;
          fsec = time - sec * USECS_PER_SEC
      in (hour, minute, sec, fsec))"

text \<open>
  \<open>timestamp2tm\<close> without (\<open>tz = False\<close>: \<open>tzp = NULL\<close>) and with rotation to the session
  time zone. The result is the \<open>pg_tm\<close>, the fractional seconds and the offset \<open>*tzp\<close>.
  \<open>pg_time_t\<close> is 64 bits wide, so the seconds always fit it.
\<close>

definition timestamp2tm :: "dt_env \<Rightarrow> bool \<Rightarrow> int \<Rightarrow> (pg_tm \<times> int \<times> int) option" where
  "timestamp2tm env tz dt =
     (let (date, time) = day_and_time dt;
          date = date + POSTGRES_EPOCH_JDATE
      in if date < 0 \<or> date > INT_MAX then None
         else
           (let (y, m, d) = j2date date;
                (hour, minute, sec, fsec) = dt2time time
            in if \<not> tz then
                 Some (\<lparr>tm_sec = sec, tm_min = minute, tm_hour = hour, tm_mday = d, tm_mon = m,
                        tm_year = y, tm_isdst = -1, tm_gmtoff = 0\<rparr>, fsec, 0)
               else
                 (let utime = (dt - fsec) sdiv USECS_PER_SEC +
                              (POSTGRES_EPOCH_JDATE - UNIX_EPOCH_JDATE) * 86400;
                      tx = tz_localtime env utime
                  in Some (tx\<lparr>tm_year := tm_year tx + 1900, tm_mon := tm_mon tx + 1\<rparr>,
                           fsec, - tm_gmtoff tx))))"

definition IS_VALID_JULIAN :: "int \<Rightarrow> int \<Rightarrow> int \<Rightarrow> bool" where
  "IS_VALID_JULIAN y m d \<longleftrightarrow>
     (y > -4713 \<or> y = -4713 \<and> m \<ge> 11) \<and> (y < 5874898 \<or> y = 5874898 \<and> m < 6)"

definition IS_VALID_TIMESTAMP :: "int \<Rightarrow> bool" where
  "IS_VALID_TIMESTAMP t \<longleftrightarrow> MIN_TIMESTAMP \<le> t \<and> t < END_TIMESTAMP"

definition time2t :: "int \<Rightarrow> int \<Rightarrow> int \<Rightarrow> int \<Rightarrow> int" where
  "time2t hour minute sec fsec = (((hour * 60) + minute) * 60 + sec) * USECS_PER_SEC + fsec"

definition dt2local :: "int \<Rightarrow> int \<Rightarrow> int" where
  "dt2local dt timezone = dt - timezone * USECS_PER_SEC"

definition int64_overflow :: "int \<Rightarrow> bool" where
  "int64_overflow x \<longleftrightarrow> x < PG_INT64_MIN \<or> PG_INT64_MAX < x"

text \<open>
  \<open>tm2timestamp\<close>: \<open>Inr None\<close> is the return value -1 (the result argument is then set to
  0), \<open>tzp = None\<close> the null pointer.
\<close>

definition tm2timestamp ::
  "dt_env \<Rightarrow> pg_tm \<Rightarrow> int \<Rightarrow> int option \<Rightarrow> (dt_error, int option) res" where
  "tm2timestamp env tm fsec tzp =
     (if \<not> IS_VALID_JULIAN (tm_year tm) (tm_mon tm) (tm_mday tm) then Inr None
      else bindR (date2j env (tm_year tm) (tm_mon tm) (tm_mday tm)) (\<lambda>j.
        let date = j - POSTGRES_EPOCH_JDATE;
            time = time2t (tm_hour tm) (tm_min tm) (tm_sec tm) fsec
        in if int64_overflow (date * USECS_PER_DAY)
              \<or> int64_overflow (date * USECS_PER_DAY + time) then Inr None
           else
             (let result = date * USECS_PER_DAY + time;
                  result = (case tzp of None \<Rightarrow> result | Some tz \<Rightarrow> dt2local result (- tz))
              in if IS_VALID_TIMESTAMP result then Inr (Some result) else Inr None)))"

section \<open>Facts\<close>

lemma month_cases:
  fixes m :: int
  assumes "1 \<le> m" "m \<le> 12"
  shows "m \<in> {1, 2, 3, 4, 5, 6, 7, 8, 9, 10, 11, 12}"
proof -
  have "m \<in> set [1..12]" using assms by simp
  also have "[1..12] = [1, 2, 3, 4, 5, 6, 7, 8, 9, 10, 11, 12::int]" by (simp add: upto_rec1)
  finally show ?thesis by simp
qed

lemma word32_div:
  assumes "0 \<le> a" "a < 2 ^ 32" "0 \<le> b" "b < 2 ^ 32"
  shows "(word_of_int a :: 32 word) div word_of_int b = word_of_int (a div b)"
  using assms by (simp add: word_div_def take_bit_int_eq_self unsigned_of_int)

lemma word32_mod:
  assumes "0 \<le> a" "a < 2 ^ 32" "0 \<le> b" "b < 2 ^ 32"
  shows "(word_of_int a :: 32 word) mod word_of_int b = word_of_int (a mod b)"
  using assms by (simp add: word_mod_def take_bit_int_eq_self unsigned_of_int)

lemma sint_word32:
  assumes "0 \<le> a" "a < 2 ^ 31"
  shows "sint (word_of_int a :: 32 word) = a"
  using assms by (simp add: signed_of_int signed_take_bit_int_eq_self)

definition j2date_int :: "int \<Rightarrow> int \<times> int \<times> int" where
  "j2date_int jd =
     (let julian = jd + 32044;
          quad = julian div 146097;
          extra = (julian - quad * 146097) * 4 + 3;
          julian = julian + (60 + quad * 3 + extra div 146097);
          quad = julian div 1461;
          julian = julian - quad * 1461;
          y = julian * 4 div 1461;
          julian = (if y \<noteq> 0 then (julian + 305) mod 365 else (julian + 306) mod 366) + 123;
          y = y + quad * 4;
          year = y - 4800;
          quad = julian * 2141 div 65536;
          day = julian - 7834 * quad div 256;
          month = (quad + 10) mod 12 + 1
      in (year, month, day))"

lemma nn: "(numeral n :: 32 word) = word_of_int (numeral n)" by simp

lemma month_index_cases:
  fixes j q :: int
  assumes "123 \<le> j" "j < 489" "q = j * 2141 div 65536"
  shows "q \<in> {4, 5, 6, 7, 8, 9, 10, 11, 12, 13, 14, 15}"
    and "65536 * q \<le> 2141 * j" "2141 * j < 65536 * q + 65536"
proof -
  show q: "65536 * q \<le> 2141 * j" "2141 * j < 65536 * q + 65536"
    using assms(3) by auto
  have "1 \<le> q - 3" "q - 3 \<le> 12" using q assms(1,2) by auto
  then have "q - 3 \<in> {1, 2, 3, 4, 5, 6, 7, 8, 9, 10, 11, 12}" by (rule month_cases)
  then show "q \<in> {4, 5, 6, 7, 8, 9, 10, 11, 12, 13, 14, 15}" by auto
qed

lemma month_table:
  fixes j q :: int
  assumes "123 \<le> j" "j < 489" "q = j * 2141 div 65536"
  shows "4 \<le> q \<and> q \<le> 15 \<and> 1 \<le> j - 7834 * q div 256 \<and> j - 7834 * q div 256 \<le> 31"
  using month_index_cases [OF assms] by auto

lemma j2date_eq_int:
  assumes "0 \<le> jd" "jd \<le> INT_MAX"
  shows "j2date jd = j2date_int jd"
proof -
  define j1 where "j1 = jd + 32044"
  define q1 where "q1 = j1 div 146097"
  define e1 where "e1 = (j1 - q1 * 146097) * 4 + 3"
  define j2 where "j2 = j1 + (60 + q1 * 3 + e1 div 146097)"
  define q2 where "q2 = j2 div 1461"
  define j3 where "j3 = j2 - q2 * 1461"
  define y where "y = j3 * 4 div 1461"
  define j4 where "j4 = (if y \<noteq> 0 then (j3 + 305) mod 365 else (j3 + 306) mod 366) + 123"
  define q3 where "q3 = j4 * 2141 div 65536"
  have b1: "32044 \<le> j1" "j1 < 2 ^ 31 + 32044" using assms by (auto simp: j1_def INT_MAX_def)
  have bq1: "0 \<le> q1" "q1 \<le> 14700" using b1 by (auto simp: q1_def)
  have m1: "j1 - q1 * 146097 = j1 mod 146097" by (simp add: q1_def minus_div_mult_eq_mod)
  have be1: "3 \<le> e1" "e1 < 584391" unfolding e1_def m1 by simp_all
  have bj2: "0 \<le> j2" "j2 < 2 ^ 31 + 100000" using b1 bq1 be1 by (auto simp: j2_def)
  have bq2: "0 \<le> q2" "q2 < 1470000" using bj2 by (auto simp: q2_def)
  have m3: "j3 = j2 mod 1461" by (simp add: j3_def q2_def minus_div_mult_eq_mod)
  have bj3: "0 \<le> j3" "j3 < 1461" unfolding m3 by simp_all
  have by': "0 \<le> y" "y \<le> 3" using bj3 by (auto simp: y_def)
  have bj4: "123 \<le> j4" "j4 < 489" using bj3 by (auto simp: j4_def)
  have bq3: "4 \<le> q3" "q3 \<le> 15" using bj4 by (auto simp: q3_def)
  have bd: "0 \<le> j4 - 7834 * q3 div 256" "j4 - 7834 * q3 div 256 < 500"
    using month_table [OF bj4 q3_def] by auto
  have w1: "(word_of_int jd + 32044 :: 32 word) = word_of_int j1"
    by (simp add: j1_def)
  have w2: "(word_of_int j1 div 146097 :: 32 word) = word_of_int q1"
    unfolding q1_def using b1 word32_div [of j1 146097] by simp
  have w3: "((word_of_int j1 - word_of_int q1 * 146097) * 4 + 3 :: 32 word) = word_of_int e1"
    by (simp add: e1_def)
  have w4: "(word_of_int e1 div 146097 :: 32 word) = word_of_int (e1 div 146097)"
    using be1 word32_div [of e1 146097] by simp
  have w5: "(word_of_int j1 + (60 + word_of_int q1 * 3 + word_of_int (e1 div 146097)) :: 32 word) = word_of_int j2"
    by (simp add: j2_def)
  have w6: "(word_of_int j2 div 1461 :: 32 word) = word_of_int q2"
    unfolding q2_def using bj2 word32_div [of j2 1461] by simp
  have w7: "(word_of_int j2 - word_of_int q2 * 1461 :: 32 word) = word_of_int j3"
    by (simp add: j3_def)
  have w8: "(word_of_int j3 * 4 div 1461 :: 32 word) = word_of_int y"
    unfolding y_def using bj3 word32_div [of "j3 * 4" 1461] by simp
  have w9: "((word_of_int j3 + 305) mod 365 :: 32 word) = word_of_int ((j3 + 305) mod 365)"
    using bj3 word32_mod [of "j3 + 305" 365] by simp
  have w10: "((word_of_int j3 + 306) mod 366 :: 32 word) = word_of_int ((j3 + 306) mod 366)"
    using bj3 word32_mod [of "j3 + 306" 366] by simp
  have wy: "(word_of_int y :: 32 word) = 0 \<longleftrightarrow> y = 0"
    using by' sint_word32 [of y] by auto
  have w11: "((if (word_of_int y :: 32 word) \<noteq> 0 then (word_of_int j3 + 305) mod 365
               else (word_of_int j3 + 306) mod 366) + 123 :: 32 word) = word_of_int j4"
    unfolding w9 w10 wy j4_def by simp
  have w12: "(word_of_int j4 * 2141 div 65536 :: 32 word) = word_of_int q3"
    unfolding q3_def using bj4 word32_div [of "j4 * 2141" 65536] by simp
  have w13: "(7834 * word_of_int q3 div 256 :: 32 word) = word_of_int (7834 * q3 div 256)"
    using bq3 word32_div [of "7834 * q3" 256] by simp
  have w14: "((word_of_int q3 + 10) mod 12 + 1 :: 32 word) = word_of_int ((q3 + 10) mod 12 + 1)"
    using bq3 word32_mod [of "q3 + 10" 12] by simp
  have s1: "sint (word_of_int y + word_of_int q2 * 4 :: 32 word) = y + q2 * 4"
    using by' bq2 sint_word32 [of "y + q2 * 4"] by simp
  have s2: "sint (word_of_int j4 - word_of_int (7834 * q3 div 256) :: 32 word) = j4 - 7834 * q3 div 256"
    using bd sint_word32 [of "j4 - 7834 * q3 div 256"] by simp
  have s3: "sint (word_of_int ((q3 + 10) mod 12 + 1) :: 32 word) = (q3 + 10) mod 12 + 1"
    by (rule sint_word32) auto
  show ?thesis
    unfolding j2date_def j2date_int_def Let_def
    unfolding w1 w2 w3 w4 w5 w6 w7 w8 w11 w12 w13 w14 s1 s2 s3
    unfolding j1_def [symmetric]
    unfolding q1_def [symmetric]
    unfolding e1_def [symmetric]
    unfolding j2_def [symmetric]
    unfolding q2_def [symmetric]
    unfolding j3_def [symmetric]
    unfolding y_def [symmetric]
    unfolding j4_def [symmetric]
    unfolding q3_def [symmetric] ..
qed

text \<open>
  Day \<open>f\<close> of a century that begins on March 1 is day \<open>M\<close> of its March-based year \<open>a\<close>.
  \<open>j2date\<close> finds it through four-year blocks that begin on January 1, 60 days earlier.
\<close>

lemma march_year_split:
  fixes f g r y M :: int
  assumes f: "0 \<le> f" "f \<le> 36524"
    and g: "g = (f + 60) div 1461" and r: "r = (f + 60) mod 1461"
    and y: "y = 4 * r div 1461"
    and M: "M = (if y \<noteq> 0 then (r + 305) mod 365 else (r + 306) mod 366)"
    and a: "a = 4 * g + y - (if M \<ge> 306 then 1 else 0)"
  shows "0 \<le> a \<and> a \<le> 99 \<and> f = 365 * a + a div 4 + M \<and> 0 \<le> M \<and> M \<le> 365 \<and> (M = 365 \<longrightarrow> a mod 4 = 3)"
proof -
  have fr: "f = 1461 * g + r - 60" and rb: "0 \<le> r" "r < 1461"
    unfolding g r by (simp_all add: mult_div_mod_eq algebra_simps)
  have g0: "0 \<le> g" using f g by simp
  have yr: "1461 * y \<le> 4 * r" "4 * r < 1461 * y + 1461" using y by auto
  have yb: "0 \<le> y" "y \<le> 3" using yr rb by auto
  have "0 \<le> a \<and> f = 365 * a + a div 4 + M \<and> 0 \<le> M \<and> M \<le> 365 \<and> (M = 365 \<longrightarrow> a mod 4 = 3)"
  proof (cases "y = 0")
    case True
    then have rr: "r \<le> 365" using yr by simp
    have Mr: "M = (if r < 60 then r + 306 else r - 60)"
      using M True rb rr mod_pos_pos_trivial [of "r + 306" 366] int_mod_pos_eq [of "r + 306" 366 1 "r - 60"]
      by simp
    show ?thesis
    proof (cases "r < 60")
      case True
      then have "a = 4 * (g - 1) + 3" "1 \<le> g" using Mr a \<open>y = 0\<close> rb fr f(1) by simp_all
      moreover from this(1) have "a div 4 = g - 1" by (rule int_div_pos_eq) simp_all
      moreover from calculation(1) have "a mod 4 = 3" by (rule int_mod_pos_eq) simp_all
      ultimately show ?thesis using fr True rb Mr by simp
    next
      case False
      then have "a = 4 * g" using Mr a \<open>y = 0\<close> rr by simp
      then show ?thesis using fr g0 False rr Mr by simp
    qed
  next
    case False
    define s where "s = r - 365 * y - 1"
    have sb: "0 \<le> s" "s \<le> 364" using yr yb False by (simp_all add: s_def)
    have "(r + 305) mod 365 = (s + 306 + 365 * y) mod 365" by (simp add: s_def algebra_simps)
    also have "\<dots> = (s + 306) mod 365" by (rule mod_mult_self2)
    finally have Ms: "M = (if s < 59 then s + 306 else s - 59)"
      using M False sb mod_pos_pos_trivial [of "s + 306" 365] int_mod_pos_eq [of "s + 306" 365 1 "s - 59"]
      by simp
    then have "a = 4 * g + (if s < 59 then y - 1 else y)" using a sb by simp
    moreover from this have "a div 4 = g" by (rule int_div_pos_eq) (use yb False in auto)
    ultimately show ?thesis using fr g0 yb False sb Ms by (auto simp: s_def)
  qed
  moreover from this have "a \<le> 99" using f(2) by linarith
  ultimately show ?thesis by simp
qed

lemma isleap_iff: "isleap y \<longleftrightarrow> y mod 4 = 0 \<and> (y mod 100 \<noteq> 0 \<or> y mod 400 = 0)"
  by (simp add: isleap_def smod_eq_0_iff dvd_eq_mod_eq_0)

lemma date2j_core_div:
  assumes "- 4799 \<le> year" "0 \<le> month"
  shows "date2j_core year month day =
    (let month' = (if month > 2 then month + 1 else month + 13);
         year' = (if month > 2 then year + 4800 else year + 4799)
     in year' * 365 - 32167 + year' div 4 - year' div 100 + year' div 400 + 7834 * month' div 256 + day)"
  using assms by (auto simp: date2j_core_def Let_def sdiv_nonneg zdiv_zmult2_eq [symmetric])

definition month_len :: "int \<Rightarrow> int \<Rightarrow> int" where
  "month_len year month =
     (if month = 2 \<and> isleap year then 29
      else [31, 28, 31, 30, 31, 30, 31, 31, 30, 31, 30, 31] ! nat (month - 1))"

definition valid_date :: "int \<Rightarrow> int \<Rightarrow> int \<Rightarrow> bool" where
  "valid_date y m d \<longleftrightarrow> 1 \<le> m \<and> m \<le> 12 \<and> 1 \<le> d \<and> d \<le> month_len y m"

lemma century_split:
  fixes e c :: int
  assumes "0 \<le> e" "e < 146097" and c: "c = (4 * e + 3) div 146097"
  shows "0 \<le> c \<and> c \<le> 3 \<and> 0 \<le> e - 36524 * c \<and> e - 36524 * c \<le> (if c = 3 then 36524 else 36523)"
proof -
  have cb: "146097 * c \<le> 4 * e + 3" "4 * e + 3 < 146097 * c + 146097" using c by auto
  then have "0 \<le> c" "c \<le> 3" using assms(1,2) by auto
  then consider "c = 0" | "c = 1" | "c = 2" | "c = 3" by linarith
  then show ?thesis using cb assms(2) by cases auto
qed

lemma j2date_shape:
  assumes "0 \<le> jd" and j: "j2date_int jd = (year, month, day)"
  obtains n c a M where "0 \<le> n" "0 \<le> c" "c \<le> 3" "0 \<le> a" "a \<le> 99" "0 \<le> M" "M \<le> 365"
    "jd + 32044 = 146097 * n + 36524 * c + 365 * a + a div 4 + M"
    "365 * a + a div 4 + M \<le> (if c = 3 then 36524 else 36523)"
    "year = 400 * n + 100 * c + a - 4800 + (if M \<ge> 306 then 1 else 0)"
    "month = ((M + 123) * 2141 div 65536 + 10) mod 12 + 1"
    "day = M + 123 - 7834 * ((M + 123) * 2141 div 65536) div 256"
    "M = 365 \<longrightarrow> a mod 4 = 3"
proof -
  define J where "J = jd + 32044"
  define n where "n = J div 146097"
  define e where "e = J mod 146097"
  define c where "c = (4 * e + 3) div 146097"
  define f where "f = e - 36524 * c"
  define g where "g = (f + 60) div 1461"
  define r where "r = (f + 60) mod 1461"
  define y where "y = 4 * r div 1461"
  define M where "M = (if y \<noteq> 0 then (r + 305) mod 365 else (r + 306) mod 366)"
  define a where "a = 4 * g + y - (if M \<ge> 306 then 1 else 0)"
  have n0: "0 \<le> n" using assms(1) by (simp add: n_def J_def)
  have eb: "0 \<le> e" "e < 146097" by (simp_all add: e_def)
  have cf: "0 \<le> c" "c \<le> 3" "0 \<le> f" "f \<le> (if c = 3 then 36524 else 36523)"
    using century_split [OF eb c_def] by (auto simp: f_def)
  then have fb: "f \<le> 36524" by (simp split: if_splits)
  have ms: "0 \<le> a" "a \<le> 99" "f = 365 * a + a div 4 + M" "0 \<le> M" "M \<le> 365"
    "M = 365 \<longrightarrow> a mod 4 = 3"
    using march_year_split [OF cf(3) fb g_def r_def y_def M_def a_def] by auto
  have J: "J = 146097 * n + 36524 * c + f" by (simp add: n_def e_def f_def)
  have ex: "(J - n * 146097) * 4 + 3 = 4 * e + 3" by (simp add: n_def e_def minus_div_mult_eq_mod)
  have j2: "J + (60 + n * 3 + c) = 1461 * (100 * n + 25 * c) + (f + 60)" using J by simp
  have q2: "(J + (60 + n * 3 + c)) div 1461 = 100 * n + 25 * c + g" unfolding j2 g_def by simp
  have j3: "J + (60 + n * 3 + c) - (100 * n + 25 * c + g) * 1461 = r"
    using J by (simp add: r_def g_def algebra_simps minus_mult_div_eq_mod [symmetric])
  have Mr: "(if y \<noteq> 0 then (r + 305) mod 365 else (r + 306) mod 366) + 123 = M + 123" by (simp add: M_def)
  have res: "year = y + (100 * n + 25 * c + g) * 4 - 4800"
     "month = ((M + 123) * 2141 div 65536 + 10) mod 12 + 1"
     "day = M + 123 - 7834 * ((M + 123) * 2141 div 65536) div 256"
    using j unfolding j2date_int_def Let_def J_def [symmetric] n_def [symmetric] ex c_def [symmetric]
      q2 j3 mult.commute [of r 4] y_def [symmetric] Mr by simp_all
  have y': "year = 400 * n + 100 * c + a - 4800 + (if M \<ge> 306 then 1 else 0)"
    using res(1) by (simp add: a_def)
  have J': "jd + 32044 = 146097 * n + 36524 * c + 365 * a + a div 4 + M"
    using J ms(3) by (simp add: J_def)
  show thesis
    by (rule that [OF n0 cf(1,2) ms(1,2,4,5) J' cf(4) [unfolded ms(3)] y' res(2,3) ms(6)])
qed

lemma month_of_march_day:
  fixes M q :: int
  assumes "0 \<le> M" "M \<le> 365" and q: "q = (M + 123) * 2141 div 65536"
  shows "(if (q + 10) mod 12 + 1 > 2 then (q + 10) mod 12 + 1 + 1 else (q + 10) mod 12 + 1 + 13) = q
     \<and> ((q + 10) mod 12 + 1 > 2 \<longleftrightarrow> M < 306) \<and> 1 \<le> (q + 10) mod 12 + 1 \<and> (q + 10) mod 12 + 1 \<le> 12"
  using month_index_cases [OF _ _ q] assms(1,2) by auto

lemma j2date_int_year:
  assumes "0 \<le> jd" and j: "j2date_int jd = (year, month, day)"
  shows "- 4713 \<le> year"
proof -
  obtain n c a M where A: "0 \<le> n" "0 \<le> c" "0 \<le> a" "a \<le> 99" "M \<le> 365"
    and J: "jd + 32044 = 146097 * n + 36524 * c + 365 * a + a div 4 + M"
    and y: "year = 400 * n + 100 * c + a - 4800 + (if M \<ge> 306 then 1 else 0)"
    by (rule j2date_shape [OF assms])
  show ?thesis
  proof (cases "n = 0 \<and> c = 0")
    case True
    have "a div 4 \<le> 24" using A(4) by linarith
    with True J A(5) assms(1) have "31655 \<le> 365 * a" by linarith
    then have "87 \<le> a" by linarith
    with True y show ?thesis by (simp split: if_splits)
  next
    case False
    then have "100 \<le> 400 * n + 100 * c" using A by linarith
    with A(3) y show ?thesis by (simp split: if_splits)
  qed
qed

theorem date2j_j2date_core:
  assumes "0 \<le> jd" and j: "j2date_int jd = (year, month, day)"
  shows "date2j_core year month day = jd"
proof -
  obtain n c a M where A: "0 \<le> n" "0 \<le> c" "c \<le> 3" "0 \<le> a" "a \<le> 99" "0 \<le> M" "M \<le> 365"
    and J: "jd + 32044 = 146097 * n + 36524 * c + 365 * a + a div 4 + M"
    and y: "year = 400 * n + 100 * c + a - 4800 + (if M \<ge> 306 then 1 else 0)"
    and m: "month = ((M + 123) * 2141 div 65536 + 10) mod 12 + 1"
    and d: "day = M + 123 - 7834 * ((M + 123) * 2141 div 65536) div 256"
    by (rule j2date_shape [OF assms])
  note mo = month_of_march_day [OF A(6,7) refl, folded m]
  have Y: "(if month > 2 then year + 4800 else year + 4799) = 400 * n + 100 * c + a"
    using mo y by (auto split: if_splits)
  have dv: "(400 * n + 100 * c + a) div 4 = 100 * n + 25 * c + a div 4"
    "(400 * n + 100 * c + a) div 100 = 4 * n + c" "(400 * n + 100 * c + a) div 400 = n"
    using A div_mult_self4 [of 4 "100 * n + 25 * c" a]
    by (auto intro!: int_div_pos_eq [of _ _ _ a] int_div_pos_eq [of _ _ _ "100 * c + a"]
      simp: algebra_simps)
  have y0: "- 4799 \<le> year" "0 \<le> month" using j2date_int_year [OF assms] mo by auto
  have mm: "(if 2 < month then month + 1 else month + 13) = (M + 123) * 2141 div 65536"
    using mo by blast
  show ?thesis
    unfolding date2j_core_div [OF y0] Let_def Y mm d dv using J by simp
qed

lemma month_length:
  fixes M q :: int
  assumes M: "0 \<le> M" "M \<le> 365" and q: "q = (M + 123) * 2141 div 65536"
    and leap: "M = 365 \<longrightarrow> isleap y"
  shows "M + 123 - 7834 * q div 256 \<le> month_len y ((q + 10) mod 12 + 1)"
proof -
  have "M = 365 \<Longrightarrow> q = 15" using q by simp
  with month_index_cases [OF _ _ q] M leap show ?thesis
    by (cases "M = 365") (auto simp: month_len_def)
qed

lemma j2date_int_valid:
  assumes "0 \<le> jd" and j: "j2date_int jd = (year, month, day)"
  shows "valid_date year month day"
proof -
  obtain n c a M where A: "0 \<le> n" "0 \<le> c" "c \<le> 3" "0 \<le> a" "a \<le> 99" "0 \<le> M" "M \<le> 365"
    and J: "jd + 32044 = 146097 * n + 36524 * c + 365 * a + a div 4 + M"
    and f: "365 * a + a div 4 + M \<le> (if c = 3 then 36524 else 36523)"
    and y: "year = 400 * n + 100 * c + a - 4800 + (if M \<ge> 306 then 1 else 0)"
    and m: "month = ((M + 123) * 2141 div 65536 + 10) mod 12 + 1"
    and d: "day = M + 123 - 7834 * ((M + 123) * 2141 div 65536) div 256"
    and l: "M = 365 \<longrightarrow> a mod 4 = 3"
    by (rule j2date_shape [OF assms])
  have "isleap year" if M: "M = 365"
  proof -
    have y': "year = 400 * (n - 12) + 100 * c + a + 1" and a: "a mod 4 = 3" using y l M by simp_all
    show ?thesis
    proof (cases "a = 99")
      case True
      with f M have "c = 3" by (simp split: if_splits)
      with True y' have "year = 400 * (n - 11)" by simp
      then show ?thesis by (simp add: isleap_iff mod_mult_left_eq)
    next
      case False
      have "year = 100 * (4 * (n - 12) + c) + (a + 1)" using y' by simp
      then have "year mod 100 = a + 1"
        by (rule int_mod_pos_eq) (use A False in auto)
      moreover have "year = 4 * (100 * (n - 12) + 25 * c + a div 4 + 1)"
        using y' a mult_div_mod_eq [of 4 a] by (simp add: algebra_simps)
      then have "year mod 4 = 0" by (simp only: mod_mult_self1_is_0)
      ultimately show ?thesis using A by (simp add: isleap_iff)
    qed
  qed
  then have "day \<le> month_len year month"
    unfolding d m by (intro month_length A refl) simp
  moreover have "1 \<le> day" unfolding d using month_table [of "M + 123", OF _ _ refl] A by simp
  moreover have "1 \<le> month" "month \<le> 12" unfolding m using month_of_march_day [OF A(6,7) refl] by simp_all
  ultimately show ?thesis by (simp add: valid_date_def)
qed

lemma date2j_core_day: "date2j_core y m d = date2j_core y m 1 + (d - 1)"
  by (simp add: date2j_core_def Let_def)

lemma div_succ:
  fixes x k :: int
  assumes "0 < k"
  shows "(x + 1) div k = x div k + (if (x + 1) mod k = 0 then 1 else 0)"
proof -
  have b: "0 \<le> x mod k" "x mod k < k" using assms by simp_all
  have eq: "x + 1 = k * (x div k) + (x mod k + 1)" by simp
  show ?thesis
  proof (cases "x mod k = k - 1")
    case True
    with eq have e: "x + 1 = k * (x div k + 1) + 0" by (simp add: algebra_simps)
    from int_div_pos_eq [OF e] int_mod_pos_eq [OF e] assms show ?thesis by simp
  next
    case False
    from int_div_pos_eq [OF eq] int_mod_pos_eq [OF eq] b False show ?thesis by simp
  qed
qed

definition year_days :: "int \<Rightarrow> int" where
  "year_days y = y * 365 - 32167 + y div 4 - y div 100 + y div 400"

definition month_off :: "int \<Rightarrow> int" where
  "month_off m = 7834 * m div 256"

lemma year_days_leap:
  "year_days (y + 4800) = year_days (y + 4799) + 365 + (if isleap y then 1 else 0)"
proof -
  have m: "(y + 4800) mod 4 = y mod 4" "(y + 4800) mod 100 = y mod 100" "(y + 4800) mod 400 = y mod 400"
    using mod_mult_self1 [of y 1200 4] mod_mult_self1 [of y 48 100] mod_mult_self1 [of y 12 400] by simp_all
  have i: "y mod 400 = 0 \<Longrightarrow> y mod 100 = 0" "y mod 100 = 0 \<Longrightarrow> y mod 4 = 0"
    using mod_mod_cancel [of 100 400 y] mod_mod_cancel [of 4 100 y] by simp_all
  have e: "y + 4799 + 1 = y + 4800" by simp
  have d: "(y + 4800) div k = (y + 4799) div k + (if (y + 4800) mod k = 0 then 1 else 0)" if "0 < k" for k
    using div_succ [OF that, of "y + 4799"] unfolding e .
  have "(y + 4800) * 365 - 32167 + d4 - d100 + d400 =
      (y + 4799) * 365 - 32167 + c4 - c100 + c400 + 365 + (if isleap y then 1 else 0)"
    if "d4 = c4 + (if y mod 4 = 0 then 1 else 0)" "d100 = c100 + (if y mod 100 = 0 then 1 else 0)"
      "d400 = c400 + (if y mod 400 = 0 then 1 else 0)" for d4 d100 d400 c4 c100 c400 :: int
    using that i unfolding isleap_iff
    by (cases "y mod 4 = 0"; cases "y mod 100 = 0"; cases "y mod 400 = 0") simp_all
  from this [OF d [of 4, OF zero_less_numeral, unfolded m] d [of 100, OF zero_less_numeral, unfolded m]
      d [of 400, OF zero_less_numeral, unfolded m]]
  show ?thesis unfolding year_days_def .
qed

lemma date2j_core_year_days:
  assumes "- 4799 \<le> y" "0 \<le> m"
  shows "date2j_core y m d = (if m > 2 then year_days (y + 4800) + month_off (m + 1)
                              else year_days (y + 4799) + month_off (m + 13)) + d"
  unfolding date2j_core_div [OF assms] Let_def year_days_def month_off_def
  by (cases "m > 2") (simp_all only: if_True if_False simp_thms)

lemma date2j_core_month_step:
  assumes "- 4799 \<le> y" "1 \<le> m" "m < 12"
  shows "date2j_core y (m + 1) 1 = date2j_core y m 1 + month_len y m"
proof -
  have "m \<in> {1, 2, 3, 4, 5, 6, 7, 8, 9, 10, 11, 12}" using assms by (intro month_cases) simp_all
  then show ?thesis using assms(3)
    by (elim insertE) (simp_all add: date2j_core_year_days [OF assms(1)] month_len_def
      year_days_leap month_off_def)
qed

lemma date2j_core_year_step:
  assumes "- 4799 \<le> y"
  shows "date2j_core (y + 1) 1 1 = date2j_core y 12 1 + 31"
proof -
  have "y + 1 + 4799 = y + 4800" by simp
  then show ?thesis using assms date2j_core_year_days [of "y + 1" 1 1]
    by (simp only: date2j_core_year_days [OF assms]) (simp add: month_off_def)
qed

section \<open>Day numbers and dates\<close>

text \<open>
  What a client of the Julian day routines relies on: a numbering of the valid dates
  by consecutive days, with the two directions inverse to each other on a range of days.
\<close>

locale day_numbering =
  fixes to_day :: "int \<Rightarrow> int \<Rightarrow> int \<Rightarrow> int"
    and of_day :: "int \<Rightarrow> int \<times> int \<times> int"
    and valid :: "int \<Rightarrow> int \<Rightarrow> int \<Rightarrow> bool"
    and in_range :: "int \<Rightarrow> bool"
  assumes of_day_valid: "in_range j \<Longrightarrow> of_day j = (y, m, d) \<Longrightarrow> valid y m d"
    and to_of_day: "in_range j \<Longrightarrow> of_day j = (y, m, d) \<Longrightarrow> to_day y m d = j"
    and to_day_less_year: "valid y m d \<Longrightarrow> valid y' m' d' \<Longrightarrow> y < y' \<Longrightarrow> to_day y m d < to_day y' m' d'"
    and to_day_less_month: "valid y m d \<Longrightarrow> valid y m' d' \<Longrightarrow> m < m' \<Longrightarrow> to_day y m d < to_day y m' d'"
    and to_day_day: "to_day y m d = to_day y m 1 + (d - 1)"
begin

lemma to_day_mono:
  assumes "valid y m d" "valid y' m' d'"
  shows "to_day y m d < to_day y' m' d' \<longleftrightarrow> y < y' \<or> y = y' \<and> (m < m' \<or> m = m' \<and> d < d')"
proof -
  consider "y < y'" | "y' < y" | "y = y'" "m < m'" | "y = y'" "m' < m" | "y = y'" "m = m'"
    by linarith
  then show ?thesis
  proof cases
    case 1
    then show ?thesis using to_day_less_year [OF assms 1] by simp
  next
    case 2
    then show ?thesis using to_day_less_year [OF assms(2,1) 2] by simp
  next
    case 3
    then show ?thesis using to_day_less_month assms by auto
  next
    case 4
    then show ?thesis using to_day_less_month [of y m' d' m d] assms by auto
  next
    case 5
    then show ?thesis using to_day_day [of y m d] to_day_day [of y m d'] by auto
  qed
qed

lemma to_day_inj:
  assumes "valid y m d" "valid y' m' d'" "to_day y m d = to_day y' m' d'"
  shows "y = y' \<and> m = m' \<and> d = d'"
  using to_day_mono [OF assms(1,2)] to_day_mono [OF assms(2,1)] assms(3) by auto

lemma of_to_day:
  assumes "valid y m d" "in_range (to_day y m d)"
  shows "of_day (to_day y m d) = (y, m, d)"
proof -
  obtain y' m' d' where o: "of_day (to_day y m d) = (y', m', d')" by (metis prod_cases3)
  from of_day_valid [OF assms(2) o] to_of_day [OF assms(2) o] assms(1) show ?thesis
    using to_day_inj o by simp
qed

lemma next_day_same_month:
  assumes "in_range j" "in_range (j + 1)" "of_day j = (y, m, d)" "valid y m (d + 1)"
  shows "of_day (j + 1) = (y, m, d + 1)"
proof -
  have "to_day y m (d + 1) = j + 1"
    using to_of_day [OF assms(1,3)] to_day_day [of y m d] to_day_day [of y m "d + 1"] by simp
  with of_to_day [OF assms(4)] assms(2) show ?thesis by simp
qed

end

definition proper_date :: "int \<Rightarrow> int \<Rightarrow> int \<Rightarrow> bool" where
  "proper_date y m d \<longleftrightarrow> - 4799 \<le> y \<and> valid_date y m d"

lemma month_len_bounds: "1 \<le> m \<Longrightarrow> m \<le> 12 \<Longrightarrow> 28 \<le> month_len y m \<and> month_len y m \<le> 31"
  using month_cases [of m] by (auto simp: month_len_def)

lemma date2j_core_less_month:
  assumes y: "- 4799 \<le> y" and m: "1 \<le> m" "m < m'" "m' \<le> 12"
  shows "date2j_core y m 1 + month_len y m \<le> date2j_core y m' 1"
  using m
proof (induction "nat (m' - m)" arbitrary: m')
  case 0
  then show ?case by simp
next
  case (Suc k)
  have st: "date2j_core y m' 1 = date2j_core y (m' - 1) 1 + month_len y (m' - 1)"
    using date2j_core_month_step [OF y, of "m' - 1"] Suc.prems by simp
  show ?case
  proof (cases "m' - 1 = m")
    case True
    with st show ?thesis by simp
  next
    case False
    then have "date2j_core y m 1 + month_len y m \<le> date2j_core y (m' - 1) 1"
      using Suc by (intro Suc.hyps(1)) auto
    with st month_len_bounds [of "m' - 1" y] Suc.prems show ?thesis by simp
  qed
qed

lemma date2j_core_year_bounds:
  assumes "proper_date y m d"
  shows "date2j_core y 1 1 \<le> date2j_core y m d" "date2j_core y m d < date2j_core (y + 1) 1 1"
proof -
  have y: "- 4799 \<le> y" and m: "1 \<le> m" "m \<le> 12" and d: "1 \<le> d" "d \<le> month_len y m"
    using assms by (auto simp: proper_date_def valid_date_def)
  have c: "date2j_core y m d = date2j_core y m 1 + (d - 1)" by (rule date2j_core_day)
  show "date2j_core y 1 1 \<le> date2j_core y m d"
    using date2j_core_less_month [OF y _ _ m(2), of 1] month_len_bounds [of 1 y] m c d
    by (cases "m = 1") auto
  show "date2j_core y m d < date2j_core (y + 1) 1 1"
    using date2j_core_less_month [OF y m(1), of 12] date2j_core_year_step [OF y] m c d
    by (cases "m = 12") (auto simp: month_len_def)
qed

lemma date2j_core_less_year:
  assumes "proper_date y m d" "proper_date y' m' d'" "y < y'"
  shows "date2j_core y m d < date2j_core y' m' d'"
proof -
  have "- 4799 \<le> y" using assms(1) by (simp add: proper_date_def)
  have "y + 1 \<le> z \<Longrightarrow> date2j_core (y + 1) 1 1 \<le> date2j_core z 1 1" for z
  proof (induction z rule: int_ge_induct)
    case base
    show ?case by simp
  next
    case (step z)
    have "proper_date z 1 1" using step \<open>- 4799 \<le> y\<close> by (simp add: proper_date_def valid_date_def month_len_def)
    with step show ?case using date2j_core_year_bounds(2) [of z 1 1] by simp
  qed
  from this [of y'] date2j_core_year_bounds(2) [OF assms(1)] date2j_core_year_bounds(1) [OF assms(2)] assms(3)
  show ?thesis by simp
qed

lemma month_of_date2j_core:
  assumes "proper_date y m d" "proper_date y m' d'" "m < m'"
  shows "date2j_core y m d < date2j_core y m' d'"
  using date2j_core_less_month [of y m m'] date2j_core_day [of y m d] date2j_core_day [of y m' d'] assms
  by (auto simp: proper_date_def valid_date_def)

interpretation jday: day_numbering date2j_core j2date proper_date "\<lambda>j. 0 \<le> j \<and> j \<le> INT_MAX"
proof
  fix j y m d
  assume j: "0 \<le> j \<and> j \<le> INT_MAX" "j2date j = (y, m, d)"
  then have i: "j2date_int j = (y, m, d)" using j2date_eq_int by simp
  show "proper_date y m d"
    using j2date_int_valid [OF _ i] j2date_int_year [OF _ i] j by (simp add: proper_date_def)
  show "date2j_core y m d = j" using date2j_j2date_core [OF _ i] j by simp
qed (fact date2j_core_less_year month_of_date2j_core date2j_core_day)+

section \<open>Weekdays and time of day\<close>

lemma j2day_mod: "j2day j = (j + 1) mod 7"
  unfolding j2day_def Let_def using floor_of_trunc(2) [of 7 "j + 1"] by simp

lemma j2day_bounds: "0 \<le> j2day j \<and> j2day j < 7"
  by (simp add: j2day_mod)

lemma USECS_PER_DAY_pos: "0 < USECS_PER_DAY"
  by (simp add: USECS_PER_DAY_def)

lemma day_and_time_eq: "day_and_time t = (t div USECS_PER_DAY, t mod USECS_PER_DAY)"
proof -
  have "TMODULO t USECS_PER_DAY = (t sdiv USECS_PER_DAY, t smod USECS_PER_DAY)"
    by (simp add: TMODULO_def Let_def minus_sdiv_mult_eq_smod)
      (metis add_0 minus_mult_sdiv_eq_smod mult_zero_right diff_zero)
  then show ?thesis
    using floor_of_trunc [OF USECS_PER_DAY_pos, of t] by (auto simp: day_and_time_def split: if_splits)
qed

lemma day_and_time_add:
  assumes "0 \<le> t" "t < USECS_PER_DAY"
  shows "day_and_time (d * USECS_PER_DAY + t) = (d, t)"
  using assms by (simp add: day_and_time_eq USECS_PER_DAY_def)

lemma dt2time_fields:
  assumes "0 \<le> t" "t < USECS_PER_DAY" "dt2time t = (h, mi, s, f)"
  shows "time2t h mi s f = t"
    and "0 \<le> h" "h < 24" "0 \<le> mi" "mi < 60" "0 \<le> s" "s < 60" "0 \<le> f" "f < USECS_PER_SEC"
proof -
  define r where "r = t mod 3600000000"
  define q where "q = r mod 60000000"
  have rb: "0 \<le> r" "r < 3600000000" and qb: "0 \<le> q" "q < 60000000" by (simp_all add: r_def q_def)
  have "h = t div 3600000000" using assms by (auto simp: dt2time_def time_units Let_def sdiv_nonneg)
  then have h: "t = 3600000000 * h + r" by (simp add: r_def)
  moreover have "mi = r div 60000000"
    using assms h rb by (auto simp: dt2time_def time_units Let_def sdiv_nonneg)
  then have m: "r = 60000000 * mi + q" by (simp add: q_def)
  moreover have "s = q div 1000000" "f = q - (q div 1000000) * 1000000"
    using assms h m rb qb by (auto simp: dt2time_def time_units Let_def sdiv_nonneg)
  then have s: "q = 1000000 * s + f" "f = q mod 1000000" by (simp_all add: minus_div_mult_eq_mod)
  then have f: "0 \<le> f" "f < 1000000" by simp_all
  show "0 \<le> f" "f < USECS_PER_SEC" using f by (simp_all add: time_units)
  show "time2t h mi s f = t" using h m s(1) by (simp add: time2t_def time_units)
  show "0 \<le> h" "h < 24" "0 \<le> mi" "mi < 60" "0 \<le> s" "s < 60"
    using assms(1,2) h m s(1) f rb qb by (simp_all add: USECS_PER_DAY_def)
qed

section \<open>Timestamps\<close>

lemma date2j_pure:
  "\<not> (ora_mode env \<and> (y = 0 \<or> m = 0)) \<Longrightarrow> date2j env y m d = Inr (date2j_core y m d)"
  by (auto simp: date2j_def)

lemma timestamp_date_range:
  assumes "IS_VALID_TIMESTAMP dt"
  shows "0 \<le> dt div USECS_PER_DAY + POSTGRES_EPOCH_JDATE"
    and "dt div USECS_PER_DAY + POSTGRES_EPOCH_JDATE < 109203528"
  using assms
  by (auto simp: IS_VALID_TIMESTAMP_def MIN_TIMESTAMP_def END_TIMESTAMP_def USECS_PER_DAY_def
      POSTGRES_EPOCH_JDATE_def)

lemma timestamp2tm_local:
  assumes "IS_VALID_TIMESTAMP dt"
  shows "\<exists>tm fsec. timestamp2tm env False dt = Some (tm, fsec, 0)
    \<and> j2date (dt div USECS_PER_DAY + POSTGRES_EPOCH_JDATE) = (tm_year tm, tm_mon tm, tm_mday tm)
    \<and> dt2time (dt mod USECS_PER_DAY) = (tm_hour tm, tm_min tm, tm_sec tm, fsec)"
  using timestamp_date_range [OF assms]
  by (auto simp: timestamp2tm_def day_and_time_eq INT_MAX_def Let_def split: prod.splits)

lemma julian_of_date:
  assumes "proper_date y m d" "0 \<le> date2j_core y m d" "date2j_core y m d < 109203528"
  shows "IS_VALID_JULIAN y m d" "- 4713 \<le> y" "y < 294277"
proof -
  have p: "proper_date (- 4713) 11 24" "proper_date 294277 1 1"
    by (simp_all add: proper_date_def valid_date_def month_len_def)
  have v: "date2j_core (- 4713) 11 24 = 0" "date2j_core 294277 1 1 = 109203528" by code_simp+
  have lo: "\<not> (y < - 4713 \<or> y = - 4713 \<and> (m < 11 \<or> m = 11 \<and> d < 24))"
    using jday.to_day_mono [OF assms(1) p(1)] assms(2) v(1) by simp
  have hi: "y < 294277"
    using jday.to_day_mono [OF assms(1) p(2)] assms v(2) by (auto simp: proper_date_def valid_date_def)
  from lo hi show "IS_VALID_JULIAN y m d" "- 4713 \<le> y" "y < 294277"
    by (auto simp: IS_VALID_JULIAN_def)
qed

lemma timestamp_days:
  assumes "IS_VALID_TIMESTAMP ((j - POSTGRES_EPOCH_JDATE) * USECS_PER_DAY + t)" "0 \<le> t" "t < USECS_PER_DAY"
  shows "0 \<le> j" "j < 109203528" "\<not> int64_overflow ((j - POSTGRES_EPOCH_JDATE) * USECS_PER_DAY)"
    "\<not> int64_overflow ((j - POSTGRES_EPOCH_JDATE) * USECS_PER_DAY + t)"
  using assms by (auto simp: IS_VALID_TIMESTAMP_def MIN_TIMESTAMP_def END_TIMESTAMP_def time_units
      POSTGRES_EPOCH_JDATE_def int64_overflow_def PG_INT64_MIN_def PG_INT64_MAX_def)

lemma tm2timestamp_of_fields:
  assumes p: "proper_date (tm_year tm) (tm_mon tm) (tm_mday tm)"
    and pure: "\<not> (ora_mode env \<and> tm_year tm = 0)"
    and j: "date2j_core (tm_year tm) (tm_mon tm) (tm_mday tm) = j"
    and t: "time2t (tm_hour tm) (tm_min tm) (tm_sec tm) fsec = t" "0 \<le> t" "t < USECS_PER_DAY"
    and r: "IS_VALID_TIMESTAMP ((j - POSTGRES_EPOCH_JDATE) * USECS_PER_DAY + t)"
  shows "tm2timestamp env tm fsec None = Inr (Some ((j - POSTGRES_EPOCH_JDATE) * USECS_PER_DAY + t))"
proof -
  have b: "0 \<le> j" "j < 109203528" "\<not> int64_overflow ((j - POSTGRES_EPOCH_JDATE) * USECS_PER_DAY)"
    "\<not> int64_overflow ((j - POSTGRES_EPOCH_JDATE) * USECS_PER_DAY + t)"
    using timestamp_days [OF r t(2,3)] by auto
  have "tm_mon tm \<noteq> 0" using p by (simp add: proper_date_def valid_date_def)
  then have "date2j env (tm_year tm) (tm_mon tm) (tm_mday tm) = Inr j"
    using date2j_pure pure j by auto
  moreover have "IS_VALID_JULIAN (tm_year tm) (tm_mon tm) (tm_mday tm)"
    using julian_of_date [OF p] b j by simp
  ultimately show ?thesis using b r t by (simp add: tm2timestamp_def Let_def)
qed

lemma timestamp_roundtrip_core:
  assumes dt: "IS_VALID_TIMESTAMP dt"
    and tm: "timestamp2tm env False dt = Some (tm, fsec, tz)"
    and y: "ora_mode env \<longrightarrow> tm_year tm \<noteq> 0"
  shows "tm2timestamp env tm fsec None = Inr (Some dt)"
proof -
  define j where "j = dt div USECS_PER_DAY + POSTGRES_EPOCH_JDATE"
  define t where "t = dt mod USECS_PER_DAY"
  have dtj: "(j - POSTGRES_EPOCH_JDATE) * USECS_PER_DAY + t = dt" by (simp add: j_def t_def)
  have tb: "0 \<le> t" "t < USECS_PER_DAY" using USECS_PER_DAY_pos by (simp_all add: t_def)
  have f: "j2date j = (tm_year tm, tm_mon tm, tm_mday tm)" "dt2time t = (tm_hour tm, tm_min tm, tm_sec tm, fsec)"
    using timestamp2tm_local [OF dt, of env] tm by (auto simp: j_def t_def)
  have jr: "0 \<le> j \<and> j \<le> INT_MAX" using timestamp_date_range [OF dt] by (simp add: j_def INT_MAX_def)
  have "tm2timestamp env tm fsec None = Inr (Some ((j - POSTGRES_EPOCH_JDATE) * USECS_PER_DAY + t))"
    using jday.of_day_valid [OF jr f(1)] jday.to_of_day [OF jr f(1)] dt2time_fields(1) [OF tb f(2)] tb dt dtj y
    by (intro tm2timestamp_of_fields) auto
  then show ?thesis unfolding dtj .
qed

section \<open>Properties\<close>

text \<open>
  A session in UTC, for the examples: Oracle mode, the current time 2024-06-15 12:00.
\<close>

definition utc_localtime :: "int \<Rightarrow> pg_tm" where
  "utc_localtime u =
     (let (y, m, d) = j2date (u div 86400 + UNIX_EPOCH_JDATE); s = u mod 86400
      in \<lparr>tm_sec = s mod 60, tm_min = s div 60 mod 60, tm_hour = s div 3600, tm_mday = d, tm_mon = m - 1,
          tm_year = y - 1900, tm_isdst = 0, tm_gmtoff = 0\<rparr>)"

definition utc_session :: dt_env where
  "utc_session =
     \<lparr>ora_mode = True,
      now_tm = Some \<lparr>tm_sec = 0, tm_min = 0, tm_hour = 12, tm_mday = 15, tm_mon = 6, tm_year = 2024,
        tm_isdst = 0, tm_gmtoff = 0\<rparr>,
      tz_localtime = utc_localtime, tz_offset = (\<lambda>_. 0), lc_toupper = id, lc_tolower = id\<rparr>"

text \<open>
  C26 (Julian days): for every day number a C \<open>int\<close> can hold from the start of the Julian calendar on,
  \<open>j2date\<close>, computed with wrapping 32-bit arithmetic, gives a valid calendar date and
  \<open>date2j\<close> maps it back, except for the year 0 of Oracle mode.
\<close>

theorem julian_roundtrip:
  assumes "0 \<le> jd" "jd \<le> INT_MAX" "j2date jd = (y, m, d)"
  shows "valid_date y m d \<and> (\<not> (ora_mode env \<and> y = 0) \<longrightarrow> date2j env y m d = Inr jd)"
  using jday.of_day_valid [OF _ assms(3)] jday.to_of_day [OF _ assms(3)] assms(1,2)
  by (auto simp: proper_date_def valid_date_def intro: date2j_pure [THEN trans])

theorem julian_roundtrip_witness:
  "valid_date 2003 11 29 \<and> date2j utc_session 2003 11 29 = Inr 2452973"
proof -
  have "j2date 2452973 = (2003, 11, 29)" by code_simp
  then show ?thesis using julian_roundtrip [of 2452973 2003 11 29 utc_session] by (simp add: INT_MAX_def)
qed

text \<open>
  Chronological order: Julian day numbers order valid dates from 4800 BC on as the calendar does, year by
  year, month by month and day by day.
\<close>

theorem date2j_chronological:
  assumes "proper_date y m d" "proper_date y' m' d'"
    and "date2j env y m d = Inr j" "date2j env y' m' d' = Inr j'" "ora_mode env \<longrightarrow> y \<noteq> 0 \<and> y' \<noteq> 0"
  shows "(j < j' \<longleftrightarrow> y < y' \<or> y = y' \<and> (m < m' \<or> m = m' \<and> d < d')) \<and> (j = j' \<longleftrightarrow> y = y' \<and> m = m' \<and> d = d')"
proof -
  have "m \<noteq> 0" "m' \<noteq> 0" using assms(1,2) by (auto simp: proper_date_def valid_date_def)
  then have "j = date2j_core y m d" "j' = date2j_core y' m' d'"
    using assms(3-5) by (auto simp: date2j_pure)
  then show ?thesis using jday.to_day_mono [OF assms(1,2)] jday.to_day_inj [OF assms(1,2)] by blast
qed

theorem date2j_chronological_witness:
  "\<exists>j j'. date2j utc_session 2000 2 29 = Inr j \<and> date2j utc_session 2000 3 1 = Inr j' \<and> j < j'"
proof -
  have "date2j utc_session 2000 2 29 = Inr 2451604" "date2j utc_session 2000 3 1 = Inr 2451605"
    "proper_date 2000 2 29" "proper_date 2000 3 1" by code_simp+
  with date2j_chronological [of 2000 2 29 2000 3 1 utc_session 2451604 2451605] show ?thesis by simp
qed

text \<open>
  C27 (year 0): \<open>j2date\<close> numbers 1 BC as the year 0, which Oracle mode reads as "the current
  year": a date in 1 BC other than February 29 comes back as a date of the current year.
\<close>

theorem year_zero_is_current_year:
  assumes env: "ora_mode env" "now_tm env = Some now" and now: "1 \<le> tm_year now" "tm_year now < 294277"
    and jd: "0 \<le> jd" "jd \<le> INT_MAX" "j2date jd = (0, m, d)" "(m, d) \<noteq> (2, 29)"
  shows "\<exists>j. date2j env 0 m d = Inr j \<and> j2date j = (tm_year now, m, d) \<and> jd < j"
proof -
  have p: "proper_date 0 m d" and c: "date2j_core 0 m d = jd" using jday.of_day_valid [OF _ jd(3)] jday.to_of_day [OF _ jd(3)] jd by auto
  then have m: "1 \<le> m" "m \<le> 12" "1 \<le> d" "d \<le> month_len 0 m" by (auto simp: proper_date_def valid_date_def)
  have tab: "day_tab (isleap y) ! nat (m - 1) = month_len y m" for y
    using month_cases [OF m(1,2)] by (auto simp: day_tab_def month_len_def)
  have len: "d \<le> month_len (tm_year now) m"
    using m(4) jd(4) month_cases [OF m(1,2)] by (auto simp: month_len_def split: if_splits)
  then have q: "proper_date (tm_year now) m d" using now m by (simp add: proper_date_def valid_date_def)
  have top: "proper_date 294277 1 1" "proper_date 0 m d" using p by (simp_all add: proper_date_def valid_date_def month_len_def)
  let ?j = "date2j_core (tm_year now) m d"
  have "jd < ?j" using jday.to_day_mono [OF p q] now c by simp
  moreover have "?j < date2j_core 294277 1 1" using jday.to_day_mono [OF q top(1)] now by simp
  moreover have "date2j_core 294277 1 1 = 109203528" by code_simp
  ultimately have "0 \<le> ?j \<and> ?j \<le> INT_MAX" using jd(1) by (simp add: INT_MAX_def)
  then have "j2date ?j = (tm_year now, m, d)" by (rule jday.of_to_day [OF q])
  moreover have "date2j env 0 m d = Inr ?j" using env m len by (auto simp: date2j_def tab)
  ultimately show ?thesis using \<open>jd < ?j\<close> by blast
qed

theorem year_zero_is_current_year_witness:
  "\<exists>j. date2j utc_session 0 3 15 = Inr j \<and> j2date j = (2024, 3, 15) \<and> 1721134 < j"
proof -
  have "j2date 1721134 = (0, 3, 15)" by code_simp
  then show ?thesis
    using year_zero_is_current_year [of utc_session "the (now_tm utc_session)" 1721134 3 15]
    by (simp add: INT_MAX_def utc_session_def)
qed

text \<open>
  C25 (timestamps): the conversion of a timestamp to broken-down local time and back is the identity on
  the whole range of valid timestamps, except for the year 0 (1 BC) of Oracle mode.
\<close>

theorem timestamp_roundtrip:
  assumes "IS_VALID_TIMESTAMP dt"
    and "timestamp2tm env False dt = Some (tm, fsec, tz)"
    and "ora_mode env \<longrightarrow> tm_year tm \<noteq> 0"
  shows "tm2timestamp env tm fsec None = Inr (Some dt)"
  using assms by (rule timestamp_roundtrip_core)

theorem timestamp_roundtrip_witness:
  "\<exists>tm. timestamp2tm utc_session False 123456789012345 = Some (tm, 12345, 0)
     \<and> tm2timestamp utc_session tm 12345 None = Inr (Some 123456789012345)"
proof -
  define tm where "tm = \<lparr>tm_sec = 9, tm_min = 33, tm_hour = 21, tm_mday = 29, tm_mon = 11, tm_year = 2003,
    tm_isdst = -1, tm_gmtoff = 0\<rparr>"
  have "timestamp2tm utc_session False 123456789012345 = Some (tm, 12345, 0)" unfolding tm_def by code_simp
  with timestamp_roundtrip [of 123456789012345 utc_session tm 12345 0] show ?thesis
    by (intro exI [of _ tm]) (simp add: IS_VALID_TIMESTAMP_def MIN_TIMESTAMP_def END_TIMESTAMP_def tm_def)
qed

end
