(* ===== verification/Ora_Datetime.thy ===== *)
theory Ora_Datetime
  imports Pg_Calendar Complex_Main
begin

text \<open>
  The Oracle date functions of
  src/contrib/ivorysql_ora/src/builtin\_functions/datetime\_datatype\_functions.c:
  LAST\_DAY, ADD\_MONTHS, NEXT\_DAY, NEW\_TIME, TRUNC and ROUND on DATE values, with the
  helpers they call. A DATE is a timestamp: microseconds since 2000-01-01 00:00.

  Every function takes the session (\<open>dt_env\<close>) and returns the error it raises or its
  value; a read outside a C array is the error \<open>OutOfBounds\<close>.
\<close>

section \<open>Helpers\<close>

definition DATE2J :: "dt_env \<Rightarrow> int \<Rightarrow> int \<Rightarrow> int \<Rightarrow> (dt_error, int) res" where
  "DATE2J env y m d = bindR (date2j env y m d) (\<lambda>j. Inr (j - POSTGRES_EPOCH_JDATE))"

definition J2DAY :: "int \<Rightarrow> int" where
  "J2DAY date = j2day (date + POSTGRES_EPOCH_JDATE)"

definition month_days :: "int list" where
  "month_days = [31, 28, 31, 30, 31, 30, 31, 31, 30, 31, 30, 31]"

definition days_of_month :: "int \<Rightarrow> int \<Rightarrow> (dt_error, int) res" where
  "days_of_month y m =
     (if m < 0 \<or> 12 < m then Inl DateOutOfRange
      else if m = 0 then Inl OutOfBounds
      else
        let days = month_days ! nat (m - 1)
        in Inr (if m = 2 \<and> (y smod 400 = 0 \<or> (y smod 4 = 0 \<and> y smod 100 \<noteq> 0)) then days + 1 else days))"

text \<open>
  \<open>pg_strncasecmp\<close>: C strings are lists of the characters before the NUL, and reading
  the terminator gives NUL.
\<close>

definition fold_lower :: "dt_env \<Rightarrow> char \<Rightarrow> char" where
  "fold_lower env c =
     (if 65 \<le> (of_char c :: nat) \<and> of_char c \<le> (90 :: nat) then char_of (of_char c + (32 :: nat))
      else if 128 \<le> (of_char c :: nat) then lc_tolower env c else c)"

fun pg_strncasecmp :: "dt_env \<Rightarrow> string \<Rightarrow> string \<Rightarrow> nat \<Rightarrow> int" where
  "pg_strncasecmp env s1 s2 0 = 0"
| "pg_strncasecmp env s1 s2 (Suc n) =
     (let ch1 = (case s1 of [] \<Rightarrow> CHR 0x00 | c # _ \<Rightarrow> c);
          ch2 = (case s2 of [] \<Rightarrow> CHR 0x00 | c # _ \<Rightarrow> c);
          l1 = (if ch1 \<noteq> ch2 then fold_lower env ch1 else ch1);
          l2 = (if ch1 \<noteq> ch2 then fold_lower env ch2 else ch2)
      in if l1 \<noteq> l2 then of_char l1 - of_char l2
         else if l1 = CHR 0x00 then 0
         else pg_strncasecmp env (tl s1) (tl s2) n)"

text \<open>The search functions return the index of the entry, \<open>None\<close> for -1.\<close>

fun find_index_from :: "nat \<Rightarrow> ('a \<Rightarrow> bool) \<Rightarrow> 'a list \<Rightarrow> nat option" where
  "find_index_from i P [] = None"
| "find_index_from i P (x # xs) = (if P x then Some i else find_index_from (Suc i) P xs)"

definition ora_seq_search :: "dt_env \<Rightarrow> string \<Rightarrow> string list \<Rightarrow> nat \<Rightarrow> nat option" where
  "ora_seq_search env name arr mx =
     (if name = [] then None
      else find_index_from 0 (\<lambda>a. length a = mx \<and> pg_strncasecmp env name a mx = 0) arr)"

definition ora_seq_prefix_search :: "dt_env \<Rightarrow> string \<Rightarrow> string list \<Rightarrow> nat \<Rightarrow> nat option" where
  "ora_seq_prefix_search env name arr mx =
     (if name = [] then None
      else find_index_from 0 (\<lambda>a. pg_strncasecmp env name a mx = 0) arr)"

definition weekday_search :: "dt_env \<Rightarrow> string list \<Rightarrow> string \<Rightarrow> nat \<Rightarrow> nat option" where
  "weekday_search env names str len =
     find_index_from 0 (\<lambda>a. \<not> length a > len \<and> pg_strncasecmp env a str (length a) = 0) names"

section \<open>LAST\_DAY, ADD\_MONTHS, NEXT\_DAY\<close>

text \<open>
  The day numbers are \<open>int\<close> values and the results \<open>int64\<close> values, both wrapping. \<open>date2j\<close> is left
  unbounded: its sums and products wrap to the same value modulo \<open>2 ^ 32\<close> as the difference here.
\<close>

definition last_day :: "dt_env \<Rightarrow> int \<Rightarrow> (dt_error, int) res" where
  "last_day env t =
     (let (date, time) = day_and_time t;
          date = date + POSTGRES_EPOCH_JDATE;
          (y, m, d) = j2date date
      in bindR (days_of_month y m) (\<lambda>ld.
         bindR (date2j env y m ld) (\<lambda>j.
         Inr (wrap64 (wrap32 (j - POSTGRES_EPOCH_JDATE) * USECS_PER_DAY + time)))))"

text \<open>
  The second argument is the value \<open>numeric_int8\<close> gives for the NUMBER; it is then read
  back as a 32-bit integer. C's \<open>div\<close> takes \<open>int\<close> arguments.
\<close>

definition add_months :: "dt_env \<Rightarrow> int \<Rightarrow> int \<Rightarrow> (dt_error, int) res" where
  "add_months env t num =
     (let n = wrap32 num;
          (date, time) = day_and_time t;
          date = date + POSTGRES_EPOCH_JDATE;
          (y, m, d) = j2date date
      in bindR (days_of_month y m) (\<lambda>dm.
         let is_last = (d = dm);
             v = wrap32 (y * 12 + m - 1 + n);
             y' = v sdiv 12;
             y' = (if y' < 0 then y' + 1 else y');
             m' = v smod 12 + 1
         in bindR (days_of_month y' m') (\<lambda>days.
            let d' = (if is_last \<or> d > days then days else d)
            in bindR (date2j env y' m' d') (\<lambda>j.
               Inr (wrap64 (wrap32 (j - POSTGRES_EPOCH_JDATE) * USECS_PER_DAY + time))))))"

text \<open>The last part of both NEXT\_DAY functions, from the weekday \<open>0 = Sunday\<close> on.\<close>

definition next_day_from :: "int \<Rightarrow> int \<Rightarrow> int" where
  "next_day_from t dow =
     (let (date, time) = day_and_time t;
          date = date + POSTGRES_EPOCH_JDATE;
          off = dow - j2day (wrap32 date);
          date = (if off \<le> 0 then date + off + 7 else date + off)
      in wrap64 ((date - POSTGRES_EPOCH_JDATE) * USECS_PER_DAY + time))"

definition next_day_by_index :: "int \<Rightarrow> int \<Rightarrow> (dt_error, int) res" where
  "next_day_by_index t idx =
     (if idx < 1 \<or> 7 < idx then Inl BadFormat else Inr (next_day_from t (idx - 1)))"

definition ora_days :: "string list" where
  "ora_days = [''Sunday'', ''Monday'', ''Tuesday'', ''Wednesday'', ''Thursday'', ''Friday'', ''Saturday'']"

definition weekdays_utf8 :: "string list" where
  "weekdays_utf8 = map (map char_of)
     [[0xe6, 0x98, 0x9f, 0xe6, 0x9c, 0x9f, 0xe6, 0x97, 0xa5],
      [0xe6, 0x98, 0x9f, 0xe6, 0x9c, 0x9f, 0xe4, 0xb8, 0x80],
      [0xe6, 0x98, 0x9f, 0xe6, 0x9c, 0x9f, 0xe4, 0xba, 0x8c],
      [0xe6, 0x98, 0x9f, 0xe6, 0x9c, 0x9f, 0xe4, 0xb8, 0x89],
      [0xe6, 0x98, 0x9f, 0xe6, 0x9c, 0x9f, 0xe5, 0x9b, 0x9b],
      [0xe6, 0x98, 0x9f, 0xe6, 0x9c, 0x9f, 0xe4, 0xba, 0x94],
      [0xe6, 0x98, 0x9f, 0xe6, 0x9c, 0x9f, 0xe5, 0x85, 0xad :: nat]]"

text \<open>
  \<open>to_utf8\<close> stands for the C string at the address \<open>pg_server_to_any\<close> returns. In a
  database whose encoding is UTF-8 that is the argument itself, which no NUL ends: the
  string then goes on with whatever follows the value in memory.
\<close>

definition next_day :: "dt_env \<Rightarrow> (string \<Rightarrow> string) \<Rightarrow> int \<Rightarrow> string \<Rightarrow> (dt_error, int) res" where
  "next_day env to_utf8 t str =
     (let len = length str;
          d = (if len \<ge> 3 then ora_seq_prefix_search env str ora_days 3 else None)
      in case d of
           Some i \<Rightarrow> Inr (next_day_from t (int i))
         | None \<Rightarrow>
             (let changstr = to_utf8 str
              in case weekday_search env weekdays_utf8 changstr (length changstr) of
                   Some i \<Rightarrow> Inr (next_day_from t (int i))
                 | None \<Rightarrow> Inl BadFormat))"

section \<open>NEW\_TIME\<close>

definition date_timezone :: "string list" where
  "date_timezone =
     [''GMT'', ''ADT'', ''NST'', ''AST'', ''EDT'', ''CDT'',
      ''EST'', ''CST'', ''MDT'', ''MST'', ''PDT'', ''PST'',
      ''YDT'', ''HDT'', ''YST'', ''BDT'', ''HST'', ''BST'']"

definition ora_timezone_name_to_num :: "dt_env \<Rightarrow> string \<Rightarrow> int" where
  "ora_timezone_name_to_num env name =
     (if length name \<noteq> 3 then -1
      else case find_index_from 0 (\<lambda>a. pg_strncasecmp env name a 3 = 0) date_timezone of
        None \<Rightarrow> -1
      | Some i \<Rightarrow>
          if i = 0 then 0
          else if i = 1 then 3 * 3600
          else if i = 2 then 12600
          else if i = 3 \<or> i = 4 then 4 * 3600
          else if i = 5 \<or> i = 6 then 5 * 3600
          else if i = 7 \<or> i = 8 then 6 * 3600
          else if i = 9 \<or> i = 10 then 7 * 3600
          else if i = 11 \<or> i = 12 then 8 * 3600
          else if i = 13 \<or> i = 14 then 9 * 3600
          else if i = 15 \<or> i = 16 then 10 * 3600
          else if i = 17 then 11 * 3600
          else -1)"

text \<open>The return value of \<open>tm2timestamp\<close> is not tested here: a failure leaves the result 0.\<close>

definition ora_new_time :: "dt_env \<Rightarrow> int \<Rightarrow> string \<Rightarrow> string \<Rightarrow> (dt_error, int) res" where
  "ora_new_time env day name1 name2 =
     (let tz1 = ora_timezone_name_to_num env name1;
          tz2 = ora_timezone_name_to_num env name2
      in if tz1 = -1 then Inl InvalidTimeZone
         else if tz2 = -1 then Inl InvalidTimeZone
         else case timestamp2tm env False day of
           None \<Rightarrow> Inl TimestampOutOfRange
         | Some (tm, fsec, _) \<Rightarrow>
             bindR (tm2timestamp env tm fsec (Some (tz1 - tz2)))
               (\<lambda>r. Inr (case r of None \<Rightarrow> 0 | Some t \<Rightarrow> t)))"

section \<open>TRUNC and ROUND\<close>

datatype fmt_class =
  fmt_YYYY | fmt_IYYY | fmt_Q | fmt_WW | fmt_IW | fmt_W | fmt_DAY | fmt_MON | fmt_CC | fmt_DDD | fmt_HH | fmt_MI

definition date_fmt :: "string list" where
  "date_fmt =
     [''Y'', ''Yy'', ''Yyy'', ''Yyyy'', ''Year'', ''Syyyy'', ''syear'',
      ''I'', ''Iy'', ''Iyy'', ''Iyyy'',
      ''Q'', ''Ww'', ''Iw'', ''W'',
      ''Day'', ''Dy'', ''D'',
      ''Month'', ''Mon'', ''Mm'', ''Rm'',
      ''Cc'', ''Scc'',
      ''Ddd'', ''Dd'', ''J'',
      ''Hh'', ''Hh12'', ''Hh24'',
      ''Mi'']"

definition CASE_fmt :: "nat \<Rightarrow> fmt_class" where
  "CASE_fmt f =
     (if f \<le> 6 then fmt_YYYY
      else if f \<le> 10 then fmt_IYYY
      else if f = 11 then fmt_Q
      else if f = 12 then fmt_WW
      else if f = 13 then fmt_IW
      else if f = 14 then fmt_W
      else if f \<le> 17 then fmt_DAY
      else if f \<le> 21 then fmt_MON
      else if f \<le> 23 then fmt_CC
      else if f \<le> 26 then fmt_DDD
      else if f \<le> 29 then fmt_HH
      else fmt_MI)"

definition fmt_search :: "dt_env \<Rightarrow> string \<Rightarrow> (dt_error, fmt_class) res" where
  "fmt_search env fmt =
     (case ora_seq_search env fmt date_fmt (length fmt) of
        None \<Rightarrow> Inl BadFormat
      | Some f \<Rightarrow> Inr (CASE_fmt f))"

text \<open>The Monday that \<open>iso_year\<close> reaches from the first of January.\<close>

definition to_monday :: "int \<Rightarrow> int" where
  "to_monday result = (let off = 4 - J2DAY result in result + (off + (if off \<ge> 0 then - 3 else 4)))"

definition iso_year :: "dt_env \<Rightarrow> int \<Rightarrow> int \<Rightarrow> int \<Rightarrow> (dt_error, int) res" where
  "iso_year env y m d =
     bindR (DATE2J env y 1 1) (\<lambda>first.
     bindR (DATE2J env y m d) (\<lambda>day.
     bindR (if to_monday first > day
            then bindR (DATE2J env (y - 1) 1 1) (\<lambda>prev. Inr (to_monday prev))
            else Inr (to_monday first)) (\<lambda>result.
     if (day - result) sdiv 7 + 1 > 52
     then bindR (DATE2J env (y + 1) 1 1) (\<lambda>succ.
          let result2 = to_monday succ
          in if day \<ge> result2 then Inr result2 else Inr result)
     else Inr result)))"

definition ora_date_trunc :: "dt_env \<Rightarrow> int \<Rightarrow> fmt_class \<Rightarrow> (dt_error, int) res" where
  "ora_date_trunc env day f =
     (let (y, m, d) = j2date (day + POSTGRES_EPOCH_JDATE)
      in case f of
        fmt_CC \<Rightarrow>
          if y > 0 then DATE2J env ((y sdiv 100) * 100 + 1) 1 1
          else DATE2J env (- ((99 - (y - 1)) sdiv 100) * 100 + 1) 1 1
      | fmt_YYYY \<Rightarrow> DATE2J env y 1 1
      | fmt_IYYY \<Rightarrow> iso_year env y m d
      | fmt_MON \<Rightarrow> DATE2J env y m 1
      | fmt_WW \<Rightarrow> bindR (DATE2J env y 1 1) (\<lambda>j. Inr (day - (day - j) smod 7))
      | fmt_IW \<Rightarrow> bindR (iso_year env y m d) (\<lambda>j. Inr (day - (day - j) smod 7))
      | fmt_W \<Rightarrow> bindR (DATE2J env y m 1) (\<lambda>j. Inr (day - (day - j) smod 7))
      | fmt_DAY \<Rightarrow> Inr (day - J2DAY day)
      | fmt_Q \<Rightarrow> DATE2J env y (((m - 1) sdiv 3) * 3 + 1) 1
      | _ \<Rightarrow> Inr day)"

definition set_date :: "pg_tm \<Rightarrow> int \<Rightarrow> pg_tm" where
  "set_date tm day =
     (let (y, m, d) = j2date (day + POSTGRES_EPOCH_JDATE)
      in tm\<lparr>tm_year := y, tm_mon := m, tm_mday := d, tm_hour := 0, tm_min := 0\<rparr>)"

definition tm_trunc :: "dt_env \<Rightarrow> pg_tm \<Rightarrow> string \<Rightarrow> (dt_error, pg_tm) res" where
  "tm_trunc env tm0 fmt =
     bindR (fmt_search env fmt) (\<lambda>f.
     let tm = tm0\<lparr>tm_sec := 0\<rparr>
     in case f of
       fmt_YYYY \<Rightarrow> Inr (tm\<lparr>tm_mon := 1, tm_mday := 1, tm_hour := 0, tm_min := 0\<rparr>)
     | fmt_Q \<Rightarrow> Inr (tm\<lparr>tm_mon := 3 * ((tm_mon tm - 1) sdiv 3) + 1, tm_mday := 1, tm_hour := 0, tm_min := 0\<rparr>)
     | fmt_MON \<Rightarrow> Inr (tm\<lparr>tm_mday := 1, tm_hour := 0, tm_min := 0\<rparr>)
     | fmt_DDD \<Rightarrow> Inr (tm\<lparr>tm_hour := 0, tm_min := 0\<rparr>)
     | fmt_HH \<Rightarrow> Inr (tm\<lparr>tm_min := 0\<rparr>)
     | fmt_MI \<Rightarrow> Inr tm
     | _ \<Rightarrow> bindR (DATE2J env (tm_year tm) (tm_mon tm) (tm_mday tm)) (\<lambda>day.
            bindR (ora_date_trunc env day f) (\<lambda>r. Inr (set_date tm r))))"

definition TIMESTAMP_NOT_FINITE :: "int \<Rightarrow> bool" where
  "TIMESTAMP_NOT_FINITE t \<longleftrightarrow> t = PG_INT64_MIN \<or> t = PG_INT64_MAX"

definition ora_trunc :: "dt_env \<Rightarrow> int \<Rightarrow> string option \<Rightarrow> (dt_error, int) res" where
  "ora_trunc env timestamp fmt_arg =
     (let fmt = (case fmt_arg of None \<Rightarrow> ''DDD'' | Some f \<Rightarrow> f)
      in if TIMESTAMP_NOT_FINITE timestamp then Inr timestamp
         else case timestamp2tm env False timestamp of
           None \<Rightarrow> Inl TimestampOutOfRange
         | Some (tm, fsec, _) \<Rightarrow>
             bindR (tm_trunc env tm fmt) (\<lambda>tm'.
             bindR (tm2timestamp env tm' 0 None) (\<lambda>r.
             case r of None \<Rightarrow> Inl TimestampOutOfRange | Some t \<Rightarrow> Inr t)))"

text \<open>\<open>iso_year\<close>'s week test and the exceptional cases of rounding to the ISO year.\<close>

definition round_IYYY :: "dt_env \<Rightarrow> int \<Rightarrow> int \<Rightarrow> (dt_error, int) res" where
  "round_IYYY env day y =
     bindR (iso_year env (y + 1) 1 8) (\<lambda>iy1.
     bindR (DATE2J env y 1 1) (\<lambda>day_y.
     if (day - day_y) sdiv 7 + 1 \<ge> 52 then
       bindR (date2j env (y + 2) 1 1) (\<lambda>j2.
       bindR (date2j env (y + 1) 1 1) (\<lambda>j1.
       bindR (iso_year env (y + 2) 1 8) (\<lambda>iy2.
       bindR (DATE2J env (y + 1) 1 1) (\<lambda>day1.
       let overl = (j2 - j1 = 366);
           isSaturday = (J2DAY day = 6)
       in if iy1 \<ge> day1 \<and> day \<ge> day1 - 2 \<and> isSaturday then
            Inr (if overl then iy2 else iy1)
          else if iy1 \<le> day1 \<and> day \<ge> iy1 - 3 then
            (let cmp = iy1 - (if iy1 < day1 then 0 else 1);
                 d1 = J2DAY day1
             in if day \<ge> cmp - 2 \<and> \<not> (d1 = 3 \<and> overl) \<and>
                   ((d1 < 4 \<and> J2DAY day \<noteq> 5 \<and> \<not> isSaturday) \<or> (d1 = 2 \<and> isSaturday \<and> overl))
                then Inr iy2 else Inr iy1)
          else Inr iy1))))
     else Inr iy1))"

definition ora_date_round :: "dt_env \<Rightarrow> int \<Rightarrow> fmt_class \<Rightarrow> (dt_error, int) res" where
  "ora_date_round env day f =
     (let (y, m, d) = j2date (day + POSTGRES_EPOCH_JDATE)
      in case f of
        fmt_CC \<Rightarrow>
          if y > 0 then
            bindR (DATE2J env ((y sdiv 100) * 100 + 50) 1 1) (\<lambda>h.
            DATE2J env ((y sdiv 100) * 100 + (if day < h then 1 else 101)) 1 1)
          else
            bindR (DATE2J env ((y sdiv 100) * 100 - 50 + 1) 1 1) (\<lambda>h.
            DATE2J env ((y sdiv 100) * 100 + (if day < h then - 99 else 1)) 1 1)
      | fmt_YYYY \<Rightarrow>
          bindR (DATE2J env y 7 1) (\<lambda>h. DATE2J env (y + (if day < h then 0 else 1)) 1 1)
      | fmt_IYYY \<Rightarrow>
          bindR (DATE2J env y 7 1) (\<lambda>h.
          if day < h then iso_year env y m d else round_IYYY env day y)
      | fmt_MON \<Rightarrow>
          bindR (DATE2J env y m 16) (\<lambda>h. DATE2J env y (m + (if day < h then 0 else 1)) 1)
      | fmt_WW \<Rightarrow>
          bindR (DATE2J env y 1 1) (\<lambda>j.
          let z = (day - j) smod 7 in Inr (day - z + (if z < 4 then 0 else 7)))
      | fmt_IW \<Rightarrow>
          bindR (iso_year env y m d) (\<lambda>j.
          let z = (day - j) smod 7; result = day - z + (if z < 4 then 0 else 7)
          in bindR (DATE2J env y 1 1) (\<lambda>j1.
             if (day - j1) sdiv 7 + 1 \<ge> 52 then
               bindR (iso_year env (y + 1) 1 8) (\<lambda>isoyear.
               bindR (DATE2J env (y + 1) 1 1) (\<lambda>j2.
               let tmpd = J2DAY day
               in Inr (if isoyear > j2 - 1 \<and> day > isoyear - 7
                       then result - (if tmpd = 0 \<or> tmpd > 4 then 7 else 0) else result)))
             else Inr result))
      | fmt_W \<Rightarrow>
          bindR (DATE2J env y m 1) (\<lambda>j.
          let z = (day - j) smod 7 in Inr (day - z + (if z < 4 then 0 else 7)))
      | fmt_DAY \<Rightarrow>
          (let z = J2DAY day
           in Inr (if y > 0 then day - z + (if z < 4 then 0 else 7)
                   else day + (5 - (if z > 0 then (if z > 1 then z else z + 7) else 7))))
      | fmt_Q \<Rightarrow>
          bindR (DATE2J env y (((m - 1) sdiv 3) * 3 + 2) 16) (\<lambda>h.
          DATE2J env y (((m - 1) sdiv 3) * 3 + (if day < h then 1 else 4)) 1)
      | _ \<Rightarrow> Inr day)"

text \<open>The first switch of \<open>tm_round\<close>: whether the hour may carry into the day.\<close>

definition tm_round_rule :: "dt_env \<Rightarrow> pg_tm \<Rightarrow> fmt_class \<Rightarrow> (dt_error, bool) res" where
  "tm_round_rule env tm f =
     (case f of
        fmt_IYYY \<Rightarrow>
          (let rounded = (\<not> (tm_mday tm < 8 \<and> tm_mon tm = 1) \<and> \<not> (tm_mday tm = 30 \<and> tm_mon tm = 6))
           in if tm_mday tm \<ge> 28 \<and> tm_mon tm = 12 \<and> tm_hour tm \<ge> 12 then
                bindR (iso_year env (tm_year tm + 1) 1 8) (\<lambda>isoyear.
                bindR (DATE2J env (tm_year tm + 1) 1 1) (\<lambda>day0.
                bindR (DATE2J env (tm_year tm) (tm_mon tm) (tm_mday tm)) (\<lambda>dayc.
                Inr (if isoyear \<le> day0 \<or> day0 \<le> dayc + 2 then False else rounded))))
              else Inr rounded)
      | fmt_YYYY \<Rightarrow> Inr (\<not> (tm_mday tm = 30 \<and> tm_mon tm = 6))
      | fmt_MON \<Rightarrow> Inr (tm_mday tm \<noteq> 15)
      | fmt_Q \<Rightarrow> Inr (\<not> (tm_mday tm = 15 \<and> tm_mon tm = ((tm_mon tm - 1) sdiv 3) * 3 + 2))
      | fmt_WW \<Rightarrow>
          bindR (DATE2J env (tm_year tm) (tm_mon tm) (tm_mday tm)) (\<lambda>a.
          bindR (DATE2J env (tm_year tm + 1) 1 1) (\<lambda>b. Inr (a \<noteq> b - 1)))
      | fmt_IW \<Rightarrow>
          bindR (DATE2J env (tm_year tm) (tm_mon tm) (tm_mday tm)) (\<lambda>a.
          bindR (DATE2J env (tm_year tm + 1) 1 1) (\<lambda>b. Inr (a \<noteq> b - 1)))
      | fmt_W \<Rightarrow>
          bindR (DATE2J env (tm_year tm) (tm_mon tm) (tm_mday tm)) (\<lambda>a.
          bindR (DATE2J env (tm_year tm) (tm_mon tm + 1) 1) (\<lambda>b. Inr (a \<noteq> b - 1)))
      | _ \<Rightarrow> Inr True)"

definition tm_round :: "dt_env \<Rightarrow> pg_tm \<Rightarrow> string \<Rightarrow> (dt_error, pg_tm) res" where
  "tm_round env tm fmt =
     bindR (fmt_search env fmt) (\<lambda>f.
     bindR (tm_round_rule env tm f) (\<lambda>rounded.
     bindR (case f of
         fmt_DDD \<Rightarrow> Inr (tm\<lparr>tm_mday := tm_mday tm + (if tm_hour tm \<ge> 12 then 1 else 0), tm_hour := 0, tm_min := 0\<rparr>)
       | fmt_MI \<Rightarrow> Inr (tm\<lparr>tm_min := tm_min tm + (if tm_sec tm \<ge> 30 then 1 else 0)\<rparr>)
       | fmt_HH \<Rightarrow> Inr (tm\<lparr>tm_hour := tm_hour tm + (if tm_min tm \<ge> 30 then 1 else 0), tm_min := 0\<rparr>)
       | _ \<Rightarrow>
           (let tm1 = (if rounded then tm\<lparr>tm_mday := tm_mday tm + (if tm_hour tm \<ge> 12 then 1 else 0)\<rparr> else tm)
            in bindR (DATE2J env (tm_year tm1) (tm_mon tm1) (tm_mday tm1)) (\<lambda>day.
               bindR (ora_date_round env day f) (\<lambda>r. Inr (set_date tm1 r)))))
       (\<lambda>tm'. Inr (tm'\<lparr>tm_sec := 0\<rparr>))))"

definition ora_round :: "dt_env \<Rightarrow> int \<Rightarrow> string option \<Rightarrow> (dt_error, int) res" where
  "ora_round env timestamp fmt_arg =
     (let fmt = (case fmt_arg of None \<Rightarrow> ''DDD'' | Some f \<Rightarrow> f)
      in if TIMESTAMP_NOT_FINITE timestamp then Inr timestamp
         else case timestamp2tm env False timestamp of
           None \<Rightarrow> Inl TimestampOutOfRange
         | Some (tm, fsec, _) \<Rightarrow>
             bindR (tm_round env tm fmt) (\<lambda>tm'.
             bindR (tm2timestamp env tm' fsec None) (\<lambda>r.
             case r of None \<Rightarrow> Inl TimestampOutOfRange | Some t \<Rightarrow> Inr t)))"

section \<open>MONTHS\_BETWEEN\<close>

text \<open>
  \<open>float8\<close> values are rationals; \<open>rnd\<close> is the rounding the hardware applies to the exact
  result of each operation. The integer parts are computed in \<open>int\<close>.
\<close>

definition months_between :: "(rat \<Rightarrow> rat) \<Rightarrow> int \<Rightarrow> int \<Rightarrow> (dt_error, rat) res" where
  "months_between rnd t1 t2 =
     (let (date1, time1) = day_and_time t1;
          (date2, time2) = day_and_time t2;
          (y1, m1, d1) = j2date (date1 + POSTGRES_EPOCH_JDATE);
          (y2, m2, d2) = j2date (date2 + POSTGRES_EPOCH_JDATE)
      in bindR (days_of_month y1 m1) (\<lambda>l1.
         bindR (if d1 = l1 then bindR (days_of_month y2 m2) (\<lambda>l2. Inr (d2 = l2)) else Inr False) (\<lambda>both_last.
         if both_last then Inr (rnd (of_int ((y1 - y2) * 12 + (m1 - m2))))
         else
           (let result = rnd (of_int ((y1 - y2) * 12 + (m1 - m2)) + rnd (of_int (d1 - d2) / 31))
            in Inr (if d1 \<noteq> d2
                    then rnd (result + rnd (rnd (rnd (of_int (time1 - time2)) / 31) / of_int USECS_PER_DAY))
                    else result)))))"

section \<open>Dates and times of timestamps\<close>

text \<open>The calendar date and the time of day a timestamp denotes.\<close>

definition date_of :: "int \<Rightarrow> int \<times> int \<times> int" where
  "date_of t = j2date (t div USECS_PER_DAY + POSTGRES_EPOCH_JDATE)"

definition time_of :: "int \<Rightarrow> int" where
  "time_of t = t mod USECS_PER_DAY"

definition day_no :: "int \<Rightarrow> int" where
  "day_no t = t div USECS_PER_DAY"

definition stamp :: "int \<Rightarrow> int \<Rightarrow> int" where
  "stamp day time = day * USECS_PER_DAY + time"

definition in_day :: "int \<Rightarrow> bool" where
  "in_day time \<longleftrightarrow> 0 \<le> time \<and> time < USECS_PER_DAY"

lemma time_of_in_day [simp]: "in_day (time_of t)"
  by (simp add: in_day_def time_of_def USECS_PER_DAY_def)

lemma stamp_parts [simp]: "stamp (day_no t) (time_of t) = t"
  by (simp add: stamp_def day_no_def time_of_def)

lemma day_no_stamp [simp]: "in_day time \<Longrightarrow> day_no (stamp day time) = day"
  by (simp add: in_day_def stamp_def day_no_def USECS_PER_DAY_def)

lemma time_of_stamp [simp]: "in_day time \<Longrightarrow> time_of (stamp day time) = time"
  by (simp add: in_day_def stamp_def time_of_def USECS_PER_DAY_def)

lemma date_of_stamp: "in_day time \<Longrightarrow> date_of (stamp day time) = j2date (day + POSTGRES_EPOCH_JDATE)"
  using day_no_stamp [of time day] by (simp add: date_of_def day_no_def)

lemma stamp_less: "in_day t \<Longrightarrow> in_day t' \<Longrightarrow> a < b \<Longrightarrow> stamp a t < stamp b t'"
  by (simp add: in_day_def stamp_def USECS_PER_DAY_def)

lemma split_day: "day_and_time t = (day_no t, time_of t)"
  by (simp add: day_and_time_eq day_no_def time_of_def)

lemma valid_date_of:
  assumes "IS_VALID_TIMESTAMP t" "date_of t = (y, m, d)"
  shows "proper_date y m d" "date2j_core y m d = day_no t + POSTGRES_EPOCH_JDATE"
    "- 4713 \<le> y" "y < 294277" "valid_date y m d" "m \<noteq> 0"
proof -
  define j where "j = day_no t + POSTGRES_EPOCH_JDATE"
  have b: "0 \<le> j" "j < 109203528" using timestamp_date_range [OF assms(1)] by (simp_all add: j_def day_no_def)
  then have r: "0 \<le> j \<and> j \<le> INT_MAX" by (simp add: INT_MAX_def)
  have e: "j2date j = (y, m, d)" using assms(2) by (simp add: date_of_def j_def day_no_def)
  show p: "proper_date y m d" and c: "date2j_core y m d = day_no t + POSTGRES_EPOCH_JDATE"
    using jday.of_day_valid [OF r e] jday.to_of_day [OF r e] by (simp_all add: j_def)
  show "- 4713 \<le> y" "y < 294277" using julian_of_date [OF p] b c by (simp_all add: j_def)
  show "valid_date y m d" "m \<noteq> 0" using p by (auto simp: proper_date_def valid_date_def)
qed

lemma days_of_month_len:
  assumes "1 \<le> m" "m \<le> 12"
  shows "days_of_month y m = Inr (month_len y m)"
proof -
  have "m \<in> {1, 2, 3, 4, 5, 6, 7, 8, 9, 10, 11, 12}" using assms by (intro month_cases)
  moreover have "isleap y \<longleftrightarrow> y smod 400 = 0 \<or> y smod 4 = 0 \<and> y smod 100 \<noteq> 0"
    by (auto simp: isleap_def smod_eq_0_iff intro: dvd_trans [of 4 400 y])
  ultimately show ?thesis
    by (auto simp: days_of_month_def month_days_def month_len_def Let_def)
qed

lemma date2j_core_range:
  assumes p: "proper_date y m d" "- 4713 < y" "y < 294277"
  shows "0 \<le> date2j_core y m d" "date2j_core y m d < 109203528"
proof -
  have q: "proper_date (- 4712) 1 1" "proper_date 294277 1 1"
    by (simp_all add: proper_date_def valid_date_def month_len_def)
  have v: "date2j_core (- 4712) 1 1 = 38" "date2j_core 294277 1 1 = 109203528" by code_simp+
  have "\<not> date2j_core y m d < date2j_core (- 4712) 1 1"
    using jday.to_day_mono [OF p(1) q(1)] p by (auto simp: proper_date_def valid_date_def)
  then show "0 \<le> date2j_core y m d" by (simp add: v)
  show "date2j_core y m d < 109203528" using jday.to_day_mono [OF p(1) q(2)] p(3) by (simp add: v)
qed

lemma date_of_date2j:
  assumes p: "proper_date y m d" "- 4713 < y" "y < 294277" and t: "in_day time"
  shows "date_of (stamp (date2j_core y m d - POSTGRES_EPOCH_JDATE) time) = (y, m, d)"
proof -
  have "0 \<le> date2j_core y m d \<and> date2j_core y m d \<le> INT_MAX"
    using date2j_core_range [OF p] by (simp add: INT_MAX_def)
  from jday.of_to_day [OF p(1) this] show ?thesis by (simp add: date_of_stamp [OF t])
qed

text \<open>Results in the range of timestamps are not affected by the width of the integers.\<close>

lemma wrap_stamp:
  "- 2451545 \<le> day \<Longrightarrow> day \<le> 106751990 \<Longrightarrow> in_day time \<Longrightarrow> wrap64 (day * USECS_PER_DAY + time) = stamp day time"
  unfolding stamp_def by (intro wrap64_id) (simp_all add: in_day_def USECS_PER_DAY_def)

lemma wrap_date2j:
  assumes "proper_date y m d" "- 4713 < y" "y < 294277" "in_day time"
  shows "wrap64 (wrap32 (date2j_core y m d - POSTGRES_EPOCH_JDATE) * USECS_PER_DAY + time)
    = stamp (date2j_core y m d - POSTGRES_EPOCH_JDATE) time"
proof -
  note r = date2j_core_range [OF assms(1-3)]
  have "wrap32 (date2j_core y m d - POSTGRES_EPOCH_JDATE) = date2j_core y m d - POSTGRES_EPOCH_JDATE"
    using r by (intro wrap32_id) (simp_all add: POSTGRES_EPOCH_JDATE_def)
  then show ?thesis using wrap_stamp [OF _ _ assms(4)] r by (simp add: POSTGRES_EPOCH_JDATE_def)
qed

lemma date2j_of_date:
  "proper_date y m d \<Longrightarrow> ora_mode env \<longrightarrow> y \<noteq> 0 \<Longrightarrow> date2j env y m d = Inr (date2j_core y m d)"
  by (rule date2j_pure) (auto simp: proper_date_def valid_date_def)

section \<open>LAST\_DAY and ADD\_MONTHS\<close>

lemma proper_date_month_day:
  "- 4799 \<le> y \<Longrightarrow> 1 \<le> m \<Longrightarrow> m \<le> 12 \<Longrightarrow> 1 \<le> d \<Longrightarrow> d \<le> month_len y m \<Longrightarrow> proper_date y m d"
  by (simp add: proper_date_def valid_date_def)

text \<open>
  C21 (LAST\_DAY): on every valid timestamp, outside the year 0 of Oracle mode and the partial
  year 4714 BC, LAST\_DAY returns the last day of the same month, at the same time of day.
\<close>

theorem last_day_correct:
  assumes t: "IS_VALID_TIMESTAMP t" and d: "date_of t = (y, m, d)"
    and y: "ora_mode env \<longrightarrow> y \<noteq> 0" "- 4713 < y"
  shows "\<exists>r. last_day env t = Inr r \<and> date_of r = (y, m, month_len y m) \<and> time_of r = time_of t \<and> t \<le> r"
proof -
  note v = valid_date_of [OF t d]
  have m: "1 \<le> m" "m \<le> 12" "d \<le> month_len y m" using v(5) by (simp_all add: valid_date_def)
  have p: "proper_date y m (month_len y m)"
    using v(1) m month_len_bounds [of m y] by (intro proper_date_month_day) (auto simp: proper_date_def)
  have "last_day env t = Inr (stamp (date2j_core y m (month_len y m) - POSTGRES_EPOCH_JDATE) (time_of t))"
    using d date2j_of_date [OF p y(1)] days_of_month_len [OF m(1,2)] wrap_date2j [OF p y(2) v(4)]
    by (simp add: last_day_def split_day date_of_def day_no_def)
  moreover have "day_no t \<le> date2j_core y m (month_len y m) - POSTGRES_EPOCH_JDATE"
    using v(2) m(3) date2j_core_day [of y m d] date2j_core_day [of y m "month_len y m"] by simp
  then have "stamp (day_no t) (time_of t) \<le> stamp (date2j_core y m (month_len y m) - POSTGRES_EPOCH_JDATE) (time_of t)"
    by (simp add: stamp_def USECS_PER_DAY_def)
  ultimately show ?thesis
    using date_of_date2j [OF p y(2) v(4)] by simp
qed

theorem last_day_correct_witness:
  "\<exists>r. last_day utc_session 760443630000000 = Inr r \<and> date_of r = (2024, 2, 29) \<and> time_of r = 37230000000"
proof -
  have "date_of 760443630000000 = (2024, 2, 5)" "IS_VALID_TIMESTAMP 760443630000000" "time_of 760443630000000 = 37230000000" "month_len 2024 2 = 29" by code_simp+
  with last_day_correct [of 760443630000000 2024 2 5 utc_session] show ?thesis by auto
qed

text \<open>The number of months since January of the year 0, and back.\<close>

definition month_no :: "int \<Rightarrow> int \<Rightarrow> int" where
  "month_no y m = y * 12 + (m - 1)"

text \<open>Where ADD\_MONTHS lands: the day of the month it picks.\<close>

definition add_months_day :: "int \<Rightarrow> int \<Rightarrow> int \<Rightarrow> int \<Rightarrow> int \<Rightarrow> int" where
  "add_months_day y m d y' m' = (if d = month_len y m then month_len y' m' else min d (month_len y' m'))"

lemma add_months_eq:
  assumes t: "IS_VALID_TIMESTAMP t" and d: "date_of t = (y, m, d)"
    and n: "- (2 ^ 31) \<le> n" "n < 2 ^ 31" and k: "12 \<le> month_no y m + n" "month_no y m + n < 12 * 294277"
    and ym: "y' = (month_no y m + n) div 12" "m' = (month_no y m + n) mod 12 + 1"
  shows "add_months env t n =
      Inr (stamp (date2j_core y' m' (add_months_day y m d y' m') - POSTGRES_EPOCH_JDATE) (time_of t))"
    and "proper_date y' m' (add_months_day y m d y' m')" "1 \<le> y'" "y' < 294277"
proof -
  note v = valid_date_of [OF t d]
  define k where "k = month_no y m + n"
  have kb: "12 \<le> k" "k < 12 * 294277" using assms by (simp_all add: k_def)
  have e: "y * 12 + m - 1 + n = k" by (simp add: k_def month_no_def)
  have w: "wrap32 n = n" "wrap32 k = k" using n kb by (auto intro!: wrap32_id)
  have m: "1 \<le> m" "m \<le> 12" "1 \<le> d" "d \<le> month_len y m" using v(5) by (simp_all add: valid_date_def)
  show y1: "1 \<le> y'" "y' < 294277" using kb by (simp_all add: ym k_def [symmetric])
  have m1: "1 \<le> m'" "m' \<le> 12" by (simp_all add: ym)
  have q: "k sdiv 12 = y'" "k smod 12 + 1 = m'" using kb by (simp_all add: sdiv_nonneg smod_nonneg ym k_def [symmetric])
  show p: "proper_date y' m' (add_months_day y m d y' m')"
    using y1 m1 m month_len_bounds [OF m1, of y'] by (intro proper_date_month_day) (auto simp: add_months_day_def)
  have "date2j env y' m' (add_months_day y m d y' m') = Inr (date2j_core y' m' (add_months_day y m d y' m'))"
    using y1 by (intro date2j_of_date [OF p]) simp
  moreover have "(if d = month_len y m \<or> d > month_len y' m' then month_len y' m' else d) = add_months_day y m d y' m'"
    by (simp add: add_months_day_def)
  moreover have "- 4713 < y'" using y1 by simp
  ultimately show "add_months env t n =
      Inr (stamp (date2j_core y' m' (add_months_day y m d y' m') - POSTGRES_EPOCH_JDATE) (time_of t))"
    using d w q y1 e wrap_date2j [OF p _ y1(2), of "time_of t"]
    by (simp add: add_months_def split_day date_of_def day_no_def Let_def
        days_of_month_len [OF m(1,2)] days_of_month_len [OF m1])
qed

text \<open>
  C19 (ADD\_MONTHS): whenever the target month lies in the years 1 to 294276, ADD\_MONTHS moves
  the date by exactly \<open>n\<close> months, keeps the time of day, maps the last day of a month to the
  last day of the target month and any other day to the same day or, where the target
  month is too short, to its last day.
\<close>

theorem add_months_correct:
  assumes "IS_VALID_TIMESTAMP t" "date_of t = (y, m, d)" "- (2 ^ 31) \<le> n" "n < 2 ^ 31"
    and "12 \<le> month_no y m + n" "month_no y m + n < 12 * 294277"
  shows "\<exists>r y' m' d'. add_months env t n = Inr r \<and> date_of r = (y', m', d') \<and> time_of r = time_of t
    \<and> valid_date y' m' d' \<and> month_no y' m' = month_no y m + n
    \<and> d' = (if d = month_len y m then month_len y' m' else min d (month_len y' m'))"
proof -
  define k where "k = month_no y m + n"
  define y' m' d' where "y' = k div 12" and "m' = k mod 12 + 1" and "d' = add_months_day y m d y' m'"
  note a = add_months_eq [OF assms y'_def [unfolded k_def] m'_def [unfolded k_def], folded d'_def]
  have "date_of (stamp (date2j_core y' m' d' - POSTGRES_EPOCH_JDATE) (time_of t)) = (y', m', d')"
    using a(3) by (intro date_of_date2j a(2,4)) auto
  moreover have "month_no y' m' = month_no y m + n"
    unfolding k_def [symmetric] by (simp add: month_no_def y'_def m'_def)
  moreover have "valid_date y' m' d'" using a(2) by (simp add: proper_date_def)
  ultimately show ?thesis
    using a(1) unfolding d'_def add_months_day_def by (intro exI conjI) (assumption | simp)+
qed

theorem add_months_correct_witness:
  "\<exists>r. add_months utc_session 760011630000000 13 = Inr r \<and> date_of r = (2025, 2, 28)"
proof -
  have "date_of 760011630000000 = (2024, 1, 31)" "IS_VALID_TIMESTAMP 760011630000000" "month_len 2024 1 = 31" by code_simp+
  with add_months_correct [of 760011630000000 2024 1 31 13 utc_session] obtain r y' m' d'
    where r: "add_months utc_session 760011630000000 13 = Inr r" "date_of r = (y', m', d')" "valid_date y' m' d'"
      "month_no y' m' = 24301" "d' = month_len y' m'"
    by (auto simp: month_no_def)
  have "1 \<le> m'" "m' \<le> 12" "y' * 12 + m' = 24302" using r(3,4) by (auto simp: valid_date_def month_no_def)
  then have "y' = 2025 \<and> m' = 2" by presburger
  moreover have "month_len 2025 2 = 28" by code_simp
  ultimately show ?thesis using r by auto
qed

text \<open>
  C28 (ADD\_MONTHS before the year 1): when the target month lies before the year 0, the remainder of C's
  \<open>div\<close> is not positive and no month is right. With a remainder of -1 ADD\_MONTHS reads before the start
  of \<open>month_days\<close>, with a smaller one it raises "date out of range". With the remainder 0 the target is a
  January, and for targets from 4714 BC on the result is a January one year late; the exception is the target January of
  2 BC in Oracle mode, whose result would be in the year 0 and is read as the current year.
\<close>

theorem add_months_before_christ:
  assumes t: "IS_VALID_TIMESTAMP t" and d: "date_of t = (y, m, d)"
    and n: "- (2 ^ 31) \<le> n" "n < 2 ^ 31" and k: "month_no y m + n < 0" "- (2 ^ 31) \<le> month_no y m + n"
  shows "((month_no y m + n) smod 12 = -1 \<longrightarrow> add_months env t n = Inl OutOfBounds)
    \<and> ((month_no y m + n) smod 12 < -1 \<longrightarrow> add_months env t n = Inl DateOutOfRange)
    \<and> ((month_no y m + n) smod 12 = 0 \<and> - 56556 \<le> month_no y m + n \<and> (ora_mode env \<longrightarrow> month_no y m + n \<noteq> - 12) \<longrightarrow>
        (\<exists>r d'. add_months env t n = Inr r \<and> date_of r = ((month_no y m + n) div 12 + 1, 1, d')))"
proof -
  note v = valid_date_of [OF t d]
  have e: "y * 12 + m - 1 + n = month_no y m + n" by (simp add: month_no_def)
  have w: "wrap32 n = n" "wrap32 (month_no y m + n) = month_no y m + n" using n k by (auto intro!: wrap32_id)
  have m: "1 \<le> m" "m \<le> 12" "1 \<le> d" using v(5) by (simp_all add: valid_date_def)
  note unf = add_months_def split_day date_of_def day_no_def Let_def days_of_month_len [OF m(1,2)] e
  have "add_months env t n = Inl OutOfBounds" if "(month_no y m + n) smod 12 = -1"
    using that d w by (simp add: unf) (simp add: days_of_month_def)
  moreover have "add_months env t n = Inl DateOutOfRange" if "(month_no y m + n) smod 12 < -1"
    using that d w by (simp add: unf) (simp add: days_of_month_def)
  moreover have "\<exists>r d'. add_months env t n = Inr r \<and> date_of r = ((month_no y m + n) div 12 + 1, 1, d')"
    if z: "(month_no y m + n) smod 12 = 0" "- 56556 \<le> month_no y m + n" "ora_mode env \<longrightarrow> month_no y m + n \<noteq> - 12"
  proof -
    obtain q where q: "month_no y m + n = 12 * q" using z(1) by (auto simp: smod_eq_0_iff elim: dvdE)
    have qb: "- 4713 \<le> q" "q < 0" "ora_mode env \<longrightarrow> q + 1 \<noteq> 0" using z k(1) q by auto
    define d' where "d' = (if d = month_len y m \<or> d > 31 then 31 else d)"
    have p: "proper_date (q + 1) 1 d'"
      using qb m(3) by (intro proper_date_month_day) (auto simp: d'_def month_len_def)
    have "days_of_month (q + 1) 1 = Inr 31" by (simp add: days_of_month_len month_len_def)
    moreover have s: "(12 * q) smod 12 = 0" by (simp add: smod_eq_0_iff)
    moreover have "(12 * q) sdiv 12 = q" using sdiv_mult_smod_eq [of "12 * q" 12] s by simp
    ultimately have "add_months env t n = Inr (stamp (date2j_core (q + 1) 1 d' - POSTGRES_EPOCH_JDATE) (time_of t))"
      using d w q qb date2j_of_date [OF p qb(3)] wrap_date2j [OF p, of "time_of t"]
      by (simp add: unf d'_def)
    moreover have "date_of (stamp (date2j_core (q + 1) 1 d' - POSTGRES_EPOCH_JDATE) (time_of t)) = (q + 1, 1, d')"
      using qb by (intro date_of_date2j [OF p]) simp_all
    ultimately show ?thesis using q by simp
  qed
  ultimately show ?thesis by blast
qed

theorem add_months_before_christ_witness:
  "add_months utc_session (-63078825600000000) (- 14) = Inl OutOfBounds \<and> add_months utc_session (-63078825600000000) (- 15) = Inl DateOutOfRange
   \<and> (\<exists>r d'. add_months utc_session (-63078825600000000) (- 37) = Inr r \<and> date_of r = (- 1, 1, d'))"
proof -
  have "date_of (-63078825600000000) = (1, 2, 10)" "IS_VALID_TIMESTAMP (-63078825600000000)" by code_simp+
  moreover have "(- 1 :: int) smod 12 = - 1" "(- 2 :: int) smod 12 = - 2" "(- 24 :: int) smod 12 = 0" by code_simp+
  ultimately show ?thesis
    using add_months_before_christ [of "-63078825600000000" 1 2 10 "- 14" utc_session]
      add_months_before_christ [of "-63078825600000000" 1 2 10 "- 15" utc_session]
      add_months_before_christ [of "-63078825600000000" 1 2 10 "- 37" utc_session] by (simp add: month_no_def)
qed

section \<open>MONTHS\_BETWEEN\<close>

text \<open>
  C20 (MONTHS\_BETWEEN): the number of months between a date and the date ADD\_MONTHS gives for it
  is exactly the number that was added, when the date is the last day of its month or ADD\_MONTHS keeps
  the day of the month, as it does up to the 28th. Where it has to cut a later day that is
  not the last of its month, the result differs by the days cut off, as parts of 31. This holds for target months in the
  years 1 to 294276. \<open>rnd\<close> is any rounding that is exact on integers a double can hold.
\<close>

theorem months_between_add_months:
  assumes rnd: "\<And>k. \<bar>k\<bar> \<le> 2 ^ 53 \<Longrightarrow> rnd (of_int k) = of_int k"
    and a: "IS_VALID_TIMESTAMP t" "date_of t = (y, m, d)" "- (2 ^ 31) \<le> n" "n < 2 ^ 31"
      "12 \<le> month_no y m + n" "month_no y m + n < 12 * 294277"
    and r: "add_months env t n = Inr r"
  shows "\<exists>y' m' d'. date_of r = (y', m', d') \<and> (d \<le> 28 \<and> d \<noteq> month_len y m \<longrightarrow> d' = d)
    \<and> months_between rnd r t = Inr (if d = month_len y m \<or> d' = d then of_int n
        else rnd (rnd (of_int n + rnd (of_int (d' - d) / 31))))"
proof -
  define k where "k = month_no y m + n"
  define y' m' d' where "y' = k div 12" and "m' = k mod 12 + 1" and "d' = add_months_day y m d y' m'"
  note e = add_months_eq [OF a y'_def [unfolded k_def] m'_def [unfolded k_def], folded d'_def]
  note v = valid_date_of [OF a(1,2)]
  have m: "1 \<le> m" "m \<le> 12" using v(5) by (simp_all add: valid_date_def)
  have m': "1 \<le> m'" "m' \<le> 12" by (simp_all add: m'_def)
  have rs: "r = stamp (date2j_core y' m' d' - POSTGRES_EPOCH_JDATE) (time_of t)" using e(1) r by simp
  have rd: "date_of r = (y', m', d')" unfolding rs using e(3) by (intro date_of_date2j e(2,4)) auto
  have rt: "time_of r = time_of t" by (simp add: rs)
  have "y' * 12 + (m' - 1) = k" by (simp add: y'_def m'_def)
  then have n: "(y' - y) * 12 + (m' - m) = n" by (simp add: k_def month_no_def algebra_simps)
  have dd: "d = month_len y m \<Longrightarrow> d' = month_len y' m'" by (simp add: d'_def add_months_day_def)
  have "d' = d" if "d \<le> 28" "d \<noteq> month_len y m"
    using that month_len_bounds [OF m', of y'] month_len_bounds [OF m, of y] by (auto simp: d'_def add_months_day_def)
  moreover have r0: "rnd 0 = 0" using rnd [of 0] by simp
  have rn: "rnd (of_int n) = of_int n" using a(3,4) by (intro rnd) simp
  have "months_between rnd r t = Inr (if d = month_len y m \<or> d' = d then of_int n
      else rnd (rnd (of_int n + rnd (of_int (d' - d) / 31))))"
    using rd a(2) dd n r0 rn rt
    by (auto simp: months_between_def split_day date_of_def day_no_def Let_def
        days_of_month_len [OF m] days_of_month_len [OF m'] split: if_splits)
  ultimately show ?thesis using rd by blast
qed

theorem months_between_add_months_witness:
  "\<exists>r. add_months utc_session 760011630000000 13 = Inr r \<and> months_between id r 760011630000000 = Inr 13"
proof -
  have "date_of 760011630000000 = (2024, 1, 31)" "IS_VALID_TIMESTAMP 760011630000000" "month_len 2024 1 = 31" by code_simp+
  moreover obtain r where "add_months utc_session 760011630000000 13 = Inr r"
    using add_months_eq(1) [OF calculation(2,1), of 13 _ _ utc_session] by (simp add: month_no_def)
  ultimately show ?thesis
    using months_between_add_months [of id 760011630000000 2024 1 31 13 utc_session r] by (auto simp: month_no_def)
qed

section \<open>NEXT\_DAY\<close>

lemma next_day_from_eq:
  assumes "0 \<le> dow" "dow < 7" "PG_INT64_MIN \<le> t" "t \<le> PG_INT64_MAX"
  shows "\<exists>k. 1 \<le> k \<and> k \<le> 7 \<and> next_day_from t dow = wrap64 (stamp (day_no t + k) (time_of t)) \<and> J2DAY (day_no t + k) = dow"
proof -
  define j where "j = day_no t + POSTGRES_EPOCH_JDATE"
  define off where "off = dow - j2day j"
  define k where "k = (if off \<le> 0 then off + 7 else off)"
  have "- 106751992 \<le> day_no t" "day_no t \<le> 106751991"
    using assms(3,4) by (simp_all add: day_no_def PG_INT64_MIN_def PG_INT64_MAX_def USECS_PER_DAY_def)
  then have w: "wrap32 j = j" by (intro wrap32_id) (simp_all add: j_def POSTGRES_EPOCH_JDATE_def)
  have o: "- 6 \<le> off" "off \<le> 6" using assms j2day_bounds [of j] by (auto simp: off_def)
  have kb: "1 \<le> k" "k \<le> 7" using o by (auto simp: k_def)
  have "(j + 1 + off) mod 7 = dow"
  proof -
    have "(j + 1 + off) mod 7 = ((j + 1) mod 7 + off) mod 7" by (simp add: mod_add_left_eq)
    then show ?thesis using assms by (simp add: off_def j2day_mod)
  qed
  moreover have "(j + 1 + off + 7) mod 7 = (j + 1 + off) mod 7" by (rule mod_add_self2)
  ultimately have "(j + 1 + k) mod 7 = dow" by (simp add: k_def add.assoc)
  then have "J2DAY (day_no t + k) = dow"
    by (simp add: J2DAY_def j2day_mod j_def algebra_simps)
  moreover have "next_day_from t dow = wrap64 (stamp (day_no t + k) (time_of t))"
    unfolding next_day_from_def split_day Let_def prod.case j_def [symmetric] w off_def [symmetric]
    by (simp add: stamp_def k_def j_def algebra_simps)
  ultimately show ?thesis using kb by blast
qed

lemma next_weekday:
  assumes "1 \<le> k" "k \<le> 7" "J2DAY (a + k) = w" "a < i" "i < a + k"
  shows "J2DAY i \<noteq> w"
proof
  assume "J2DAY i = w"
  then have "(a + k + POSTGRES_EPOCH_JDATE + 1) mod 7 = (i + POSTGRES_EPOCH_JDATE + 1) mod 7"
    using assms(3) by (simp add: J2DAY_def j2day_mod)
  then have "7 dvd (a + k) - i" by (simp add: mod_eq_dvd_iff)
  moreover have "0 < (a + k) - i" "(a + k) - i < 7" using assms by auto
  ultimately show False using zdvd_not_zless by blast
qed

text \<open>
  C22 (NEXT\_DAY by number): on a valid timestamp and for an index from 1 (Sunday) to 7 the result is
  the first later day that falls on that weekday, at the same time of day: it is one to seven days
  later and no day in between falls on the weekday. Any other index is an error. The function does not
  treat the special values apart: for infinity the product overflows and the result is negative, a time
  long before the year 2000.
\<close>

theorem next_day_by_index_correct:
  "(1 \<le> idx \<and> idx \<le> 7 \<and> IS_VALID_TIMESTAMP t \<longrightarrow>
     (\<exists>r. next_day_by_index t idx = Inr r \<and> day_no t < day_no r \<and> day_no r \<le> day_no t + 7 \<and> time_of r = time_of t
       \<and> J2DAY (day_no r) = idx - 1 \<and> \<not> (\<exists>k. day_no t < k \<and> k < day_no r \<and> J2DAY k = idx - 1)))
   \<and> (\<not> (1 \<le> idx \<and> idx \<le> 7) \<longrightarrow> next_day_by_index t idx = Inl BadFormat)
   \<and> (1 \<le> idx \<and> idx \<le> 7 \<longrightarrow> (\<exists>r. next_day_by_index PG_INT64_MAX idx = Inr r \<and> r < 0))"
proof (intro conjI impI)
  assume a: "1 \<le> idx \<and> idx \<le> 7 \<and> IS_VALID_TIMESTAMP t"
  then have b: "PG_INT64_MIN \<le> t" "t \<le> PG_INT64_MAX"
    by (simp_all add: IS_VALID_TIMESTAMP_def MIN_TIMESTAMP_def END_TIMESTAMP_def PG_INT64_MIN_def PG_INT64_MAX_def)
  have r: "- 2451545 \<le> day_no t" "day_no t \<le> 106751983"
    using a timestamp_date_range [of t] by (auto simp: day_no_def POSTGRES_EPOCH_JDATE_def)
  obtain k where k: "1 \<le> k" "k \<le> 7" "next_day_from t (idx - 1) = wrap64 (stamp (day_no t + k) (time_of t))"
    "J2DAY (day_no t + k) = idx - 1"
    using next_day_from_eq [OF _ _ b(1,2), of "idx - 1"] a by auto
  have "wrap64 (stamp (day_no t + k) (time_of t)) = stamp (day_no t + k) (time_of t)"
    using wrap_stamp [of "day_no t + k" "time_of t"] r k by (simp add: stamp_def)
  with k a next_weekday [OF k(1,2,4)]
  show "\<exists>r. next_day_by_index t idx = Inr r \<and> day_no t < day_no r \<and> day_no r \<le> day_no t + 7 \<and> time_of r = time_of t
       \<and> J2DAY (day_no r) = idx - 1 \<and> \<not> (\<exists>k. day_no t < k \<and> k < day_no r \<and> J2DAY k = idx - 1)"
    by (auto simp: next_day_by_index_def)
next
  assume a: "1 \<le> idx \<and> idx \<le> 7"
  obtain k where k: "1 \<le> k" "k \<le> 7"
    "next_day_from PG_INT64_MAX (idx - 1) = wrap64 (stamp (day_no PG_INT64_MAX + k) (time_of PG_INT64_MAX))"
    using next_day_from_eq [of "idx - 1" PG_INT64_MAX] a by (auto simp: PG_INT64_MIN_def PG_INT64_MAX_def)
  have s: "stamp (day_no PG_INT64_MAX + k) (time_of PG_INT64_MAX) = PG_INT64_MAX + k * USECS_PER_DAY"
    by (subst (3) stamp_parts [symmetric]) (simp add: stamp_def algebra_simps)
  have "wrap64 (PG_INT64_MAX + k * USECS_PER_DAY) = PG_INT64_MAX + k * USECS_PER_DAY - 2 ^ 64"
    using k(1,2) by (intro wrap64_above) (simp_all add: PG_INT64_MAX_def USECS_PER_DAY_def)
  then show "\<exists>r. next_day_by_index PG_INT64_MAX idx = Inr r \<and> r < 0"
    using a k s by (simp add: next_day_by_index_def PG_INT64_MAX_def USECS_PER_DAY_def)
qed (auto simp: next_day_by_index_def)

theorem next_day_by_index_correct_witness:
  "\<exists>r. next_day_by_index 760011630000000 6 = Inr r \<and> J2DAY (day_no r) = 5 \<and> day_no r \<le> day_no 760011630000000 + 7"
proof -
  have "IS_VALID_TIMESTAMP 760011630000000" by code_simp
  with next_day_by_index_correct [of 6 760011630000000] show ?thesis by auto
qed

text \<open>Comparison of prefixes without regard to case.\<close>

lemma pg_strncasecmp_equal:
  "n \<le> length s1 \<Longrightarrow> n \<le> length s2 \<Longrightarrow> map (fold_lower env) (take n s1) = map (fold_lower env) (take n s2)
    \<Longrightarrow> pg_strncasecmp env s1 s2 n = 0"
proof (induction n arbitrary: s1 s2)
  case (Suc n)
  then obtain c1 t1 c2 t2 where "s1 = c1 # t1" "s2 = c2 # t2" by (metis Suc_le_length_iff)
  with Suc show ?case by (auto simp: Let_def)
qed simp

lemma pg_strncasecmp_differs:
  "n \<le> length s1 \<Longrightarrow> n \<le> length s2 \<Longrightarrow> (\<And>c. c \<in> set s2 \<Longrightarrow> c \<noteq> CHR 0x00 \<and> fold_lower env c \<noteq> CHR 0x00)
    \<Longrightarrow> map (fold_lower env) (take n s1) \<noteq> map (fold_lower env) (take n s2) \<Longrightarrow> pg_strncasecmp env s1 s2 n \<noteq> 0"
proof (induction n arbitrary: s1 s2)
  case (Suc n)
  from Suc.prems(1,2) obtain c1 t1 c2 t2 where s: "s1 = c1 # t1" "s2 = c2 # t2" by (metis Suc_le_length_iff)
  have nz: "c2 \<noteq> CHR 0x00" "fold_lower env c2 \<noteq> CHR 0x00" using Suc.prems(3) s by auto
  show ?case
  proof (cases "fold_lower env c1 = fold_lower env c2")
    case True
    then have "pg_strncasecmp env t1 t2 n \<noteq> 0" using Suc s by (intro Suc.IH) auto
    with True nz s show ?thesis by (auto simp: Let_def)
  next
    case False
    then have "c1 \<noteq> c2" by auto
    with False s show ?thesis by (simp add: Let_def)
  qed
qed simp

lemma find_index_from_first:
  "j < length xs \<Longrightarrow> P (xs ! j) \<Longrightarrow> (\<And>k. k < j \<Longrightarrow> \<not> P (xs ! k)) \<Longrightarrow> find_index_from i P xs = Some (i + j)"
proof (induction xs arbitrary: i j)
  case (Cons x xs)
  show ?case
  proof (cases j)
    case 0
    with Cons.prems show ?thesis by simp
  next
    case (Suc k)
    have "\<not> P (xs ! l)" if "l < k" for l using Cons.prems(3) [of "Suc l"] Suc that by simp
    then have "find_index_from (Suc i) P xs = Some (Suc i + k)"
      using Cons.prems Suc by (intro Cons.IH) auto
    with Cons.prems(3) [of 0] Suc show ?thesis by simp
  qed
qed simp

lemma ora_days_folded:
  "map (\<lambda>d. map (fold_lower env) (take 3 d)) ora_days = [''sun'', ''mon'', ''tue'', ''wed'', ''thu'', ''fri'', ''sat'']"
  by (simp add: ora_days_def fold_lower_def char_of_def bit_0)

lemma ora_days_length [simp]: "length ora_days = 7"
  by (simp add: ora_days_def)

lemma ora_days_chars:
  "\<forall>d \<in> set ora_days. 3 \<le> length d \<and> (\<forall>c \<in> set d. c \<noteq> CHR 0x00 \<and> fold_lower env c \<noteq> CHR 0x00)"
  by (simp add: ora_days_def fold_lower_def char_of_def bit_0)

lemma ora_days_facts:
  assumes "i < 7"
  shows "3 \<le> length (ora_days ! i)" "c \<in> set (ora_days ! i) \<Longrightarrow> c \<noteq> CHR 0x00 \<and> fold_lower env c \<noteq> CHR 0x00"
    and "k < i \<Longrightarrow> map (fold_lower env) (take 3 (ora_days ! i)) \<noteq> map (fold_lower env) (take 3 (ora_days ! k))"
proof -
  have "ora_days ! i \<in> set ora_days" using assms by simp
  then show "3 \<le> length (ora_days ! i)" "c \<in> set (ora_days ! i) \<Longrightarrow> c \<noteq> CHR 0x00 \<and> fold_lower env c \<noteq> CHR 0x00"
    using ora_days_chars [of env] by blast+
  have d: "distinct (map (\<lambda>d. map (fold_lower env) (take 3 d)) ora_days)" unfolding ora_days_folded by simp
  show "map (fold_lower env) (take 3 (ora_days ! i)) \<noteq> map (fold_lower env) (take 3 (ora_days ! k))" if "k < i"
    using nth_eq_iff_index_eq [OF d, of i k] assms that by simp
qed

text \<open>
  C23 (NEXT\_DAY by name): a weekday name, or any text whose first three letters are those of the
  name in any mixture of cases, selects the same day as the weekday's number.
\<close>

theorem next_day_by_name:
  assumes i: "i < 7" and s: "3 \<le> length str"
    "map (fold_lower env) (take 3 str) = map (fold_lower env) (take 3 (ora_days ! i))"
  shows "next_day env to_utf8 t str = next_day_by_index t (int i + 1)"
proof -
  let ?P = "\<lambda>a. pg_strncasecmp env str a 3 = 0"
  have "find_index_from 0 ?P ora_days = Some (0 + i)"
  proof (rule find_index_from_first)
    show "?P (ora_days ! i)" by (rule pg_strncasecmp_equal [OF s(1) ora_days_facts(1) [OF i] s(2)])
    show "\<not> ?P (ora_days ! k)" if k: "k < i" for k
    proof (rule pg_strncasecmp_differs [OF s(1)])
      have "k < 7" using i k by simp
      then show "3 \<le> length (ora_days ! k)" "c \<in> set (ora_days ! k) \<Longrightarrow> c \<noteq> CHR 0x00 \<and> fold_lower env c \<noteq> CHR 0x00" for c
        using ora_days_facts(1,2) by blast+
      show "map (fold_lower env) (take 3 str) \<noteq> map (fold_lower env) (take 3 (ora_days ! k))"
        unfolding s(2) by (rule ora_days_facts(3) [OF i k])
    qed
  qed (use i in simp)
  moreover have "str \<noteq> []" using s(1) by auto
  ultimately have "ora_seq_prefix_search env str ora_days 3 = Some i" by (simp add: ora_seq_prefix_search_def)
  with i s(1) show ?thesis by (simp add: next_day_def next_day_by_index_def)
qed

theorem next_day_by_name_witness:
  "next_day utc_session id 760011630000000 ''FRIday'' = next_day_by_index 760011630000000 6"
proof -
  have "map (fold_lower utc_session) (take 3 ''FRIday'') = map (fold_lower utc_session) (take 3 (ora_days ! 5))" by code_simp
  with next_day_by_name [of 5 "''FRIday''" utc_session id 760011630000000] show ?thesis by simp
qed

section \<open>NEW\_TIME\<close>

lemma tz_num_bounds: "- 1 \<le> ora_timezone_name_to_num env a \<and> ora_timezone_name_to_num env a \<le> 39600"
  by (simp add: ora_timezone_name_to_num_def split: option.split)

lemma ora_new_time_shift:
  assumes t: "IS_VALID_TIMESTAMP t" "date_of t = (y, m, d)" "ora_mode env \<longrightarrow> y \<noteq> 0"
    and z: "ora_timezone_name_to_num env a \<noteq> -1" "ora_timezone_name_to_num env b \<noteq> -1"
    and r: "r = t + (ora_timezone_name_to_num env a - ora_timezone_name_to_num env b) * USECS_PER_SEC" "IS_VALID_TIMESTAMP r"
  shows "ora_new_time env t a b = Inr r"
proof -
  obtain tm fsec where f: "timestamp2tm env False t = Some (tm, fsec, 0)"
    "date_of t = (tm_year tm, tm_mon tm, tm_mday tm)"
    using timestamp2tm_local [OF t(1), of env] by (auto simp: date_of_def)
  have n: "tm2timestamp env tm fsec None = Inr (Some t)"
    by (rule timestamp_roundtrip_core [OF t(1) f(1)]) (use f(2) t in auto)
  have "tm2timestamp env tm fsec (Some z) = Inr (if IS_VALID_TIMESTAMP (t + z * USECS_PER_SEC) then Some (t + z * USECS_PER_SEC) else None)" for z
    using n by (auto simp: tm2timestamp_def dt2local_def Let_def bindR_eq_Inr split: if_splits)
  with f z r show ?thesis by (simp add: ora_new_time_def)
qed

text \<open>
  C24 (NEW\_TIME): converting a date from one named zone to another shifts it by the difference of the
  zones' offsets, and converting the result back gives the date again, as long as both
  are valid timestamps outside the year 0 of Oracle mode.
\<close>

theorem new_time_roundtrip:
  assumes "IS_VALID_TIMESTAMP t" "date_of t = (y, m, d)" "ora_mode env \<longrightarrow> y \<noteq> 0"
    and "ora_timezone_name_to_num env a \<noteq> -1" "ora_timezone_name_to_num env b \<noteq> -1"
    and "r = t + (ora_timezone_name_to_num env a - ora_timezone_name_to_num env b) * USECS_PER_SEC"
    and "IS_VALID_TIMESTAMP r" "date_of r = (y', m', d')" "ora_mode env \<longrightarrow> y' \<noteq> 0"
  shows "ora_new_time env t a b = Inr r \<and> ora_new_time env r b a = Inr t"
proof
  show "ora_new_time env t a b = Inr r" by (rule ora_new_time_shift [OF assms(1-7)])
  show "ora_new_time env r b a = Inr t"
    by (rule ora_new_time_shift [OF assms(7-9,5,4)]) (use assms in \<open>simp_all add: algebra_simps\<close>)
qed

theorem new_time_roundtrip_witness:
  "ora_new_time utc_session 760011630000000 ''EST'' ''gmt'' = Inr 760029630000000 \<and> ora_new_time utc_session 760029630000000 ''gmt'' ''EST'' = Inr 760011630000000"
proof -
  have "date_of 760011630000000 = (2024, 1, 31)" "IS_VALID_TIMESTAMP 760011630000000" "date_of 760029630000000 = (2024, 1, 31)" "IS_VALID_TIMESTAMP 760029630000000"
    "ora_timezone_name_to_num utc_session ''EST'' = 18000" "ora_timezone_name_to_num utc_session ''gmt'' = 0"
    by code_simp+
  with new_time_roundtrip [of 760011630000000 2024 1 31 utc_session "''EST''" "''gmt''" 760029630000000 2024 1 31] show ?thesis
    by (simp add: USECS_PER_SEC_def)
qed

end
