(* ===== verification/Ora_Trunc.thy ===== *)
theory Ora_Trunc
  imports Ora_Datetime
begin

text \<open>
  Correctness of TRUNC and ROUND on DATE values (\<open>ora_trunc\<close>, \<open>ora_round\<close> and the helpers
  \<open>iso_year\<close>, \<open>ora_date_trunc\<close>, \<open>tm_trunc\<close>, \<open>tm_round\<close> of \<open>Ora_Datetime\<close>) against
  a direct description of the unit a date lies in.
\<close>

section \<open>The ISO year\<close>

text \<open>Day number of a date, counted from 2000-01-01, and the ISO rule: a year starts on the Monday of the week of January 4.\<close>

definition day_of :: "int \<Rightarrow> int \<Rightarrow> int \<Rightarrow> int" where
  "day_of y m d = date2j_core y m d - POSTGRES_EPOCH_JDATE"

definition iso_start :: "int \<Rightarrow> int" where
  "iso_start y = day_of y 1 4 - (J2DAY (day_of y 1 4) + 6) mod 7"

lemma DATE2J_day_of:
  "proper_date y m d \<Longrightarrow> ora_mode env \<longrightarrow> y \<noteq> 0 \<Longrightarrow> DATE2J env y m d = Inr (day_of y m d)"
  by (simp add: DATE2J_def date2j_of_date day_of_def)

lemma J2DAY_shift: "J2DAY (a + k) = (J2DAY a + k) mod 7"
  unfolding J2DAY_def j2day_mod mod_add_left_eq by (simp add: algebra_simps)

lemma J2DAY_bounds: "0 \<le> J2DAY a" "J2DAY a < 7"
  using j2day_bounds by (auto simp: J2DAY_def)

lemma weekday_cases: "w \<in> {0, 1, 2, 3, 4, 5, 6}" if "0 \<le> w" "w < 7" for w :: int
  using that by auto

lemma to_monday_iso:
  "to_monday (day_of y 1 1) = iso_start y"
  "J2DAY (iso_start y) = 1"
  "day_of y 1 1 - 3 \<le> iso_start y" "iso_start y \<le> day_of y 1 1 + 3"
proof -
  define a where "a = day_of y 1 1"
  have f: "day_of y 1 4 = a + 3" using date2j_core_day [of y 1 4] by (simp add: a_def day_of_def)
  have i: "iso_start y = a + 3 - ((J2DAY a + 3) mod 7 + 6) mod 7" by (simp add: iso_start_def f J2DAY_shift)
  have w: "J2DAY a \<in> {0, 1, 2, 3, 4, 5, 6}" using J2DAY_bounds by (rule weekday_cases)
  have "to_monday a = iso_start y \<and> J2DAY (iso_start y) = 1 \<and> a - 3 \<le> iso_start y \<and> iso_start y \<le> a + 3"
    using w
    by (elim insertE) (simp_all add: i to_monday_def diff_conv_add_uminus J2DAY_shift add.assoc del: add_uminus_conv_diff)
  then show "to_monday (day_of y 1 1) = iso_start y" "J2DAY (iso_start y) = 1"
    "day_of y 1 1 - 3 \<le> iso_start y" "iso_start y \<le> day_of y 1 1 + 3" by (simp_all add: a_def)
qed

lemma new_year_step:
  assumes "- 4799 \<le> y"
  shows "day_of (y + 1) 1 1 = day_of y 1 1 + 365 + (if isleap y then 1 else 0)"
  using assms date2j_core_year_days [of "y + 1" 1 1] date2j_core_year_days [of y 1 1] year_days_leap [of y]
  by (simp add: day_of_def add.commute)

lemma same_weekday_dvd: "J2DAY a = J2DAY b \<longleftrightarrow> 7 dvd b - a"
  by (simp add: J2DAY_def j2day_mod mod_eq_dvd_iff algebra_simps) (metis dvd_diff_commute)

lemma iso_year_length:
  assumes "- 4799 \<le> y"
  shows "iso_start (y + 1) = iso_start y + 364 \<or> iso_start (y + 1) = iso_start y + 371"
proof -
  have "J2DAY (iso_start y) = J2DAY (iso_start (y + 1))" by (simp only: to_monday_iso(2))
  then obtain k where k: "iso_start (y + 1) - iso_start y = 7 * k" by (auto simp: same_weekday_dvd elim: dvdE)
  moreover have "359 \<le> iso_start (y + 1) - iso_start y" "iso_start (y + 1) - iso_start y \<le> 372"
    using new_year_step [OF assms] to_monday_iso(3,4) [of y] to_monday_iso(3,4) [of "y + 1"] by (auto split: if_splits)
  ultimately have "k = 52 \<or> k = 53" by auto
  with k show ?thesis by auto
qed

lemma day_of_year_bounds:
  assumes "proper_date y m d"
  shows "day_of y 1 1 \<le> day_of y m d" "day_of y m d < day_of (y + 1) 1 1"
  using date2j_core_year_bounds [OF assms] by (simp_all add: day_of_def)

lemma iso_year_eq:
  assumes p: "proper_date y m d" and y: "2 \<le> y"
  shows "iso_year env y m d = Inr (if day_of y m d < iso_start y then iso_start (y - 1)
           else if iso_start (y + 1) \<le> day_of y m d then iso_start (y + 1) else iso_start y)"
    and "iso_start (y - 1) \<le> day_of y m d" "day_of y m d < iso_start (y + 2)"
proof -
  let ?d = "day_of y m d"
  have q: "proper_date z 1 1" if "1 \<le> z" for z
    using that by (simp add: proper_date_def valid_date_def month_len_def)
  have J: "DATE2J env z 1 1 = Inr (day_of z 1 1)" if "1 \<le> z" for z
    using that by (intro DATE2J_day_of q) auto
  have D: "DATE2J env y m d = Inr ?d" using y by (intro DATE2J_day_of p) auto
  note b = day_of_year_bounds [OF p]
  have s: "iso_start y + 364 \<le> iso_start (y + 1)" "iso_start (y - 1) + 364 \<le> iso_start y"
    "iso_start (y + 1) + 364 \<le> iso_start (y + 2)"
    using iso_year_length [of y] iso_year_length [of "y - 1"] iso_year_length [of "y + 1"] y
    by (auto simp: add.commute)
  show lo: "iso_start (y - 1) \<le> ?d" and hi: "?d < iso_start (y + 2)"
    using b s to_monday_iso(3,4) [of y] to_monday_iso(3,4) [of "y + 1"] by auto
  have Jy: "DATE2J env y 1 1 = Inr (day_of y 1 1)" "DATE2J env (y - 1) 1 1 = Inr (day_of (y - 1) 1 1)"
    "DATE2J env (y + 1) 1 1 = Inr (day_of (y + 1) 1 1)" using y by (auto intro!: J)
  show "iso_year env y m d = Inr (if ?d < iso_start y then iso_start (y - 1)
           else if iso_start (y + 1) \<le> ?d then iso_start (y + 1) else iso_start y)"
  proof (cases "?d < iso_start y")
    case True
    then show ?thesis using s
      by (simp add: iso_year_def Jy D to_monday_iso Let_def)
  next
    case False
    have "(?d - iso_start y) sdiv 7 + 1 > 52" if "iso_start (y + 1) \<le> ?d"
      using that s by (simp add: sdiv_nonneg)
    with False s show ?thesis
      by (simp add: iso_year_def Jy D to_monday_iso Let_def)
  qed
qed

text \<open>
  \<open>iso_year\<close>: for every valid date from the year 2 on, the function returns the first day of
  the ISO year the date belongs to: the Monday of the week of January 4 of some year,
  such that the date lies before the start of the next ISO year.
\<close>

theorem iso_year_correct:
  assumes "proper_date y m d" "2 \<le> y"
  shows "\<exists>Y. iso_year env y m d = Inr (iso_start Y) \<and> \<bar>Y - y\<bar> \<le> 1
    \<and> iso_start Y \<le> day_of y m d \<and> day_of y m d < iso_start (Y + 1)"
proof -
  let ?d = "day_of y m d"
  define Y where "Y = (if ?d < iso_start y then y - 1 else if iso_start (y + 1) \<le> ?d then y + 1 else y)"
  have "iso_year env y m d = Inr (iso_start Y)"
    using iso_year_eq(1) [OF assms, of env] 
    by (cases "?d < iso_start y"; cases "iso_start (y + 1) \<le> ?d") (simp_all add: Y_def)
  moreover have "\<bar>Y - y\<bar> \<le> 1" by (simp add: Y_def)
  moreover have "iso_start Y \<le> ?d" "?d < iso_start (Y + 1)"
    using iso_year_eq(2,3) [OF assms] by (auto simp: Y_def add.commute)
  ultimately show ?thesis by blast
qed

theorem iso_year_correct_witness:
  "\<exists>Y. iso_year utc_session 2024 12 31 = Inr (iso_start Y) \<and> day_of 2024 12 31 < iso_start (Y + 1)"
proof -
  have "proper_date 2024 12 31" by code_simp
  with iso_year_correct [of 2024 12 31 utc_session] show ?thesis by auto
qed

section \<open>TRUNC\<close>

text \<open>The first day of the unit a date lies in, and the time of day rounded down.\<close>

definition trunc_day :: "fmt_class \<Rightarrow> int \<Rightarrow> int \<Rightarrow> int \<Rightarrow> int" where
  "trunc_day f y m d =
     (let day = day_of y m d in case f of
        fmt_YYYY \<Rightarrow> day_of y 1 1
      | fmt_IYYY \<Rightarrow> (if day < iso_start y then iso_start (y - 1)
                    else if iso_start (y + 1) \<le> day then iso_start (y + 1) else iso_start y)
      | fmt_Q \<Rightarrow> day_of y ((m - 1) div 3 * 3 + 1) 1
      | fmt_MON \<Rightarrow> day_of y m 1
      | fmt_WW \<Rightarrow> day - (day - day_of y 1 1) mod 7
      | fmt_W \<Rightarrow> day - (d - 1) mod 7
      | fmt_IW \<Rightarrow> day - (J2DAY day + 6) mod 7
      | fmt_DAY \<Rightarrow> day - J2DAY day
      | _ \<Rightarrow> day)"

definition trunc_time :: "fmt_class \<Rightarrow> int \<Rightarrow> int" where
  "trunc_time f time =
     (case f of fmt_HH \<Rightarrow> time div USECS_PER_HOUR * USECS_PER_HOUR
      | fmt_MI \<Rightarrow> time div USECS_PER_MINUTE * USECS_PER_MINUTE | _ \<Rightarrow> 0)"

lemma in_day_0 [simp]: "in_day 0"
  by (simp add: in_day_def USECS_PER_DAY_def)

lemma j2date_day_of:
  assumes "proper_date y m d" "1 \<le> y" "y < 294277"
  shows "j2date (day_of y m d + POSTGRES_EPOCH_JDATE) = (y, m, d)"
  using date_of_date2j [OF assms(1) _ assms(3), of 0] assms(2)
  by (simp add: date_of_stamp in_day_def USECS_PER_DAY_def day_of_def)

lemma day_of_less:
  assumes "proper_date y m d" "proper_date y' m' d'"
  shows "day_of y m d < day_of y' m' d' \<longleftrightarrow> y < y' \<or> y = y' \<and> (m < m' \<or> m = m' \<and> d < d')"
  using jday.to_day_mono [OF assms] by (simp add: day_of_def)

lemma proper_jan1 [simp]: "proper_date y 1 1 \<longleftrightarrow> - 4799 \<le> y"
  by (simp add: proper_date_def valid_date_def month_len_def)

lemma day_range:
  assumes "day_of 1 1 1 \<le> r" "r < day_of 294277 1 1"
  obtains y m d where "j2date (r + POSTGRES_EPOCH_JDATE) = (y, m, d)" "proper_date y m d" "day_of y m d = r"
    "1 \<le> y" "y < 294277"
proof -
  have v: "day_of 1 1 1 = - 730119" "day_of 294277 1 1 = 106751983" by code_simp+
  have j: "0 \<le> r + POSTGRES_EPOCH_JDATE \<and> r + POSTGRES_EPOCH_JDATE \<le> INT_MAX"
    using assms unfolding v by (simp add: POSTGRES_EPOCH_JDATE_def INT_MAX_def)
  obtain y m d where e: "j2date (r + POSTGRES_EPOCH_JDATE) = (y, m, d)" by (metis prod_cases3)
  have p: "proper_date y m d" and r: "day_of y m d = r"
    using jday.of_day_valid [OF j e] jday.to_of_day [OF j e] by (simp_all add: day_of_def)
  moreover have "1 \<le> y" "y < 294277"
    using day_of_less [OF p, of 1 1 1] day_of_less [OF p, of 294277 1 1] assms r p
      month_len_bounds [of 1 1] month_len_bounds [of 1 294277]
    by (auto simp: proper_date_def valid_date_def)
  ultimately show thesis using that e by blast
qed

lemma valid_stamp:
  assumes "day_of 1 1 1 \<le> r" "r < day_of 294277 1 1" "in_day t"
  shows "IS_VALID_TIMESTAMP (stamp r t)"
proof -
  have v: "day_of 1 1 1 = - 730119" "day_of 294277 1 1 = 106751983" by code_simp+
  show ?thesis using assms unfolding v
    by (simp add: IS_VALID_TIMESTAMP_def MIN_TIMESTAMP_def END_TIMESTAMP_def stamp_def in_day_def USECS_PER_DAY_def)
qed

lemma tm2timestamp_day:
  assumes r: "day_of 1 1 1 \<le> r" "r < day_of 294277 1 1"
    and tm: "(tm_year tm, tm_mon tm, tm_mday tm) = j2date (r + POSTGRES_EPOCH_JDATE)"
    and t: "time2t (tm_hour tm) (tm_min tm) (tm_sec tm) fsec = t" "in_day t"
  shows "tm2timestamp env tm fsec None = Inr (Some (stamp r t))"
proof -
  obtain y m d where d: "j2date (r + POSTGRES_EPOCH_JDATE) = (y, m, d)" "proper_date y m d" "day_of y m d = r" "1 \<le> y"
    using day_range [OF r] by metis
  have "date2j_core y m d - POSTGRES_EPOCH_JDATE = r" using d by (simp add: day_of_def)
  with tm d t valid_stamp [OF r t(2)] show ?thesis
    using tm2timestamp_of_fields [of tm env "date2j_core y m d" fsec t] by (auto simp: stamp_def in_day_def)
qed

text \<open>The three ways TRUNC computes a week: from New Year, from the first of the month, from an ISO Monday.\<close>

lemma week_start:
  fixes a day :: int
  assumes "a \<le> day"
  shows "day - (day - a) smod 7 = day - (day - a) mod 7"
  using assms by (simp add: smod_nonneg)

lemma monday_offset:
  assumes "J2DAY a = 1" "a \<le> day"
  shows "(day - a) smod 7 = (J2DAY day + 6) mod 7"
proof -
  have "J2DAY day = (1 + (day - a)) mod 7" using J2DAY_shift [of a "day - a"] assms(1) by simp
  then have "(J2DAY day + 6) mod 7 = (day - a + 7) mod 7"
    using mod_add_left_eq [of "1 + (day - a)" 7 6] by (simp add: algebra_simps)
  then show ?thesis using assms(2) by (simp add: smod_nonneg)
qed

lemma quarter_month:
  fixes m :: int
  assumes "1 \<le> m" "m \<le> 12"
  shows "1 \<le> (m - 1) div 3 * 3 + 1" "(m - 1) div 3 * 3 + 1 \<le> m"
proof -
  define q where "q = (m - 1) div 3"
  have "m - 1 = 3 * q + (m - 1) mod 3" "0 \<le> q" using assms by (simp_all add: q_def pos_imp_zdiv_nonneg_iff)
  then show "1 \<le> (m - 1) div 3 * 3 + 1" "(m - 1) div 3 * 3 + 1 \<le> m"
    unfolding q_def [symmetric] using pos_mod_sign [of 3 "m - 1"] by simp_all
qed

lemma iso_start_after: "1 \<le> y \<Longrightarrow> day_of 1 1 1 \<le> iso_start y"
proof -
  assume y: "1 \<le> y"
  show ?thesis
  proof (cases "y = 1")
    case True
    moreover have "day_of 1 1 1 \<le> iso_start 1" by code_simp
    ultimately show ?thesis by simp
  next
    case False
    have "day_of 1 1 1 \<le> day_of (y - 1) 1 1"
      using day_of_less [of "y - 1" 1 1 1 1 1] y False by (simp add: not_less [symmetric])
    then show ?thesis
      using new_year_step [of "y - 1"] to_monday_iso(3) [of y] y by (simp split: if_splits)
  qed
qed

lemma month_start_le:
  assumes "proper_date y m d" "1 \<le> m'" "m' \<le> m"
  shows "day_of y m' 1 \<le> day_of y m d" "proper_date y m' 1"
proof -
  show q: "proper_date y m' 1"
    using assms month_len_bounds [of m' y] by (simp add: proper_date_def valid_date_def)
  show "day_of y m' 1 \<le> day_of y m d"
    using day_of_less [OF assms(1) q] assms by (auto simp: not_less [symmetric] proper_date_def valid_date_def)
qed

lemma day_of_ge_1:
  assumes "proper_date y m d" "1 \<le> y"
  shows "day_of 1 1 1 \<le> day_of y m d"
proof -
  have "proper_date 1 1 1" by simp
  from day_of_less [OF assms(1) this] assms show ?thesis
    by (auto simp: not_less [symmetric] proper_date_def valid_date_def)
qed

lemma trunc_day_bounds:
  assumes p: "proper_date y m d" and y: "2 \<le> y"
  shows "day_of 1 1 1 \<le> trunc_day f y m d" "trunc_day f y m d \<le> day_of y m d"
proof -
  let ?d = "day_of y m d"
  have m: "1 \<le> m" "m \<le> 12" "1 \<le> d" using p by (auto simp: proper_date_def valid_date_def)
  note b = day_of_year_bounds(1) [OF p]
  have jan: "day_of 1 1 1 + 365 \<le> day_of y 1 1"
    using day_of_ge_1 [of "y - 1" 1 1] new_year_step [of "y - 1"] y by (simp split: if_splits)
  have q: "day_of 1 1 1 \<le> day_of y ((m - 1) div 3 * 3 + 1) 1" "day_of y ((m - 1) div 3 * 3 + 1) 1 \<le> ?d"
    using month_start_le [OF p quarter_month [OF m(1,2)]] y by (auto intro: day_of_ge_1)
  have mon: "day_of 1 1 1 \<le> day_of y m 1" "day_of y m 1 \<le> ?d"
    using month_start_le [OF p m(1)] y by (auto intro: day_of_ge_1)
  have w: "0 \<le> k mod 7" "k mod 7 \<le> 6" for k :: int using pos_mod_bound [of 7 k] by simp_all
  have "day_of 1 1 1 \<le> trunc_day f y m d \<and> trunc_day f y m d \<le> ?d"
  proof (cases f)
    case fmt_IYYY
    then show ?thesis
      using iso_year_eq(2) [OF p y] iso_start_after [of "y - 1"] iso_start_after [of y] iso_start_after [of "y + 1"] y
      by (auto simp: trunc_day_def Let_def)
  qed (use b jan q mon w [of "?d - day_of y 1 1"] w [of "d - 1"] w [of "J2DAY ?d + 6"] J2DAY_bounds [of ?d]
      in \<open>auto simp: trunc_day_def Let_def\<close>)
  then show "day_of 1 1 1 \<le> trunc_day f y m d" "trunc_day f y m d \<le> ?d" by auto
qed

lemma ora_date_trunc_eq:
  assumes p: "proper_date y m d" and y: "2 \<le> y" "y < 294277" and f: "f \<noteq> fmt_CC"
  shows "ora_date_trunc env (day_of y m d) f = Inr (trunc_day f y m d)"
proof -
  let ?d = "day_of y m d"
  have m: "1 \<le> m" "m \<le> 12" "1 \<le> d" using p by (auto simp: proper_date_def valid_date_def)
  have j: "j2date (?d + POSTGRES_EPOCH_JDATE) = (y, m, d)" using y by (intro j2date_day_of p) auto
  have jan: "DATE2J env y 1 1 = Inr (day_of y 1 1)" using y by (intro DATE2J_day_of) auto
  note mon = month_start_le [OF p m(1) order_refl]
  have M: "DATE2J env y m 1 = Inr (day_of y m 1)" using y by (intro DATE2J_day_of mon(2)) auto
  have q: "DATE2J env y ((m - 1) sdiv 3 * 3 + 1) 1 = Inr (day_of y ((m - 1) div 3 * 3 + 1) 1)"
    using y month_start_le(2) [OF p quarter_month [OF m(1,2)]] m by (auto simp: sdiv_nonneg intro: DATE2J_day_of)
  have w: "day_of y m d - day_of y m 1 = d - 1" using date2j_core_day [of y m d] by (simp add: day_of_def)
  have iy: "iso_year env y m d = Inr (trunc_day fmt_IYYY y m d)"
    using iso_year_eq(1) [OF p y(1), of env] by (simp add: trunc_day_def Let_def)
  have iw: "J2DAY (trunc_day fmt_IYYY y m d) = 1" by (simp add: trunc_day_def Let_def to_monday_iso(2))
  note b = day_of_year_bounds(1) [OF p] trunc_day_bounds(2) [OF p y(1), of fmt_IYYY]
  show ?thesis
  proof (cases f)
    case fmt_IW
    then show ?thesis
      using monday_offset [OF iw b(2)] by (simp add: ora_date_trunc_def j iy trunc_day_def [of fmt_IW] Let_def)
  next
    case fmt_IYYY
    then show ?thesis by (simp add: ora_date_trunc_def j iy)
  qed (use f b mon(1) w in \<open>simp_all add: ora_date_trunc_def j jan M q trunc_day_def Let_def smod_nonneg\<close>)
qed

lemma time2t_parts:
  assumes "in_day t" "dt2time t = (h, mi, s, f)"
  shows "time2t h mi 0 0 = t div USECS_PER_MINUTE * USECS_PER_MINUTE"
    and "time2t h 0 0 0 = t div USECS_PER_HOUR * USECS_PER_HOUR"
proof -
  have t: "0 \<le> t" "t < USECS_PER_DAY" using assms(1) by (simp_all add: in_day_def)
  note f = dt2time_fields [OF t assms(2)]
  have "t = 60000000 * (h * 60 + mi) + (s * 1000000 + f)" using f(1) by (simp add: time2t_def time_units)
  moreover have "0 \<le> s * 1000000 + f" "s * 1000000 + f < 60000000" using f by (simp_all add: time_units)
  ultimately have "t div 60000000 = h * 60 + mi" by (rule int_div_pos_eq)
  then show "time2t h mi 0 0 = t div USECS_PER_MINUTE * USECS_PER_MINUTE" by (simp add: time2t_def time_units)
  have "t = 3600000000 * h + (mi * 60000000 + s * 1000000 + f)" using f(1) by (simp add: time2t_def time_units)
  moreover have "0 \<le> mi * 60000000 + s * 1000000 + f" "mi * 60000000 + s * 1000000 + f < 3600000000"
    using f by (simp_all add: time_units)
  ultimately have "t div 3600000000 = h" by (rule int_div_pos_eq)
  then show "time2t h 0 0 0 = t div USECS_PER_HOUR * USECS_PER_HOUR" by (simp add: time2t_def time_units)
qed

lemma trunc_time_bounds: "in_day t \<Longrightarrow> in_day (trunc_time f t)" "in_day t \<Longrightarrow> trunc_time f t \<le> t"
proof -
  have k: "0 \<le> t div k * k \<and> t div k * k \<le> t" if "0 \<le> t" "0 < k" for t k :: int
    using that by (simp add: pos_imp_zdiv_nonneg_iff) (metis div_mult_mod_eq le_add_same_cancel1 pos_mod_sign)
  show "in_day (trunc_time f t)" "trunc_time f t \<le> t" if "in_day t"
    using k [of t USECS_PER_HOUR] k [of t USECS_PER_MINUTE] that
    by (auto simp: trunc_time_def in_day_def time_units split: fmt_class.split)
qed

lemma valid_not_infinite: "IS_VALID_TIMESTAMP t \<Longrightarrow> \<not> TIMESTAMP_NOT_FINITE t"
  by (auto simp: IS_VALID_TIMESTAMP_def MIN_TIMESTAMP_def END_TIMESTAMP_def TIMESTAMP_NOT_FINITE_def
      PG_INT64_MIN_def PG_INT64_MAX_def)

lemma ora_trunc_eq:
  assumes t: "IS_VALID_TIMESTAMP t" and d: "date_of t = (y, m, d)" and y: "2 \<le> y"
    and f: "fmt_search env fmt = Inr f" "f \<noteq> fmt_CC"
  shows "ora_trunc env t (Some fmt) = Inr (stamp (trunc_day f y m d) (trunc_time f (time_of t)))"
proof -
  note v = valid_date_of [OF t d]
  have p: "proper_date y m d" and y2: "y < 294277" and m: "1 \<le> m" "m \<le> 12"
    using v by (auto simp: valid_date_def)
  have day: "day_no t = day_of y m d" using v(2) by (simp add: day_of_def)
  obtain tm fsec where tm: "timestamp2tm env False t = Some (tm, fsec, 0)"
    "(tm_year tm, tm_mon tm, tm_mday tm) = (y, m, d)" "dt2time (time_of t) = (tm_hour tm, tm_min tm, tm_sec tm, fsec)"
    using timestamp2tm_local [OF t, of env] d by (auto simp: date_of_def time_of_def)
  let ?r = "trunc_day f y m d" and ?tt = "trunc_time f (time_of t)"
  have rb: "day_of 1 1 1 \<le> ?r" "?r < day_of 294277 1 1"
  proof -
    have "day_of y m d < day_of 294277 1 1"
      using day_of_less [OF p, of 294277 1 1] y2 by simp
    then show "day_of 1 1 1 \<le> ?r" "?r < day_of 294277 1 1" using trunc_day_bounds [OF p y, of f] by auto
  qed
  note tp = time2t_parts [OF time_of_in_day tm(3)]
  have D: "DATE2J env y m d = Inr (day_of y m d)" using y by (intro DATE2J_day_of p) auto
  have jd: "j2date (day_of y m' d' + POSTGRES_EPOCH_JDATE) = (y, m', d')" if "proper_date y m' d'" for m' d'
    using y y2 that by (intro j2date_day_of) auto
  have q: "1 \<le> (m - 1) div 3 * 3 + 1" "(m - 1) div 3 * 3 + 1 \<le> m" using quarter_month [OF m] by auto
  note jds = jd [OF p] jd [of 1 1] jd [OF month_start_le(2) [OF p m(1) order_refl]] jd [OF month_start_le(2) [OF p q]]
  have "\<exists>tm'. tm_trunc env tm fmt = Inr tm' \<and> (tm_year tm', tm_mon tm', tm_mday tm') = j2date (?r + POSTGRES_EPOCH_JDATE)
      \<and> time2t (tm_hour tm') (tm_min tm') (tm_sec tm') 0 = ?tt"
    using f(2) tm(2) tp y m ora_date_trunc_eq [OF p y y2 f(2), of env]
    by (cases f) (auto simp: tm_trunc_def f(1) D set_date_def trunc_time_def time2t_def Let_def sdiv_nonneg
        trunc_day_def jds mult.commute [of 3] split: prod.split)
  then obtain tm' where tm': "tm_trunc env tm fmt = Inr tm'"
    "(tm_year tm', tm_mon tm', tm_mday tm') = j2date (?r + POSTGRES_EPOCH_JDATE)"
    "time2t (tm_hour tm') (tm_min tm') (tm_sec tm') 0 = ?tt" by blast
  show ?thesis
    using tm2timestamp_day [OF rb tm'(2,3) trunc_time_bounds(1) [OF time_of_in_day], of env] tm(1) tm'(1)
    by (simp add: ora_trunc_def valid_not_infinite [OF t])
qed

lemma iso_start_mono:
  assumes a: "- 4799 \<le> a" and "a \<le> b"
  shows "iso_start a \<le> iso_start b"
  using assms(2)
proof (induction b rule: int_ge_induct)
  case (step b)
  then show ?case using iso_year_length [of b] a by auto
qed simp

lemma iso_start_unique:
  assumes "iso_start a \<le> x" "x < iso_start (a + 1)" "iso_start b \<le> x" "x < iso_start (b + 1)" "0 \<le> a" "0 \<le> b"
  shows "a = b"
proof (rule ccontr)
  assume "a \<noteq> b"
  then have "a + 1 \<le> b \<or> b + 1 \<le> a" by auto
  then show False using iso_start_mono [of "a + 1" b] iso_start_mono [of "b + 1" a] assms by auto
qed

text \<open>The ISO year of a date.\<close>

lemma trunc_day_IYYY:
  assumes "proper_date y m d" "2 \<le> y"
  obtains Y where "trunc_day fmt_IYYY y m d = iso_start Y" "1 \<le> Y" "iso_start Y \<le> day_of y m d" "day_of y m d < iso_start (Y + 1)"
    "y - 1 \<le> Y"
proof -
  let ?d = "day_of y m d"
  define Y where "Y = (if ?d < iso_start y then y - 1 else if iso_start (y + 1) \<le> ?d then y + 1 else y)"
  have "trunc_day fmt_IYYY y m d = iso_start Y" by (simp add: Y_def trunc_day_def Let_def)
  moreover have "iso_start Y \<le> ?d" "?d < iso_start (Y + 1)"
    using iso_year_eq(2,3) [OF assms] by (auto simp: Y_def add.commute)
  moreover have "1 \<le> Y" "y - 1 \<le> Y" using assms(2) by (auto simp: Y_def)
  ultimately show thesis using that by blast
qed

lemma J2DAY_back: "J2DAY (a - J2DAY a) = 0" "J2DAY (a - (J2DAY a + 6) mod 7) = 1"
  using weekday_cases [OF J2DAY_bounds [of a]] J2DAY_shift [of a "- J2DAY a"] J2DAY_shift [of a "- ((J2DAY a + 6) mod 7)"]
  by auto

lemma day_of_inj:
  "proper_date y m d \<Longrightarrow> proper_date y' m' d' \<Longrightarrow> day_of y m d = day_of y' m' d' \<Longrightarrow> y = y' \<and> m = m' \<and> d = d'"
  using jday.to_day_inj [of y m d y' m' d'] by (simp add: day_of_def)

lemma jan1_le_iff:
  assumes "proper_date y' m' d'" "- 4799 \<le> y"
  shows "day_of y 1 1 \<le> day_of y' m' d' \<longleftrightarrow> y \<le> y'"
proof -
  have "proper_date y 1 1" using assms(2) by simp
  from day_of_less [OF assms(1) this] assms show ?thesis
    by (auto simp: not_less [symmetric] proper_date_def valid_date_def)
qed

lemma trunc_day_idem:
  assumes p: "proper_date y m d" and y: "2 \<le> y" and q: "proper_date y' m' d'" and y': "2 \<le> y'"
    and r: "day_of y' m' d' = trunc_day f y m d"
  shows "trunc_day f y' m' d' = trunc_day f y m d"
proof -
  have m: "1 \<le> m" "m \<le> 12" "1 \<le> d" "d \<le> month_len y m" using p by (auto simp: proper_date_def valid_date_def)
  note M = month_start_le(2) [OF p m(1) order_refl] and Q = month_start_le(2) [OF p quarter_month [OF m(1,2)]]
  show ?thesis
  proof (cases f)
    case fmt_YYYY
    then show ?thesis using day_of_inj [OF q, of y 1 1] r y by (simp add: trunc_day_def Let_def)
  next
    case fmt_IYYY
    obtain Y Y' where "trunc_day f y m d = iso_start Y" "1 \<le> Y" "trunc_day f y' m' d' = iso_start Y'" "1 \<le> Y'"
      "iso_start Y' \<le> day_of y' m' d'" "day_of y' m' d' < iso_start (Y' + 1)"
      using trunc_day_IYYY [OF p y] trunc_day_IYYY [OF q y'] fmt_IYYY by metis
    with r iso_start_unique [of Y' "iso_start Y" Y] iso_year_length [of Y] show ?thesis by auto
  next
    case fmt_Q
    then show ?thesis using day_of_inj [OF q Q] r by (simp add: trunc_day_def Let_def)
  next
    case fmt_MON
    then show ?thesis using day_of_inj [OF q M] r by (simp add: trunc_day_def Let_def)
  next
    case fmt_WW
    let ?d = "day_of y m d" and ?j = "day_of y 1 1"
    have e: "day_of y' m' d' - ?j = 7 * ((?d - ?j) div 7)"
      using r fmt_WW by (simp add: trunc_day_def Let_def minus_mod_eq_mult_div [symmetric])
    moreover have "0 \<le> (?d - ?j) div 7" using day_of_year_bounds(1) [OF p] by (simp add: pos_imp_zdiv_nonneg_iff)
    ultimately have b: "?j \<le> day_of y' m' d'" "day_of y' m' d' < day_of (y + 1) 1 1"
      using day_of_year_bounds [OF p] r trunc_day_bounds(2) [OF p y, of f] by auto
    then have "y' = y"
      using jan1_le_iff [OF q, of y] jan1_le_iff [OF q, of "y + 1"] y by auto
    with e fmt_WW show ?thesis using r by (simp add: trunc_day_def Let_def)
  next
    case fmt_W
    define k where "k = (d - 1) mod 7"
    have k: "d - 1 - k = 7 * ((d - 1) div 7)" "0 \<le> k" by (simp_all add: k_def minus_mod_eq_mult_div)
    have "0 \<le> (d - 1) div 7" using m by (simp add: pos_imp_zdiv_nonneg_iff)
    with k m p have "proper_date y m (d - k)" by (simp add: proper_date_def valid_date_def)
    moreover have "day_of y' m' d' = day_of y m (d - k)"
      using r fmt_W date2j_core_day [of y m d] date2j_core_day [of y m "d - k"]
      by (simp add: trunc_day_def Let_def day_of_def k_def)
    ultimately have "d' = d - k" using day_of_inj [OF q] by blast
    with k(1) have "(d' - 1) mod 7 = 0" by (metis diff_right_commute mod_mult_self1_is_0)
    with fmt_W r show ?thesis by (simp add: trunc_day_def Let_def)
  next
    case fmt_IW
    then show ?thesis using r J2DAY_back(2) [of "day_of y m d"] by (simp add: trunc_day_def Let_def)
  next
    case fmt_DAY
    then show ?thesis using r J2DAY_back(1) [of "day_of y m d"] by (simp add: trunc_day_def Let_def)
  qed (use r in \<open>simp_all add: trunc_day_def Let_def\<close>)
qed

lemma trunc_day_year_2:
  assumes p: "proper_date y m d" and y: "4 \<le> y"
  shows "day_of 2 1 1 \<le> trunc_day f y m d"
proof -
  have m: "1 \<le> m" "m \<le> 12" using p by (auto simp: proper_date_def valid_date_def)
  have jan: "day_of 2 1 1 + 365 \<le> day_of (y - 1) 1 1" "day_of (y - 1) 1 1 + 365 \<le> day_of y 1 1"
    using day_of_less [of "y - 2" 1 1 2 1 1] new_year_step [of "y - 2"] new_year_step [of "y - 1"] y
    by (auto simp: not_less [symmetric] split: if_splits)
  note b = day_of_year_bounds(1) [OF p]
  have w: "k mod 7 \<le> 6" for k :: int using pos_mod_bound [of 7 k] by simp
  have s: "day_of 2 1 1 \<le> day_of y m' 1" if "1 \<le> m'" "m' \<le> m" for m'
    using day_of_year_bounds(1) [OF month_start_le(2) [OF p that]] jan by simp
  show ?thesis
  proof (cases f)
    case fmt_IYYY
    obtain Y where Y: "trunc_day f y m d = iso_start Y" "y - 1 \<le> Y"
      using trunc_day_IYYY [OF p] y fmt_IYYY by force
    then show ?thesis using iso_start_mono [of "y - 1" Y] to_monday_iso(3) [of "y - 1"] jan y by simp
  qed (use b jan s [OF m(1) order_refl] s [OF quarter_month [OF m]] w [of "day_of y m d - day_of y 1 1"]
      w [of "d - 1"] w [of "J2DAY (day_of y m d) + 6"] J2DAY_bounds [of "day_of y m d"] in \<open>auto simp: trunc_day_def Let_def\<close>)
qed

lemma trunc_time_idem: "trunc_time f (trunc_time f t) = trunc_time f t"
  by (cases f) (simp_all add: trunc_time_def time_units)

text \<open>
  C16 (TRUNC): from the year 2 on and for every unit but the century, TRUNC returns the first moment of
  the unit the date lies in (calendar or ISO year, quarter, month, week counted from New
  Year, from the first of the month, from Monday or from Sunday, day, hour or minute),
  which is never later than the date.
\<close>

theorem trunc_correct:
  assumes t: "IS_VALID_TIMESTAMP t" "date_of t = (y, m, d)" and y: "2 \<le> y"
    and f: "fmt_search env fmt = Inr f" "f \<noteq> fmt_CC"
  shows "ora_trunc env t (Some fmt) = Inr (stamp (trunc_day f y m d) (trunc_time f (time_of t)))
    \<and> stamp (trunc_day f y m d) (trunc_time f (time_of t)) \<le> t"
proof -
  note v = valid_date_of [OF t]
  have "day_no t = day_of y m d" using v(2) by (simp add: day_of_def)
  then have "trunc_day f y m d \<le> day_no t" using trunc_day_bounds(2) [OF v(1) y, of f] by simp
  then have "stamp (trunc_day f y m d) (trunc_time f (time_of t)) \<le> stamp (day_no t) (time_of t)"
    using trunc_time_bounds(2) [OF time_of_in_day, of f t] by (simp add: stamp_def USECS_PER_DAY_def)
  then show ?thesis using ora_trunc_eq [OF t y f] by simp
qed

theorem trunc_correct_witness:
  "ora_trunc utc_session 788963445000000 (Some ''iyyy'') = Inr (stamp (day_of 2024 12 30) 0)"
proof -
  have "date_of 788963445000000 = (2024, 12, 31)" "IS_VALID_TIMESTAMP 788963445000000" "fmt_search utc_session ''iyyy'' = Inr fmt_IYYY"
    "trunc_day fmt_IYYY 2024 12 31 = day_of 2024 12 30" "trunc_time fmt_IYYY (time_of 788963445000000) = 0"
    by code_simp+
  with trunc_correct [of 788963445000000 2024 12 31 utc_session "''iyyy''" fmt_IYYY] show ?thesis by simp
qed

text \<open>
  TRUNC twice: truncating a truncated date to the same unit changes nothing.
\<close>

theorem trunc_idempotent:
  assumes t: "IS_VALID_TIMESTAMP t" "date_of t = (y, m, d)" and y: "4 \<le> y"
    and f: "fmt_search env fmt = Inr f" "f \<noteq> fmt_CC" and r: "ora_trunc env t (Some fmt) = Inr r"
  shows "ora_trunc env r (Some fmt) = Inr r"
proof -
  note v = valid_date_of [OF t]
  have y2: "2 \<le> y" using y by simp
  let ?r = "trunc_day f y m d" and ?tt = "trunc_time f (time_of t)"
  have rs: "r = stamp ?r ?tt" using ora_trunc_eq [OF t y2 f] r by simp
  have tt: "in_day ?tt" by (rule trunc_time_bounds(1) [OF time_of_in_day])
  have b: "day_of 1 1 1 \<le> ?r" "?r < day_of 294277 1 1"
    using trunc_day_bounds [OF v(1) y2, of f] day_of_less [OF v(1), of 294277 1 1] v(4) by auto
  obtain y' m' d' where d': "j2date (?r + POSTGRES_EPOCH_JDATE) = (y', m', d')" "proper_date y' m' d'" "day_of y' m' d' = ?r"
    using day_range [OF b] by metis
  have "day_of 2 1 1 \<le> ?r" by (rule trunc_day_year_2 [OF v(1) y])
  then have y': "2 \<le> y'"
    using jan1_le_iff [OF d'(2), of 2] d'(3) by auto
  have "date_of r = (y', m', d')" using d'(1) tt by (simp add: rs date_of_stamp)
  from ora_trunc_eq [OF _ this y' f] valid_stamp [OF b tt]
  have "ora_trunc env r (Some fmt) = Inr (stamp (trunc_day f y' m' d') (trunc_time f (time_of r)))" by (simp add: rs)
  also have "\<dots> = Inr r"
    using trunc_day_idem [OF v(1) y2 d'(2) y' d'(3)] tt by (simp add: rs trunc_time_idem)
  finally show ?thesis .
qed

theorem trunc_idempotent_witness:
  "\<exists>r. ora_trunc utc_session 788963445000000 (Some ''WW'') = Inr r \<and> ora_trunc utc_session r (Some ''WW'') = Inr r"
proof -
  have a: "date_of 788963445000000 = (2024, 12, 31)" "IS_VALID_TIMESTAMP 788963445000000" "fmt_search utc_session ''WW'' = Inr fmt_WW"
    by code_simp+
  then obtain r where "ora_trunc utc_session 788963445000000 (Some ''WW'') = Inr r"
    using ora_trunc_eq [OF a(2,1) _ a(3)] by auto
  with a trunc_idempotent [of 788963445000000 2024 12 31 utc_session "''WW''" fmt_WW r] show ?thesis by auto
qed

text \<open>
  C29 (TRUNC to the century): in the last year of a century, a multiple of 100, truncating to
  the century moves the date forward, to the first day of the following year.
\<close>

theorem trunc_century_forward:
  assumes t: "IS_VALID_TIMESTAMP t" "date_of t = (y, m, d)" and y: "0 < y" "y smod 100 = 0" "y < 294276"
    and f: "fmt_search env fmt = Inr fmt_CC"
  shows "ora_trunc env t (Some fmt) = Inr (stamp (day_of (y + 1) 1 1) 0) \<and> t < stamp (day_of (y + 1) 1 1) 0"
proof -
  note v = valid_date_of [OF t]
  have day: "day_no t = day_of y m d" using v(2) by (simp add: day_of_def)
  obtain tm fsec where tm: "timestamp2tm env False t = Some (tm, fsec, 0)" "(tm_year tm, tm_mon tm, tm_mday tm) = (y, m, d)"
    using timestamp2tm_local [OF t(1), of env] t(2) by (auto simp: date_of_def)
  have D: "DATE2J env y m d = Inr (day_of y m d)" "DATE2J env (y + 1) 1 1 = Inr (day_of (y + 1) 1 1)"
    using y v(1) by (auto intro!: DATE2J_day_of)
  have j: "j2date (day_of y m d + POSTGRES_EPOCH_JDATE) = (y, m, d)" using y by (intro j2date_day_of v(1,4)) auto
  have c: "y sdiv 100 * 100 = y" using sdiv_smod_split [of y 100] y(2) by simp
  have b: "day_of 1 1 1 \<le> day_of (y + 1) 1 1" "day_of (y + 1) 1 1 < day_of 294277 1 1"
    using y day_of_less [of "y + 1" 1 1 294277 1 1] by (auto intro!: day_of_ge_1)
  let ?tm = "set_date (tm\<lparr>tm_sec := 0\<rparr>) (day_of (y + 1) 1 1)"
  have tr: "tm_trunc env tm fmt = Inr ?tm"
    using tm(2) y(1) c by (simp add: tm_trunc_def f D ora_date_trunc_def j)
  have "tm2timestamp env ?tm 0 None = Inr (Some (stamp (day_of (y + 1) 1 1) 0))"
    by (rule tm2timestamp_day [OF b]) (auto simp: set_date_def in_day_def time2t_def time_units split: prod.split)
  then have "ora_trunc env t (Some fmt) = Inr (stamp (day_of (y + 1) 1 1) 0)"
    using tm(1) tr by (simp add: ora_trunc_def valid_not_infinite [OF t(1)])
  moreover have "stamp (day_no t) (time_of t) < stamp (day_of (y + 1) 1 1) 0"
    using day_of_year_bounds(2) [OF v(1)] day by (intro stamp_less) auto
  ultimately show ?thesis by simp
qed

theorem trunc_century_forward_witness:
  "ora_trunc utc_session 31622380000000 (Some ''CC'') = Inr (stamp (day_of 2001 1 1) 0) \<and> 31622380000000 < stamp (day_of 2001 1 1) 0"
proof -
  have "date_of 31622380000000 = (2000, 12, 31)" "IS_VALID_TIMESTAMP 31622380000000" "fmt_search utc_session ''CC'' = Inr fmt_CC"
    by code_simp+
  with trunc_century_forward [of 31622380000000 2000 12 31 utc_session "''CC''"] show ?thesis by (simp add: smod_nonneg)
qed

section \<open>ROUND\<close>

lemma day_of_add: "day_of y m (d + k) = day_of y m d + k"
  using date2j_core_day [of y m d] date2j_core_day [of y m "d + k"] by (simp add: day_of_def)

text \<open>\<open>tm2timestamp\<close> on fields that have been incremented past their range: the carry is done by the arithmetic.\<close>

lemma tm2timestamp_carry:
  assumes d: "proper_date (tm_year tm) (tm_mon tm) 1" "1 \<le> tm_year tm" "1 \<le> tm_mday tm"
    and r: "stamp (day_of (tm_year tm) (tm_mon tm) (tm_mday tm)) (time2t (tm_hour tm) (tm_min tm) (tm_sec tm) fsec) = r"
    and v: "IS_VALID_TIMESTAMP r" "tm_year tm < 294277" "0 \<le> time2t (tm_hour tm) (tm_min tm) (tm_sec tm) fsec"
  shows "tm2timestamp env tm fsec None = Inr (Some r)"
proof -
  let ?d = "day_of (tm_year tm) (tm_mon tm) (tm_mday tm)"
  have m: "tm_mon tm \<noteq> 0" using d by (auto simp: proper_date_def valid_date_def)
  have J: "date2j env (tm_year tm) (tm_mon tm) (tm_mday tm) = Inr (date2j_core (tm_year tm) (tm_mon tm) (tm_mday tm))"
    using d m by (intro date2j_pure) auto
  have "IS_VALID_JULIAN (tm_year tm) (tm_mon tm) (tm_mday tm)" using d v by (simp add: IS_VALID_JULIAN_def)
  moreover have "?d * USECS_PER_DAY \<le> r" using r v(3) by (simp add: stamp_def)
  moreover have "day_of 1 1 1 \<le> ?d"
    using day_of_ge_1 [OF d(1,2)] day_of_add [of _ _ 1 "tm_mday tm - 1"] d(3) by simp
  moreover have "day_of 1 1 1 = - 730119" by code_simp
  ultimately show ?thesis
    using r v(1) by (auto simp: tm2timestamp_def J Let_def stamp_def day_of_def int64_overflow_def USECS_PER_DAY_def
        IS_VALID_TIMESTAMP_def END_TIMESTAMP_def MIN_TIMESTAMP_def PG_INT64_MIN_def PG_INT64_MAX_def)
qed

text \<open>The unit of DDD, HH and MI in microseconds.\<close>

definition round_unit :: "fmt_class \<Rightarrow> int" where
  "round_unit f = (case f of fmt_HH \<Rightarrow> USECS_PER_HOUR | fmt_MI \<Rightarrow> USECS_PER_MINUTE | _ \<Rightarrow> USECS_PER_DAY)"

lemma div_mult_eq:
  fixes a :: int
  assumes "a = q * u + e" "0 \<le> e" "e < u"
  shows "a div u * u = q * u"
  using int_div_pos_eq [of a u q e] assms by (simp add: mult.commute)

lemma round_clock:
  assumes "t = day * USECS_PER_DAY + time2t h mi s 0" "0 \<le> h" "h < 24" "0 \<le> mi" "mi < 60" "0 \<le> s" "s < 60"
  shows "(t + USECS_PER_DAY div 2) div USECS_PER_DAY * USECS_PER_DAY = (day + (if h \<ge> 12 then 1 else 0)) * USECS_PER_DAY"
    and "(t + USECS_PER_HOUR div 2) div USECS_PER_HOUR * USECS_PER_HOUR =
      day * USECS_PER_DAY + time2t (h + (if mi \<ge> 30 then 1 else 0)) 0 0 0"
    and "(t + USECS_PER_MINUTE div 2) div USECS_PER_MINUTE * USECS_PER_MINUTE =
      day * USECS_PER_DAY + time2t h (mi + (if s \<ge> 30 then 1 else 0)) 0 0"
proof -
  have b: "time2t h mi s 0 = h * USECS_PER_HOUR + (mi * 60 + s) * USECS_PER_SEC" by (simp add: time2t_def time_units)
  show "(t + USECS_PER_DAY div 2) div USECS_PER_DAY * USECS_PER_DAY = (day + (if h \<ge> 12 then 1 else 0)) * USECS_PER_DAY"
    by (rule div_mult_eq [where e = "time2t h mi s 0 + (if h \<ge> 12 then - 1 else 1) * (USECS_PER_DAY div 2)"])
      (use assms in \<open>auto simp: b time_units\<close>)
  have "(t + USECS_PER_HOUR div 2) div USECS_PER_HOUR * USECS_PER_HOUR = (day * 24 + h + (if mi \<ge> 30 then 1 else 0)) * USECS_PER_HOUR"
    by (rule div_mult_eq [where e = "(mi * 60 + s) * USECS_PER_SEC + (if mi \<ge> 30 then - 1 else 1) * (USECS_PER_HOUR div 2)"])
      (use assms in \<open>auto simp: b time_units\<close>)
  then show "(t + USECS_PER_HOUR div 2) div USECS_PER_HOUR * USECS_PER_HOUR =
      day * USECS_PER_DAY + time2t (h + (if mi \<ge> 30 then 1 else 0)) 0 0 0"
    by (simp add: time2t_def time_units algebra_simps)
  have "(t + USECS_PER_MINUTE div 2) div USECS_PER_MINUTE * USECS_PER_MINUTE =
      (day * 1440 + h * 60 + mi + (if s \<ge> 30 then 1 else 0)) * USECS_PER_MINUTE"
    by (rule div_mult_eq [where e = "s * USECS_PER_SEC + (if s \<ge> 30 then - 1 else 1) * (USECS_PER_MINUTE div 2)"])
      (use assms in \<open>auto simp: b time_units\<close>)
  then show "(t + USECS_PER_MINUTE div 2) div USECS_PER_MINUTE * USECS_PER_MINUTE =
      day * USECS_PER_DAY + time2t h (mi + (if s \<ge> 30 then 1 else 0)) 0 0"
    by (simp add: time2t_def time_units algebra_simps)
qed

lemma timestamp2tm_whole_seconds:
  assumes t: "IS_VALID_TIMESTAMP t" and s: "t mod USECS_PER_SEC = 0"
  obtains tm where "timestamp2tm env False t = Some (tm, 0, 0)" "date_of t = (tm_year tm, tm_mon tm, tm_mday tm)"
    "dt2time (time_of t) = (tm_hour tm, tm_min tm, tm_sec tm, 0)"
proof -
  obtain tm fsec where tm: "timestamp2tm env False t = Some (tm, fsec, 0)" "date_of t = (tm_year tm, tm_mon tm, tm_mday tm)"
    "dt2time (time_of t) = (tm_hour tm, tm_min tm, tm_sec tm, fsec)"
    using timestamp2tm_local [OF t, of env] by (auto simp: date_of_def time_of_def)
  have tb: "0 \<le> time_of t" "time_of t < USECS_PER_DAY" using time_of_in_day [of t] by (simp_all add: in_day_def)
  note tf = dt2time_fields [OF tb tm(3)]
  have "t = USECS_PER_SEC * (day_no t * 86400 + tm_hour tm * 3600 + tm_min tm * 60 + tm_sec tm) + fsec"
    using stamp_parts [of t] tf(1) by (simp add: stamp_def time2t_def time_units)
  from int_mod_pos_eq [OF this] tf s have "fsec = 0" by simp
  with tm show thesis using that by simp
qed

text \<open>
  C18 (ROUND to day, hour, minute): on a DATE, which has whole seconds, from the year 1 on,
  ROUND gives the nearest multiple of the unit, halves going up, also where the carry runs over the end of the
  hour, day, month or year, as long as the result is a valid timestamp.
\<close>

theorem round_nearest:
  assumes t: "IS_VALID_TIMESTAMP t" "date_of t = (y, m, d)" "1 \<le> y" and s: "t mod USECS_PER_SEC = 0"
    and f: "fmt_search env fmt = Inr f" "f = fmt_DDD \<or> f = fmt_HH \<or> f = fmt_MI"
    and r: "r = (t + round_unit f div 2) div round_unit f * round_unit f" "IS_VALID_TIMESTAMP r"
  shows "ora_round env t (Some fmt) = Inr r"
proof -
  note v = valid_date_of [OF t(1,2)]
  have day: "day_no t = day_of y m d" using v(2) by (simp add: day_of_def)
  obtain tm where tm: "timestamp2tm env False t = Some (tm, 0, 0)" "tm_year tm = y" "tm_mon tm = m" "tm_mday tm = d"
    "dt2time (time_of t) = (tm_hour tm, tm_min tm, tm_sec tm, 0)"
    using timestamp2tm_whole_seconds [OF t(1) s] t(2) by (metis prod.inject)
  have tb: "0 \<le> time_of t" "time_of t < USECS_PER_DAY" using time_of_in_day [of t] by (simp_all add: in_day_def)
  note tf = dt2time_fields [OF tb tm(5)]
  have te: "t = day_of y m d * USECS_PER_DAY + time2t (tm_hour tm) (tm_min tm) (tm_sec tm) 0"
    using stamp_parts [of t] day tf(1) by (simp add: stamp_def)
  have p1: "proper_date y m 1" using month_start_le(2) [OF v(1), of m] v(1) by (auto simp: proper_date_def valid_date_def)
  have d1: "1 \<le> d" using v(5) by (simp add: valid_date_def)
  note rc = round_clock [OF te tf(2-7)]
  have "\<exists>tm'. tm_round env tm fmt = Inr tm' \<and> tm_year tm' = y \<and> tm_mon tm' = m \<and> 1 \<le> tm_mday tm' \<and>
    stamp (day_of y m (tm_mday tm')) (time2t (tm_hour tm') (tm_min tm') (tm_sec tm') 0) = r \<and>
    0 \<le> time2t (tm_hour tm') (tm_min tm') (tm_sec tm') 0"
    using f(2)
  proof (elim disjE)
    assume "f = fmt_DDD"
    then show ?thesis using r(1) rc(1) d1
      by (simp add: tm_round_def f(1) tm_round_rule_def tm day_of_add stamp_def time2t_def round_unit_def)
  next
    assume "f = fmt_HH"
    then show ?thesis using r(1) rc(2) d1 tf
      by (simp add: tm_round_def f(1) tm_round_rule_def tm stamp_def round_unit_def) (simp add: time2t_def time_units)
  next
    assume "f = fmt_MI"
    then show ?thesis using r(1) rc(3) d1 tf
      by (simp add: tm_round_def f(1) tm_round_rule_def tm stamp_def round_unit_def) (simp add: time2t_def time_units)
  qed
  then obtain tm' where tm': "tm_round env tm fmt = Inr tm'" "tm_year tm' = y" "tm_mon tm' = m" "1 \<le> tm_mday tm'"
    "stamp (day_of y m (tm_mday tm')) (time2t (tm_hour tm') (tm_min tm') (tm_sec tm') 0) = r"
    "0 \<le> time2t (tm_hour tm') (tm_min tm') (tm_sec tm') 0" by blast
  have "tm2timestamp env tm' 0 None = Inr (Some r)"
    by (rule tm2timestamp_carry) (use tm' p1 t(3) r(2) v(4) in simp_all)
  then show ?thesis using tm(1) tm'(1) by (simp add: ora_round_def valid_not_infinite [OF t(1)])
qed

theorem round_nearest_witness:
  "ora_round utc_session 788963445000000 (Some ''DD'') = Inr (stamp (day_of 2025 1 1) 0)"
proof -
  have "date_of 788963445000000 = (2024, 12, 31)" "IS_VALID_TIMESTAMP 788963445000000" "fmt_search utc_session ''DD'' = Inr fmt_DDD"
    "IS_VALID_TIMESTAMP (stamp (day_of 2025 1 1) 0)" "788963445000000 mod USECS_PER_SEC = 0"
    "stamp (day_of 2025 1 1) 0 = (788963445000000 + round_unit fmt_DDD div 2) div round_unit fmt_DDD * round_unit fmt_DDD"
    by code_simp+
  with round_nearest [of 788963445000000 2024 12 31 utc_session "''DD''" fmt_DDD "stamp (day_of 2025 1 1) 0"] show ?thesis by simp
qed

text \<open>Rounding to calendar units: months turn on the 16th, years on July 1, quarters on the 16th of their second month.\<close>

definition round_day :: "fmt_class \<Rightarrow> int \<Rightarrow> int \<Rightarrow> int \<Rightarrow> int" where
  "round_day f y m d =
     (let q = (m - 1) div 3 * 3 in case f of
        fmt_YYYY \<Rightarrow> day_of (if m \<le> 6 then y else y + 1) 1 1
      | fmt_Q \<Rightarrow> day_of y (if m < q + 2 \<or> m = q + 2 \<and> d \<le> 15 then q + 1 else q + 4) 1
      | fmt_MON \<Rightarrow> day_of y (if d \<le> 15 then m else m + 1) 1
      | _ \<Rightarrow> day_of y m d)"

lemma month_13: "- 4799 \<le> y \<Longrightarrow> day_of y 13 d = day_of (y + 1) 1 d"
  using date2j_core_year_days [of y 13 d] date2j_core_year_days [of "y + 1" 1 d]
  by (simp add: day_of_def algebra_simps)

lemma after_month_end:
  assumes "- 4799 \<le> y" "1 \<le> m" "m \<le> 12"
  shows "day_of y m (month_len y m + 1) = day_of y (m + 1) 1"
proof (cases "m = 12")
  case True
  then show ?thesis
    using month_13 [OF assms(1), of 1] date2j_core_year_step [OF assms(1)] day_of_add [of y 12 1 31]
    by (simp add: day_of_def month_len_def)
next
  case False
  then show ?thesis using date2j_core_month_step [of y m] assms day_of_add [of y m 1 "month_len y m"]
    by (simp add: day_of_def add.commute)
qed

lemma DATE2J_raw: "1 \<le> y \<Longrightarrow> 1 \<le> m \<Longrightarrow> DATE2J env y m d = Inr (day_of y m d)"
  by (simp add: DATE2J_def day_of_def date2j_pure)

text \<open>The calendar rounding of a date that is already a whole day.\<close>

lemma ora_date_round_calendar:
  assumes p: "proper_date y m d" and y: "1 \<le> y" "y < 294277" and f: "f \<in> {fmt_YYYY, fmt_MON, fmt_Q}"
  shows "ora_date_round env (day_of y m d) f = Inr (round_day f y m d)"
proof -
  have j: "j2date (day_of y m d + POSTGRES_EPOCH_JDATE) = (y, m, d)" using y by (intro j2date_day_of p) auto
  have m: "1 \<le> m" "m \<le> 12" "1 \<le> d" "- 4799 \<le> y" using p by (auto simp: proper_date_def valid_date_def)
  have q: "0 \<le> (m - 1) div 3" "(m - 1) div 3 * 3 + 2 \<le> 12"
    using m month_cases [of m] by (auto simp: pos_imp_zdiv_nonneg_iff)
  have c: "proper_date y k 16" "proper_date y k 1" if "1 \<le> k" "k \<le> 12" for k
    using that m(4) month_len_bounds [of k y] by (auto simp: proper_date_def valid_date_def)
  have l: "day_of y m d < day_of y k 16 \<longleftrightarrow> m < k \<or> m = k \<and> d \<le> 15" "day_of y m d < day_of y k 1 \<longleftrightarrow> m < k"
    if "1 \<le> k" "k \<le> 12" for k
    using day_of_less [OF p c(1)] day_of_less [OF p c(2)] that m(3) by auto
  show ?thesis using f
  proof (elim insertE emptyE)
    assume "f = fmt_YYYY"
    then show ?thesis using l(2) [of 7] y by (simp add: ora_date_round_def j DATE2J_raw round_day_def)
  next
    assume "f = fmt_MON"
    then show ?thesis using l(1) [of m] y m by (simp add: ora_date_round_def j DATE2J_raw round_day_def)
  next
    assume "f = fmt_Q"
    then show ?thesis using l(1) [of "(m - 1) div 3 * 3 + 2"] y m q
      by (simp add: ora_date_round_def j DATE2J_raw round_day_def sdiv_nonneg Let_def)
  qed
qed

text \<open>Carrying the hour into the day does not change the result, given the exceptions of \<open>tm_round_rule\<close>.\<close>

lemma round_day_carry:
  assumes p: "proper_date y m d" and y: "1 \<le> y" "y < 294276" and f: "f \<in> {fmt_YYYY, fmt_MON, fmt_Q}"
    and tm: "tm_year tm = y" "tm_mon tm = m" "tm_mday tm = d" and rule: "tm_round_rule env tm f = Inr True"
  shows "ora_date_round env (day_of y m (d + 1)) f = Inr (round_day f y m d)"
proof -
  have m: "1 \<le> m" "m \<le> 12" "1 \<le> d" "d \<le> month_len y m" "- 4799 \<le> y" using p by (auto simp: proper_date_def valid_date_def)
  note mc = month_cases [OF m(1,2)]
  have q: "(m - 1) sdiv 3 = (m - 1) div 3" using m by (simp add: sdiv_nonneg)
  show ?thesis
  proof (cases "d < month_len y m")
    case True
    then have "proper_date y m (d + 1)" using p by (simp add: proper_date_def valid_date_def)
    then have o: "ora_date_round env (day_of y m (d + 1)) f = Inr (round_day f y m (d + 1))"
      using ora_date_round_calendar [OF _ y(1) _ f, of m "d + 1" env] y(2) by simp
    have "round_day f y m (d + 1) = round_day f y m d" using f
    proof (elim insertE emptyE)
      assume "f = fmt_Q"
      then have "\<not> (d = 15 \<and> m = (m - 1) div 3 * 3 + 2)" using rule by (simp add: tm_round_rule_def tm q)
      then have "m = (m - 1) div 3 * 3 + 2 \<and> d + 1 \<le> 15 \<longleftrightarrow> m = (m - 1) div 3 * 3 + 2 \<and> d \<le> 15" by auto
      with \<open>f = fmt_Q\<close> show ?thesis unfolding round_day_def Let_def by simp
    qed (use rule in \<open>auto simp: round_day_def tm_round_rule_def tm\<close>)
    with o show ?thesis by simp
  next
    case False
    then have e: "d = month_len y m" using m by simp
    have "28 \<le> d" using month_len_bounds [OF m(1,2), of y] e by simp
    show ?thesis
    proof (cases "m = 12")
      case True
      have "day_of y m (d + 1) = day_of (y + 1) 1 1" using after_month_end [OF m(5,1,2)] e True month_13 m(5) by simp
      moreover have "proper_date (y + 1) 1 1" using m(5) by simp
      ultimately show ?thesis
        using ora_date_round_calendar [of "y + 1" 1 1 f env] y f True \<open>28 \<le> d\<close> month_13 [OF m(5), of 1]
        by (auto simp: round_day_def Let_def)
    next
      case False
      have n: "day_of y m (d + 1) = day_of y (m + 1) 1" using after_month_end [OF m(5,1,2)] e by simp
      have "proper_date y (m + 1) 1" using False m month_len_bounds [of "m + 1" y] by (simp add: proper_date_def valid_date_def)
      then have o: "ora_date_round env (day_of y m (d + 1)) f = Inr (round_day f y (m + 1) 1)"
        using ora_date_round_calendar [OF _ y(1) _ f, of "m + 1" 1 env] y(2) n by simp
      have june: "m = 6 \<Longrightarrow> d = 30" using e by (simp add: month_len_def)
      show ?thesis using f
      proof (elim insertE emptyE)
        assume "f = fmt_YYYY"
        then show ?thesis using o rule june by (cases "m = 6") (auto simp: tm_round_rule_def tm round_day_def)
      next
        assume "f = fmt_MON"
        then show ?thesis using o \<open>28 \<le> d\<close> by (simp add: round_day_def)
      next
        assume "f = fmt_Q"
        then show ?thesis using o \<open>28 \<le> d\<close> False mc by (elim insertE) (auto simp: round_day_def)
      qed
    qed
  qed
qed

lemma set_date_mday [simp]: "set_date (tm\<lparr>tm_mday := k\<rparr>) r = set_date tm r"
  by (simp add: set_date_def split: prod.split)

lemma round_day_range:
  assumes p: "proper_date y m d" and y: "1 \<le> y" "y < 294276" and f: "f \<in> {fmt_YYYY, fmt_MON, fmt_Q}"
  shows "day_of 1 1 1 \<le> round_day f y m d" "round_day f y m d < day_of 294277 1 1"
proof -
  have m: "1 \<le> m" "m \<le> 12" "- 4799 \<le> y" using p by (auto simp: proper_date_def valid_date_def)
  have q: "0 \<le> (m - 1) div 3" "(m - 1) div 3 * 3 + 4 \<le> 13"
    using m month_cases [OF m(1,2)] by (auto simp: pos_imp_zdiv_nonneg_iff)
  have j: "day_of 1 1 1 \<le> day_of (y + 1) 1 1 \<and> day_of (y + 1) 1 1 < day_of 294277 1 1"
    using y day_of_less [of "y + 1" 1 1 294277 1 1] by (auto intro!: day_of_ge_1)
  have k: "day_of 1 1 1 \<le> day_of y k 1 \<and> day_of y k 1 < day_of 294277 1 1" if "1 \<le> k" "k \<le> 13" for k
  proof (cases "k = 13")
    case True
    then show ?thesis using j month_13 [OF m(3)] by simp
  next
    case False
    then have "proper_date y k 1" using that m(3) month_len_bounds [of k y] by (simp add: proper_date_def valid_date_def)
    then show ?thesis using y day_of_less [of y k 1 294277 1 1] by (auto intro!: day_of_ge_1)
  qed
  have "day_of 1 1 1 \<le> round_day f y m d \<and> round_day f y m d < day_of 294277 1 1"
    using f j k [of 1] k [of m] k [of "m + 1"] k [of "(m - 1) div 3 * 3 + 1"] k [of "(m - 1) div 3 * 3 + 4"] m q
    by (elim insertE emptyE) (simp_all add: round_day_def Let_def)
  then show "day_of 1 1 1 \<le> round_day f y m d" "round_day f y m d < day_of 294277 1 1" by auto
qed

text \<open>
  C17 (ROUND to year, quarter, month): in the years 1 to 294275, ROUND of a DATE gives midnight of the first day of the
  nearest month (turning on the 16th), quarter (turning on the 16th of its second month)
  or year (turning on July 1); the time of day never matters.
\<close>

theorem round_calendar:
  assumes t: "IS_VALID_TIMESTAMP t" "date_of t = (y, m, d)" "1 \<le> y" "y < 294276" and s: "t mod USECS_PER_SEC = 0"
    and f: "fmt_search env fmt = Inr f" "f \<in> {fmt_YYYY, fmt_MON, fmt_Q}"
  shows "ora_round env t (Some fmt) = Inr (stamp (round_day f y m d) 0)"
proof -
  note v = valid_date_of [OF t(1,2)]
  have m: "1 \<le> m" "m \<le> 12" using v(5) by (auto simp: valid_date_def)
  obtain tm where tm: "timestamp2tm env False t = Some (tm, 0, 0)" "tm_year tm = y" "tm_mon tm = m" "tm_mday tm = d"
    using timestamp2tm_whole_seconds [OF t(1) s] t(2) by (metis prod.inject)
  obtain b where b: "tm_round_rule env tm f = Inr b" using f(2) by (auto simp: tm_round_rule_def)
  define d1 where "d1 = (if b \<and> tm_hour tm \<ge> 12 then d + 1 else d)"
  let ?r = "round_day f y m d" and ?tm = "set_date tm (round_day f y m d)\<lparr>tm_sec := 0\<rparr>"
  have o: "ora_date_round env (day_of y m d1) f = Inr ?r"
    using ora_date_round_calendar [OF v(1) t(3) v(4) f(2), of env] round_day_carry [OF v(1) t(3,4) f(2) tm(2-4)] b
    by (simp add: d1_def)
  have tr: "tm_round env tm fmt = Inr ?tm"
    using f(2) o t(3) m b by (cases b; cases "tm_hour tm \<ge> 12") (auto simp: tm_round_def f(1) tm DATE2J_raw d1_def)
  have rb: "day_of 1 1 1 \<le> ?r" "?r < day_of 294277 1 1"
    using round_day_range [OF v(1) t(3,4) f(2)] by auto
  have "tm2timestamp env ?tm 0 None = Inr (Some (stamp ?r 0))"
    by (rule tm2timestamp_day [OF rb]) (auto simp: set_date_def time2t_def split: prod.split)
  then show ?thesis using tm(1) tr by (simp add: ora_round_def valid_not_infinite [OF t(1)])
qed

theorem round_calendar_witness:
  "ora_round utc_session 788963445000000 (Some ''Q'') = Inr (stamp (day_of 2025 1 1) 0)"
proof -
  have "date_of 788963445000000 = (2024, 12, 31)" "IS_VALID_TIMESTAMP 788963445000000" "fmt_search utc_session ''Q'' = Inr fmt_Q"
    "788963445000000 mod USECS_PER_SEC = 0" "round_day fmt_Q 2024 12 31 = day_of 2025 1 1"
    by code_simp+
  with round_calendar [of 788963445000000 2024 12 31 utc_session "''Q''" fmt_Q] show ?thesis by simp
qed

end
