(* ===== verification/Dbms_Output.thy ===== *)
theory Dbms_Output
  imports Ora_Prelude
begin

text \<open>
  The package DBMS\_OUTPUT
  (src/contrib/ivorysql\_ora/src/builtin\_packages/dbms\_output/dbms\_output.c): a buffer of lines per
  session, kept as a singly linked list with a head and a tail pointer.

  The model has the list at pointer level: \<open>heap\<close> maps the addresses of the allocated
  nodes to their contents, \<open>brk\<close> is the next address \<open>palloc\<close> hands out, and following a
  pointer to a freed node is the error \<open>BadPointer\<close>. The global \<open>output_buffer\<close> is an
  \<open>out_buffer option\<close>. An operation returns the error it raises or its value, and
  the state it leaves, since raising an error does not undo what was done before.
  Texts are strings without NUL. Counters do not wrap and allocations do not fail: the limits of
  \<open>2 ^ 31\<close> lines and of 1 GB per allocation and per result array are not modelled.
\<close>

section \<open>State\<close>

record out_line =
  line_next :: "nat option"
  line_len :: int
  line_data :: string

record out_buffer =
  head :: "nat option"
  tail :: "nat option"
  buffer_size :: int
  buffer_used :: int
  line_count :: int
  enabled :: bool
  current_line :: string
  heap :: "nat \<rightharpoonup> out_line"
  brk :: nat

datatype out_error =
    ORU_10027 int       \<comment> \<open>buffer overflow, with the limit\<close>
  | ORU_10028           \<comment> \<open>line length overflow\<close>
  | BadPointer          \<comment> \<open>use of a node that is not allocated: undefined in C\<close>

datatype out_value = Void | Line "string option" int | Lines "string option list" int

type_synonym out_state = "out_buffer option"
type_synonym 'a out_result = "(out_error, 'a) res"

definition DBMS_OUTPUT_MAX_LINE_LENGTH :: int where "DBMS_OUTPUT_MAX_LINE_LENGTH = 32767"
definition DBMS_OUTPUT_MIN_BUFFER_SIZE :: int where "DBMS_OUTPUT_MIN_BUFFER_SIZE = 2000"
definition DBMS_OUTPUT_UNLIMITED :: int where "DBMS_OUTPUT_UNLIMITED = - 1"
definition DBMS_OUTPUT_NULL_LINE_LEN :: int where "DBMS_OUTPUT_NULL_LINE_LEN = - 1"

lemmas out_consts = DBMS_OUTPUT_MAX_LINE_LENGTH_def DBMS_OUTPUT_MIN_BUFFER_SIZE_def
  DBMS_OUTPUT_UNLIMITED_def DBMS_OUTPUT_NULL_LINE_LEN_def

section \<open>Operations\<close>

definition new_output_buffer :: "int \<Rightarrow> out_buffer" where
  "new_output_buffer sz =
     \<lparr>head = None, tail = None, buffer_size = sz, buffer_used = 0, line_count = 0, enabled = True,
      current_line = [], heap = Map.empty, brk = 0\<rparr>"

text \<open>Deleting the memory context frees the lines and the pending text, then the structure is freed.\<close>

definition cleanup_output_buffer :: "out_state \<Rightarrow> out_state" where
  "cleanup_output_buffer s = None"

definition init_output_buffer :: "int \<Rightarrow> out_state \<Rightarrow> out_state" where
  "init_output_buffer sz s =
     (case s of
        Some b \<Rightarrow>
          if enabled b then Some (b\<lparr>buffer_size := sz\<rparr>)
          else (case cleanup_output_buffer s of None \<Rightarrow> Some (new_output_buffer sz) | Some b \<Rightarrow> Some b)
      | None \<Rightarrow> Some (new_output_buffer sz))"

definition add_line_to_buffer :: "string option \<Rightarrow> int \<Rightarrow> out_buffer \<Rightarrow> unit out_result \<times> out_buffer" where
  "add_line_to_buffer line len b =
     (if buffer_size b \<noteq> DBMS_OUTPUT_UNLIMITED \<and> len > buffer_size b - buffer_used b
      then (Inl (ORU_10027 (buffer_size b)), b)
      else
        (let node = (case line of
             None \<Rightarrow> \<lparr>line_next = None, line_len = DBMS_OUTPUT_NULL_LINE_LEN, line_data = []\<rparr>
           | Some str \<Rightarrow> \<lparr>line_next = None, line_len = len, line_data = take (nat len) str\<rparr>);
             a = brk b;
             b = b\<lparr>heap := (heap b)(a \<mapsto> node), brk := Suc a\<rparr>
         in case tail b of
              None \<Rightarrow>
                (Inr (), b\<lparr>head := Some a, tail := Some a,
                           buffer_used := buffer_used b + len, line_count := line_count b + 1\<rparr>)
            | Some t \<Rightarrow>
                (case heap b t of
                   None \<Rightarrow> (Inl BadPointer, b)
                 | Some prev \<Rightarrow>
                     (Inr (), b\<lparr>heap := (heap b)(t \<mapsto> prev\<lparr>line_next := Some a\<rparr>), tail := Some a,
                                buffer_used := buffer_used b + len, line_count := line_count b + 1\<rparr>))))"

text \<open>The node taken off the list stays allocated: the caller frees it.\<close>

definition pop_line_from_buffer :: "out_buffer \<Rightarrow> (nat \<times> out_line) option out_result \<times> out_buffer" where
  "pop_line_from_buffer b =
     (case head b of
        None \<Rightarrow> (Inr None, b)
      | Some a \<Rightarrow>
          (case heap b a of
             None \<Rightarrow> (Inl BadPointer, b)
           | Some node \<Rightarrow>
               (let b = b\<lparr>head := line_next node\<rparr>;
                    b = (if head b = None then b\<lparr>tail := None\<rparr> else b);
                    b = (if line_len node > 0 then b\<lparr>buffer_used := buffer_used b - line_len node\<rparr> else b);
                    b = b\<lparr>line_count := line_count b - 1\<rparr>
                in (Inr (Some (a, node)), b))))"

definition pfree :: "nat \<Rightarrow> out_buffer \<Rightarrow> out_buffer" where
  "pfree a b = b\<lparr>heap := (heap b)(a := None)\<rparr>"

definition line_text :: "out_line \<Rightarrow> string option" where
  "line_text node =
     (if line_len node = DBMS_OUTPUT_NULL_LINE_LEN then None else Some (take (nat (line_len node)) (line_data node)))"

definition ora_dbms_output_enable :: "int option \<Rightarrow> out_state \<Rightarrow> out_value out_result \<times> out_state" where
  "ora_dbms_output_enable arg s =
     (let sz = (case arg of
          None \<Rightarrow> DBMS_OUTPUT_UNLIMITED
        | Some n \<Rightarrow> if n < DBMS_OUTPUT_MIN_BUFFER_SIZE then DBMS_OUTPUT_MIN_BUFFER_SIZE else n)
      in (Inr Void, init_output_buffer sz s))"

definition ora_dbms_output_disable :: "out_state \<Rightarrow> out_value out_result \<times> out_state" where
  "ora_dbms_output_disable s = (Inr Void, cleanup_output_buffer s)"

definition ora_dbms_output_put_line :: "string option \<Rightarrow> out_state \<Rightarrow> out_value out_result \<times> out_state" where
  "ora_dbms_output_put_line arg s =
     (case s of
        None \<Rightarrow> (Inr Void, s)
      | Some b \<Rightarrow>
          if \<not> enabled b then (Inr Void, s)
          else
            (let len = (case arg of None \<Rightarrow> 0 | Some str \<Rightarrow> int (length str))
             in if int (length (current_line b)) > 0 then
                  if int (length (current_line b)) + len > DBMS_OUTPUT_MAX_LINE_LENGTH then (Inl ORU_10028, s)
                  else
                    (let b = (case arg of None \<Rightarrow> b | Some str \<Rightarrow> b\<lparr>current_line := current_line b @ str\<rparr>)
                     in case add_line_to_buffer (Some (current_line b)) (int (length (current_line b))) b of
                          (Inl e, b) \<Rightarrow> (Inl e, Some b)
                        | (Inr _, b) \<Rightarrow> (Inr Void, Some (b\<lparr>current_line := []\<rparr>)))
                else
                  if len > DBMS_OUTPUT_MAX_LINE_LENGTH then (Inl ORU_10028, s)
                  else
                    (case add_line_to_buffer arg len b of
                       (Inl e, b) \<Rightarrow> (Inl e, Some b)
                     | (Inr _, b) \<Rightarrow> (Inr Void, Some b))))"

definition ora_dbms_output_put :: "string option \<Rightarrow> out_state \<Rightarrow> out_value out_result \<times> out_state" where
  "ora_dbms_output_put arg s =
     (case s of
        None \<Rightarrow> (Inr Void, s)
      | Some b \<Rightarrow>
          if \<not> enabled b then (Inr Void, s)
          else
            (case arg of
               None \<Rightarrow> (Inr Void, s)
             | Some str \<Rightarrow>
                 if int (length (current_line b)) + int (length str) > DBMS_OUTPUT_MAX_LINE_LENGTH then (Inl ORU_10028, s)
                 else (Inr Void, Some (b\<lparr>current_line := current_line b @ str\<rparr>))))"

definition ora_dbms_output_new_line :: "out_state \<Rightarrow> out_value out_result \<times> out_state" where
  "ora_dbms_output_new_line s =
     (case s of
        None \<Rightarrow> (Inr Void, s)
      | Some b \<Rightarrow>
          if \<not> enabled b then (Inr Void, s)
          else if int (length (current_line b)) > 0 then
            (case add_line_to_buffer (Some (current_line b)) (int (length (current_line b))) b of
               (Inl e, b) \<Rightarrow> (Inl e, Some b)
             | (Inr _, b) \<Rightarrow> (Inr Void, Some (b\<lparr>current_line := []\<rparr>)))
          else
            (case add_line_to_buffer (Some []) 0 b of
               (Inl e, b) \<Rightarrow> (Inl e, Some b)
             | (Inr _, b) \<Rightarrow> (Inr Void, Some b)))"

definition ora_dbms_output_get_line :: "out_state \<Rightarrow> out_value out_result \<times> out_state" where
  "ora_dbms_output_get_line s =
     (case s of
        None \<Rightarrow> (Inr (Line None 1), s)
      | Some b \<Rightarrow>
          (case pop_line_from_buffer b of
             (Inl e, b) \<Rightarrow> (Inl e, Some b)
           | (Inr None, b) \<Rightarrow> (Inr (Line None 1), Some b)
           | (Inr (Some (a, node)), b) \<Rightarrow> (Inr (Line (line_text node) 0), Some (pfree a b))))"

text \<open>The loop of \<open>get_lines\<close>: it stops early if the list ends.\<close>

fun get_lines_loop :: "nat \<Rightarrow> out_buffer \<Rightarrow> string option list out_result \<times> out_buffer" where
  "get_lines_loop 0 b = (Inr [], b)"
| "get_lines_loop (Suc n) b =
     (case pop_line_from_buffer b of
        (Inl e, b) \<Rightarrow> (Inl e, b)
      | (Inr None, b) \<Rightarrow> (Inr [], b)
      | (Inr (Some (a, node)), b) \<Rightarrow>
          (case get_lines_loop n (pfree a b) of
             (Inl e, b) \<Rightarrow> (Inl e, b)
           | (Inr ls, b) \<Rightarrow> (Inr (line_text node # ls), b)))"

definition ora_dbms_output_get_lines :: "int \<Rightarrow> out_state \<Rightarrow> out_value out_result \<times> out_state" where
  "ora_dbms_output_get_lines arg s =
     (let requested = (if arg < 0 then 0 else arg)
      in case s of
           None \<Rightarrow> (Inr (Lines [] 0), s)
         | Some b \<Rightarrow>
             if line_count b = 0 \<or> requested = 0 then (Inr (Lines [] 0), s)
             else
               (let actual = (if requested < line_count b then requested else line_count b)
                in case get_lines_loop (nat actual) b of
                     (Inl e, b) \<Rightarrow> (Inl e, Some b)
                   | (Inr ls, b) \<Rightarrow> (Inr (Lines ls (int (length ls))), Some b)))"

definition ora_dbms_output_reset :: "out_state \<Rightarrow> out_state" where
  "ora_dbms_output_reset s = (if s \<noteq> None then cleanup_output_buffer s else s)"

section \<open>Calls\<close>

datatype out_call =
    Enable "int option" | Disable | PutLine "string option" | Put "string option" | NewLine | GetLine | GetLines int | Reset

fun run_call :: "out_call \<Rightarrow> out_state \<Rightarrow> out_value out_result \<times> out_state" where
  "run_call (Enable n) s = ora_dbms_output_enable n s"
| "run_call Disable s = ora_dbms_output_disable s"
| "run_call (PutLine l) s = ora_dbms_output_put_line l s"
| "run_call (Put l) s = ora_dbms_output_put l s"
| "run_call NewLine s = ora_dbms_output_new_line s"
| "run_call GetLine s = ora_dbms_output_get_line s"
| "run_call (GetLines n) s = ora_dbms_output_get_lines n s"
| "run_call Reset s = (Inr Void, ora_dbms_output_reset s)"

text \<open>The results of a session that makes a sequence of calls, errors included, and its last state.\<close>

fun run_calls :: "('c \<Rightarrow> 's \<Rightarrow> 'r \<times> 's) \<Rightarrow> 'c list \<Rightarrow> 's \<Rightarrow> 'r list \<times> 's" where
  "run_calls step [] s = ([], s)"
| "run_calls step (c # cs) s = (let (r, s) = step c s; (rs, s) = run_calls step cs s in (r # rs, s))"

section \<open>Specification\<close>

text \<open>
  What the package promises, without pointers and counters: a queue of lines, a limit on
  the bytes in them, and the text of PUT calls that has not become a line yet.
\<close>

record out_spec =
  spec_lines :: "string option list"
  spec_limit :: int
  spec_pending :: string

definition line_bytes :: "string option \<Rightarrow> int" where
  "line_bytes l = (case l of None \<Rightarrow> 0 | Some str \<Rightarrow> int (length str))"

definition lines_bytes :: "string option list \<Rightarrow> int" where
  "lines_bytes ls = sum_list (map line_bytes ls)"

definition spec_add :: "string option \<Rightarrow> out_spec \<Rightarrow> unit out_result \<times> out_spec" where
  "spec_add l q =
     (if spec_limit q \<noteq> - 1 \<and> lines_bytes (spec_lines q) + line_bytes l > spec_limit q
      then (Inl (ORU_10027 (spec_limit q)), q)
      else (Inr (), q\<lparr>spec_lines := spec_lines q @ [l]\<rparr>))"

definition spec_flush :: "string option \<Rightarrow> bool \<Rightarrow> out_spec \<Rightarrow> out_value out_result \<times> out_spec" where
  "spec_flush l clear q =
     (case spec_add l q of (Inl e, q) \<Rightarrow> (Inl e, q)
      | (Inr _, q) \<Rightarrow> (Inr Void, if clear then q\<lparr>spec_pending := []\<rparr> else q))"

fun spec_call_on :: "out_call \<Rightarrow> out_spec \<Rightarrow> out_value out_result \<times> out_spec option" where
  "spec_call_on (Enable n) q =
     (Inr Void, Some (q\<lparr>spec_limit := (case n of None \<Rightarrow> - 1 | Some k \<Rightarrow> max k 2000)\<rparr>))"
| "spec_call_on Disable q = (Inr Void, None)"
| "spec_call_on (PutLine l) q =
     (if int (length (spec_pending q)) + line_bytes l > 32767 then (Inl ORU_10028, Some q)
      else if spec_pending q = [] then apsnd Some (spec_flush l False q)
      else (let text = spec_pending q @ (case l of None \<Rightarrow> [] | Some str \<Rightarrow> str)
            in apsnd Some (spec_flush (Some text) True (q\<lparr>spec_pending := text\<rparr>))))"
| "spec_call_on (Put l) q =
     (case l of None \<Rightarrow> (Inr Void, Some q)
      | Some str \<Rightarrow>
          if length (spec_pending q) + length str > 32767 then (Inl ORU_10028, Some q)
          else (Inr Void, Some (q\<lparr>spec_pending := spec_pending q @ str\<rparr>)))"
| "spec_call_on NewLine q = apsnd Some (spec_flush (Some (spec_pending q)) True q)"
| "spec_call_on GetLine q =
     (case spec_lines q of [] \<Rightarrow> (Inr (Line None 1), Some q)
      | l # ls \<Rightarrow> (Inr (Line l 0), Some (q\<lparr>spec_lines := ls\<rparr>)))"
| "spec_call_on (GetLines n) q =
     (let ls = take (nat n) (spec_lines q)
      in (Inr (Lines ls (int (length ls))), Some (q\<lparr>spec_lines := drop (nat n) (spec_lines q)\<rparr>)))"
| "spec_call_on Reset q = (Inr Void, None)"

fun spec_call :: "out_call \<Rightarrow> out_spec option \<Rightarrow> out_value out_result \<times> out_spec option" where
  "spec_call c (Some q) = spec_call_on c q"
| "spec_call (Enable n) None =
     (Inr Void, Some \<lparr>spec_lines = [], spec_limit = (case n of None \<Rightarrow> - 1 | Some k \<Rightarrow> max k 2000), spec_pending = []\<rparr>)"
| "spec_call GetLine None = (Inr (Line None 1), None)"
| "spec_call (GetLines n) None = (Inr (Lines [] 0), None)"
| "spec_call c None = (Inr Void, None)"

section \<open>The list in the heap\<close>

definition node_ok :: "out_line \<Rightarrow> string option \<Rightarrow> bool" where
  "node_ok n l \<longleftrightarrow> (case l of None \<Rightarrow> line_len n = - 1 | Some str \<Rightarrow> line_len n = int (length str) \<and> line_data n = str)"

fun list_at :: "(nat \<rightharpoonup> out_line) \<Rightarrow> nat option \<Rightarrow> (nat \<times> string option) list \<Rightarrow> bool" where
  "list_at h p [] \<longleftrightarrow> p = None"
| "list_at h p ((a, l) # xs) \<longleftrightarrow>
     p = Some a \<and> (case h a of None \<Rightarrow> False | Some n \<Rightarrow> node_ok n l \<and> list_at h (line_next n) xs)"

text \<open>
  The invariant: the list ends at \<open>tail\<close>, its nodes are distinct and are all that is
  allocated, the counters agree with it, and no line or pending text is too long.
\<close>

definition out_inv :: "out_buffer \<Rightarrow> (nat \<times> string option) list \<Rightarrow> bool" where
  "out_inv b xs \<longleftrightarrow>
     list_at (heap b) (head b) xs \<and> distinct (map fst xs) \<and> dom (heap b) = fst ` set xs \<and>
     (\<forall>a \<in> fst ` set xs. a < brk b) \<and>
     tail b = (if xs = [] then None else Some (fst (last xs))) \<and>
     buffer_used b = lines_bytes (map snd xs) \<and> line_count b = int (length xs) \<and>
     (\<forall>l \<in> snd ` set xs. line_bytes l \<le> 32767) \<and> length (current_line b) \<le> 32767 \<and>
     enabled b \<and> (buffer_size b = - 1 \<or> 2000 \<le> buffer_size b)"

definition out_repr :: "out_buffer \<Rightarrow> out_spec \<Rightarrow> bool" where
  "out_repr b q \<longleftrightarrow>
     (\<exists>xs. out_inv b xs \<and> spec_lines q = map snd xs) \<and> spec_limit q = buffer_size b \<and> spec_pending q = current_line b"

definition out_rel :: "out_state \<Rightarrow> out_spec option \<Rightarrow> bool" where
  "out_rel s q \<longleftrightarrow> rel_option out_repr s q"

lemma list_at_other: "a \<notin> fst ` set xs \<Longrightarrow> list_at (h(a := v)) p xs = list_at h p xs"
  by (induction h p xs rule: list_at.induct) (auto split: option.splits)

lemma list_at_snoc:
  assumes "list_at h p (xs @ [(t, l)])" "distinct (map fst (xs @ [(t, l)]))" "a \<notin> fst ` set (xs @ [(t, l)])"
    "h t = Some n" "node_ok m l'" "line_next m = None"
  shows "list_at (h(a \<mapsto> m, t \<mapsto> n\<lparr>line_next := Some a\<rparr>)) p (xs @ [(t, l), (a, l')])"
  using assms
proof (induction xs arbitrary: p)
  case Nil
  then show ?case by (auto simp: node_ok_def split: option.splits)
next
  case (Cons x xs)
  obtain b k where x: "x = (b, k)" by force
  with Cons.prems obtain n' where n': "h b = Some n'" "node_ok n' k" "p = Some b" "list_at h (line_next n') (xs @ [(t, l)])"
    by (auto split: option.splits)
  from Cons.IH [OF n'(4)] Cons.prems x n' show ?case by auto
qed

lemma lines_bytes_simps [simp]:
  "lines_bytes [] = 0" "lines_bytes (l # ls) = line_bytes l + lines_bytes ls"
  "lines_bytes (ls @ ks) = lines_bytes ls + lines_bytes ks"
  by (simp_all add: lines_bytes_def)

lemma line_bytes_nonneg: "0 \<le> line_bytes l"
  by (simp add: line_bytes_def split: option.split)

lemma add_line_overflow:
  "out_inv b xs \<Longrightarrow> buffer_size b \<noteq> - 1 \<Longrightarrow> lines_bytes (map snd xs) + len > buffer_size b \<Longrightarrow>
    add_line_to_buffer l len b = (Inl (ORU_10027 (buffer_size b)), b)"
  by (simp add: add_line_to_buffer_def out_inv_def out_consts)

lemma add_line_appends:
  assumes i: "out_inv b xs" and l: "line_bytes l \<le> 32767"
    and room: "buffer_size b = - 1 \<or> lines_bytes (map snd xs) + line_bytes l \<le> buffer_size b"
  shows "\<exists>b'. add_line_to_buffer l (line_bytes l) b = (Inr (), b') \<and> out_inv b' (xs @ [(brk b, l)])
    \<and> buffer_size b' = buffer_size b \<and> current_line b' = current_line b"
proof -
  define node where "node = (case l of
      None \<Rightarrow> \<lparr>line_next = None, line_len = DBMS_OUTPUT_NULL_LINE_LEN, line_data = []\<rparr>
    | Some str \<Rightarrow> \<lparr>line_next = None, line_len = line_bytes l, line_data = take (nat (line_bytes l)) str\<rparr>)"
  have node: "node_ok node l" "line_next node = None"
    by (simp_all add: node_def node_ok_def line_bytes_def out_consts split: option.split)
  have fresh: "brk b \<notin> fst ` set xs" using i unfolding out_inv_def by blast
  have over: "\<not> (buffer_size b \<noteq> DBMS_OUTPUT_UNLIMITED \<and> line_bytes l > buffer_size b - buffer_used b)"
    using room i by (auto simp: out_inv_def out_consts)
  show ?thesis
  proof (cases "xs = []")
    case True
    then show ?thesis using i l node over
      by (auto simp: add_line_to_buffer_def out_inv_def node_def [symmetric] Let_def)
  next
    case False
    define t where "t = fst (last xs)"
    have xs: "xs = butlast xs @ [(t, snd (last xs))]" using False by (simp add: t_def)
    have "t \<in> fst ` set xs" using False by (simp add: t_def)
    then obtain n where n: "heap b t = Some n" using i unfolding out_inv_def by blast
    have tail: "tail b = Some t" using i False by (simp add: out_inv_def t_def)
    have tne: "t \<noteq> brk b" using \<open>t \<in> fst ` set xs\<close> fresh by blast
    have "list_at ((heap b)(brk b \<mapsto> node, t \<mapsto> n\<lparr>line_next := Some (brk b)\<rparr>)) (head b)
        (butlast xs @ [(t, snd (last xs)), (brk b, l)])"
      by (rule list_at_snoc) (use i fresh n node in \<open>simp_all add: xs [symmetric] out_inv_def\<close>)
    moreover have "butlast xs @ [(t, snd (last xs)), (brk b, l)] = xs @ [(brk b, l)]" using xs by (metis append.assoc append_Cons append_Nil)
    ultimately have la: "list_at ((heap b)(brk b \<mapsto> node, t \<mapsto> n\<lparr>line_next := Some (brk b)\<rparr>)) (head b) (xs @ [(brk b, l)])"
      by simp
    have d: "dom ((heap b)(brk b \<mapsto> node, t \<mapsto> n\<lparr>line_next := Some (brk b)\<rparr>)) = insert (brk b) (fst ` set xs)"
      using i \<open>t \<in> fst ` set xs\<close> by (auto simp: out_inv_def)
    show ?thesis using i l over tail tne n la d fresh
      by (auto simp: add_line_to_buffer_def out_inv_def node_def [symmetric] Let_def less_SucI)
  qed
qed

lemma pop_empty: "out_inv b [] \<Longrightarrow> pop_line_from_buffer b = (Inr None, b)"
  by (simp add: out_inv_def pop_line_from_buffer_def)

lemma pop_takes_first:
  assumes i: "out_inv b ((a, l) # xs)"
  shows "\<exists>n b'. pop_line_from_buffer b = (Inr (Some (a, n)), b') \<and> line_text n = l \<and> out_inv (pfree a b') xs
    \<and> buffer_size (pfree a b') = buffer_size b \<and> current_line (pfree a b') = current_line b"
proof -
  obtain n where n: "head b = Some a" "heap b a = Some n" "node_ok n l" "list_at (heap b) (line_next n) xs"
    using i by (auto simp: out_inv_def split: option.splits)
  have a: "a \<notin> fst ` set xs" using i by (auto simp: out_inv_def)
  have la: "list_at ((heap b)(a := None)) (line_next n) xs" using n(4) list_at_other [OF a] by simp
  have d: "dom ((heap b)(a := None)) = fst ` set xs" using i a by (auto simp: out_inv_def)
  have nx: "line_next n = None \<longleftrightarrow> xs = []" using n(4) by (cases xs) (auto split: option.splits)
  have len: "line_bytes l = (if line_len n > 0 then line_len n else 0)"
    using n(3) by (auto simp: node_ok_def line_bytes_def split: option.splits)
  have t: "line_text n = l" using n(3) by (auto simp: node_ok_def line_text_def out_consts split: option.splits)
  show ?thesis using i n(1,2) t la d nx len
    by (auto simp: pop_line_from_buffer_def out_inv_def pfree_def Let_def)
qed

lemma get_lines_loop_takes:
  assumes "out_inv b xs" "n \<le> length xs"
  shows "\<exists>b'. get_lines_loop n b = (Inr (map snd (take n xs)), b') \<and> out_inv b' (drop n xs)
    \<and> buffer_size b' = buffer_size b \<and> current_line b' = current_line b"
  using assms
proof (induction n arbitrary: b xs)
  case (Suc n)
  then obtain a l ys where xs: "xs = (a, l) # ys" by (cases xs) auto
  obtain m b1 where p: "pop_line_from_buffer b = (Inr (Some (a, m)), b1)" "line_text m = l" "out_inv (pfree a b1) ys"
    "buffer_size (pfree a b1) = buffer_size b" "current_line (pfree a b1) = current_line b"
    using pop_takes_first [of b a l ys] Suc.prems xs by auto
  with Suc.IH [OF p(3)] Suc.prems xs show ?case by auto
qed simp

section \<open>Refinement\<close>

text \<open>
  A detailed machine simulates an abstract one: every call returns the same and keeps the
  relation. Then whole sessions return the same.
\<close>

locale call_refinement =
  fixes step :: "'c \<Rightarrow> 's \<Rightarrow> 'r \<times> 's"
    and spec :: "'c \<Rightarrow> 'q \<Rightarrow> 'r \<times> 'q"
    and R :: "'s \<Rightarrow> 'q \<Rightarrow> bool"
  assumes step_refines: "R s q \<Longrightarrow> fst (step c s) = fst (spec c q) \<and> R (snd (step c s)) (snd (spec c q))"
begin

lemma session_refines:
  "R s q \<Longrightarrow> fst (run_calls step cs s) = fst (run_calls spec cs q) \<and> R (snd (run_calls step cs s)) (snd (run_calls spec cs q))"
proof (induction cs arbitrary: s q)
  case (Cons c cs)
  obtain r s' q' where c: "step c s = (r, s')" "spec c q = (r, q')" "R s' q'"
    using step_refines [OF Cons.prems, of c] by (metis prod.collapse)
  with Cons.IH [OF c(3)] show ?case by (auto simp: split_def Let_def)
qed simp

end

lemma add_line_refines:
  assumes r: "out_repr b q" and l: "line_bytes l \<le> 32767"
  shows "\<exists>b'. add_line_to_buffer l (line_bytes l) b = (fst (spec_add l q), b') \<and> out_repr b' (snd (spec_add l q))"
proof -
  obtain xs where xs: "out_inv b xs" "spec_lines q = map snd xs" and q: "spec_limit q = buffer_size b" "spec_pending q = current_line b"
    using r by (auto simp: out_repr_def)
  show ?thesis
  proof (cases "buffer_size b \<noteq> - 1 \<and> lines_bytes (map snd xs) + line_bytes l > buffer_size b")
    case True
    then show ?thesis using add_line_overflow [OF xs(1)] xs q r by (simp add: spec_add_def)
  next
    case False
    then obtain b' where b': "add_line_to_buffer l (line_bytes l) b = (Inr (), b')" "out_inv b' (xs @ [(brk b, l)])"
      "buffer_size b' = buffer_size b" "current_line b' = current_line b"
      using add_line_appends [OF xs(1) l] by auto
    moreover have "map snd (xs @ [(brk b, l)]) = spec_lines q @ [l]" using xs(2) by simp
    ultimately show ?thesis using False xs(2) q by (auto simp: spec_add_def out_repr_def simp del: map_append)
  qed
qed

lemma spec_add_pending [simp]: "spec_pending (snd (spec_add l q)) = spec_pending q"
  by (simp add: spec_add_def)

lemma out_inv_pending: "out_inv b xs \<Longrightarrow> length text \<le> 32767 \<Longrightarrow> out_inv (b\<lparr>current_line := text\<rparr>) xs"
  by (simp add: out_inv_def)

lemma out_repr_pending:
  "out_repr b q \<Longrightarrow> length text \<le> 32767 \<Longrightarrow> out_repr (b\<lparr>current_line := text\<rparr>) (q\<lparr>spec_pending := text\<rparr>)"
  unfolding out_repr_def using out_inv_pending by fastforce

lemma out_repr_clear: "out_repr b q \<Longrightarrow> out_repr (b\<lparr>current_line := []\<rparr>) (q\<lparr>spec_pending := []\<rparr>)"
  by (rule out_repr_pending) simp_all

lemma flush_refines:
  assumes r: "out_repr b q" and l: "line_bytes l \<le> 32767"
  shows "\<exists>b'. (case add_line_to_buffer l (line_bytes l) b of
        (Inl e, b) \<Rightarrow> (Inl e, Some b)
      | (Inr _, b) \<Rightarrow> (Inr Void, Some (if clear then b\<lparr>current_line := []\<rparr> else b))) = (fst (spec_flush l clear q), Some b')
    \<and> out_repr b' (snd (spec_flush l clear q))"
proof -
  obtain b' where b': "add_line_to_buffer l (line_bytes l) b = (fst (spec_add l q), b')" "out_repr b' (snd (spec_add l q))"
    using add_line_refines [OF r l] by blast
  then show ?thesis
    by (cases "spec_add l q"; cases "fst (spec_add l q)") (auto simp: spec_flush_def out_repr_clear)
qed

lemma out_repr_facts:
  "out_repr b q \<Longrightarrow> enabled b" "out_repr b q \<Longrightarrow> spec_pending q = current_line b"
  "out_repr b q \<Longrightarrow> length (current_line b) \<le> 32767"
  unfolding out_repr_def out_inv_def by blast+

lemma put_line_refines:
  assumes r: "out_repr b q"
  shows "fst (ora_dbms_output_put_line l (Some b)) = fst (spec_call_on (PutLine l) q)
    \<and> out_rel (snd (ora_dbms_output_put_line l (Some b))) (snd (spec_call_on (PutLine l) q))"
proof -
  note f = out_repr_facts [OF r]
  have len: "(case l of None \<Rightarrow> 0 | Some str \<Rightarrow> int (length str)) = line_bytes l" by (simp add: line_bytes_def)
  show ?thesis
  proof (cases "int (length (current_line b)) + line_bytes l > 32767")
    case True
    then show ?thesis using f r line_bytes_nonneg [of l]
      by (auto simp: ora_dbms_output_put_line_def len out_rel_def out_consts Let_def)
  next
    case False
    define whole where "whole = current_line b @ (case l of None \<Rightarrow> [] | Some str \<Rightarrow> str)"
    have tl: "int (length whole) = int (length (current_line b)) + line_bytes l"
      by (simp add: whole_def line_bytes_def split: option.split)
    show ?thesis
    proof (cases "current_line b = []")
      case True
      obtain b' where "(case add_line_to_buffer l (line_bytes l) b of (Inl e, b) \<Rightarrow> (Inl e, Some b)
          | (Inr _, b) \<Rightarrow> (Inr Void, Some b)) = (fst (spec_flush l False q), Some b')" "out_repr b' (snd (spec_flush l False q))"
        using flush_refines [OF r, of l False, unfolded if_False] False True by auto
      with True False f show ?thesis
        by (simp add: ora_dbms_output_put_line_def len out_rel_def out_consts Let_def line_bytes_nonneg)
    next
      case cur: False
      define b1 q1 where "b1 = b\<lparr>current_line := whole\<rparr>" and "q1 = q\<lparr>spec_pending := whole\<rparr>"
      have b1: "(case l of None \<Rightarrow> b | Some str \<Rightarrow> b\<lparr>current_line := current_line b @ str\<rparr>) = b1"
        by (simp add: b1_def whole_def split: option.split)
      have r1: "out_repr b1 q1" unfolding b1_def q1_def using False tl by (intro out_repr_pending r) simp
      have lb: "line_bytes (Some whole) = int (length whole)" by (simp add: line_bytes_def)
      obtain b' where "(case add_line_to_buffer (Some whole) (int (length whole)) b1 of (Inl e, b) \<Rightarrow> (Inl e, Some b)
          | (Inr _, b) \<Rightarrow> (Inr Void, Some (b\<lparr>current_line := []\<rparr>))) = (fst (spec_flush (Some whole) True q1), Some b')"
          "out_repr b' (snd (spec_flush (Some whole) True q1))"
        using flush_refines [OF r1, of "Some whole" True, unfolded if_True] lb False tl by auto
      with cur False f show ?thesis
        by (simp add: ora_dbms_output_put_line_def len b1 out_rel_def out_consts Let_def q1_def [symmetric]
            whole_def [symmetric] b1_def)
    qed
  qed
qed

lemma new_line_refines:
  assumes r: "out_repr b q"
  shows "fst (ora_dbms_output_new_line (Some b)) = fst (spec_call_on NewLine q)
    \<and> out_rel (snd (ora_dbms_output_new_line (Some b))) (snd (spec_call_on NewLine q))"
proof -
  note f = out_repr_facts [OF r]
  have lb: "line_bytes (Some (current_line b)) = int (length (current_line b))" by (simp add: line_bytes_def)
  obtain b' where b': "(case add_line_to_buffer (Some (current_line b)) (int (length (current_line b))) b of (Inl e, b) \<Rightarrow> (Inl e, Some b)
        | (Inr _, b) \<Rightarrow> (Inr Void, Some (b\<lparr>current_line := []\<rparr>))) = (fst (spec_flush (Some (current_line b)) True q), Some b')"
      "out_repr b' (snd (spec_flush (Some (current_line b)) True q))"
    using flush_refines [OF r, of "Some (current_line b)" True, unfolded if_True] lb f(3) by auto
  moreover have "(case add_line_to_buffer (Some []) 0 b of (Inl e, b) \<Rightarrow> (Inl e, Some b) | (Inr _, b) \<Rightarrow> (Inr Void, Some b)) =
      (case add_line_to_buffer (Some []) 0 b of (Inl e, b) \<Rightarrow> (Inl e, Some b)
        | (Inr _, b) \<Rightarrow> (Inr Void, Some (b\<lparr>current_line := []\<rparr>)))" if "current_line b = []"
    using that by (auto simp: add_line_to_buffer_def Let_def split: option.splits)
  ultimately show ?thesis using f
    by (cases "current_line b = []") (auto simp: ora_dbms_output_new_line_def out_rel_def)
qed

lemma get_line_refines:
  assumes "out_repr b q"
  shows "fst (ora_dbms_output_get_line (Some b)) = fst (spec_call_on GetLine q)
    \<and> out_rel (snd (ora_dbms_output_get_line (Some b))) (snd (spec_call_on GetLine q))"
proof -
  obtain xs where xs: "out_inv b xs" "spec_lines q = map snd xs" and q: "spec_limit q = buffer_size b" "spec_pending q = current_line b"
    using assms by (auto simp: out_repr_def)
  show ?thesis
  proof (cases xs)
    case Nil
    then show ?thesis using pop_empty xs assms by (simp add: ora_dbms_output_get_line_def out_rel_def)
  next
    case (Cons x ys)
    obtain a l where "x = (a, l)" by force
    then obtain n b' where "pop_line_from_buffer b = (Inr (Some (a, n)), b')" "line_text n = l" "out_inv (pfree a b') ys"
      "buffer_size (pfree a b') = buffer_size b" "current_line (pfree a b') = current_line b"
      using pop_takes_first [of b a l ys] xs(1) Cons by auto
    then show ?thesis using Cons \<open>x = (a, l)\<close> xs(2) q by (auto simp: ora_dbms_output_get_line_def out_rel_def out_repr_def)
  qed
qed

lemma get_lines_refines:
  assumes "out_repr b q"
  shows "fst (ora_dbms_output_get_lines n (Some b)) = fst (spec_call_on (GetLines n) q)
    \<and> out_rel (snd (ora_dbms_output_get_lines n (Some b))) (snd (spec_call_on (GetLines n) q))"
proof -
  obtain xs where xs: "out_inv b xs" "spec_lines q = map snd xs" and q: "spec_limit q = buffer_size b" "spec_pending q = current_line b"
    using assms by (auto simp: out_repr_def)
  have c: "line_count b = int (length xs)" using xs(1) by (simp add: out_inv_def)
  define k where "k = (if n < int (length xs) then nat n else length xs)"
  have tk: "take k xs = take (nat n) xs" "drop k xs = drop (nat n) xs" "k \<le> length xs" by (auto simp: k_def)
  obtain b' where "get_lines_loop k b = (Inr (map snd (take (nat n) xs)), b')" "out_inv b' (drop (nat n) xs)"
    "buffer_size b' = buffer_size b" "current_line b' = current_line b"
    using get_lines_loop_takes [OF xs(1) tk(3)] unfolding tk(1,2) by blast
  moreover have "nat (if n < int (length xs) then n else int (length xs)) = k" by (simp add: k_def)
  moreover have "q\<lparr>spec_lines := drop (nat n) (map snd xs)\<rparr> = q" if "xs = [] \<or> n \<le> 0" using that xs(2) by auto
  ultimately show ?thesis using xs q c assms
    by (cases "xs = [] \<or> n \<le> 0")
      (auto simp: ora_dbms_output_get_lines_def out_rel_def Let_def take_map drop_map out_repr_def [of b']
        dest: map_eq_imp_length_eq)
qed

lemma out_inv_size: "out_inv b xs \<Longrightarrow> n = - 1 \<or> 2000 \<le> n \<Longrightarrow> out_inv (b\<lparr>buffer_size := n\<rparr>) xs"
  by (simp add: out_inv_def)

lemma out_repr_size:
  "out_repr b q \<Longrightarrow> n = - 1 \<or> 2000 \<le> n \<Longrightarrow> out_repr (b\<lparr>buffer_size := n\<rparr>) (q\<lparr>spec_limit := n\<rparr>)"
  unfolding out_repr_def using out_inv_size by fastforce

lemma run_call_refines:
  assumes "out_rel s q"
  shows "fst (run_call c s) = fst (spec_call c q) \<and> out_rel (snd (run_call c s)) (snd (spec_call c q))"
proof (cases s)
  case None
  then have "q = None" using assms by (simp add: out_rel_def)
  with None show ?thesis
    by (cases c) (auto simp: ora_dbms_output_enable_def ora_dbms_output_disable_def ora_dbms_output_put_line_def
        ora_dbms_output_put_def ora_dbms_output_new_line_def ora_dbms_output_get_line_def ora_dbms_output_get_lines_def
        ora_dbms_output_reset_def cleanup_output_buffer_def init_output_buffer_def new_output_buffer_def
        out_rel_def out_repr_def out_inv_def out_consts Let_def split: option.splits)
next
  case (Some b)
  then obtain p where q: "q = Some p" "out_repr b p" using assms by (auto simp: out_rel_def option_rel_Some1)
  note f = out_repr_facts [OF q(2)]
  show ?thesis
  proof (cases c)
    case (Enable n)
    define sz where "sz = (case n of None \<Rightarrow> - 1 | Some k \<Rightarrow> max k 2000)"
    have "sz = - 1 \<or> 2000 \<le> sz" by (simp add: sz_def split: option.split)
    from out_repr_size [OF q(2) this] f(1) show ?thesis unfolding Enable Some q(1)
      by (simp add: ora_dbms_output_enable_def init_output_buffer_def out_rel_def out_consts Let_def
          sz_def max_def not_le split: option.splits if_splits)
  next
    case (Put l)
    then show ?thesis using Some q f
      by (auto simp: ora_dbms_output_put_def out_rel_def out_consts split: option.splits intro: out_repr_pending)
  qed (use Some q put_line_refines [OF q(2)] new_line_refines [OF q(2)] get_line_refines [OF q(2)] get_lines_refines [OF q(2)]
      in \<open>simp_all add: ora_dbms_output_disable_def ora_dbms_output_reset_def cleanup_output_buffer_def out_rel_def [of None]
        del: spec_call_on.simps(3,5-7)\<close>)
qed

interpretation out: call_refinement run_call spec_call out_rel
  by unfold_locales (rule run_call_refines)

section \<open>The list as a queue\<close>

text \<open>What a client of a queue of lines relies on.\<close>

locale fifo_queue =
  fixes holds :: "'s \<Rightarrow> 'a list \<Rightarrow> bool"
    and ok :: "'a \<Rightarrow> bool"
    and enq :: "'a \<Rightarrow> 's \<Rightarrow> 's"
    and deq :: "'s \<Rightarrow> 'a option \<times> 's"
  assumes enq_last: "holds s xs \<Longrightarrow> ok x \<Longrightarrow> holds (enq x s) (xs @ [x])"
    and deq_first: "holds s (x # xs) \<Longrightarrow> fst (deq s) = Some x \<and> holds (snd (deq s)) xs"
    and deq_empty: "holds s [] \<Longrightarrow> deq s = (None, s)"
begin

lemma enq_all: "holds s xs \<Longrightarrow> (\<And>y. y \<in> set ys \<Longrightarrow> ok y) \<Longrightarrow> holds (fold enq ys s) (xs @ ys)"
proof (induction ys arbitrary: s xs)
  case (Cons y ys)
  from Cons.IH [OF enq_last [OF Cons.prems(1)]] Cons.prems(2) show ?case by auto
qed simp

lemma deq_after_enq_all:
  assumes "holds s []" "\<And>y. y \<in> set (y # ys) \<Longrightarrow> ok y"
  shows "fst (deq (fold enq (y # ys) s)) = Some y \<and> holds (snd (deq (fold enq (y # ys) s))) ys"
  using deq_first enq_all [of s "[]" "y # ys"] assms by simp

end

definition line_enq :: "string option \<Rightarrow> out_buffer \<Rightarrow> out_buffer" where
  "line_enq l b = snd (add_line_to_buffer l (line_bytes l) b)"

definition line_deq :: "out_buffer \<Rightarrow> string option option \<times> out_buffer" where
  "line_deq b = (case pop_line_from_buffer b of
      (Inr (Some (a, n)), b) \<Rightarrow> (Some (line_text n), pfree a b) | (_, b) \<Rightarrow> (None, b))"

definition holds_lines :: "out_buffer \<Rightarrow> string option list \<Rightarrow> bool" where
  "holds_lines b ls \<longleftrightarrow> buffer_size b = - 1 \<and> (\<exists>xs. out_inv b xs \<and> map snd xs = ls)"

interpretation lq: fifo_queue holds_lines "\<lambda>l. line_bytes l \<le> 32767" line_enq line_deq
proof
  show "holds_lines (line_enq l b) (ls @ [l])" if h: "holds_lines b ls" and l: "line_bytes l \<le> 32767" for b ls l
  proof -
    obtain xs where "out_inv b xs" "map snd xs = ls" "buffer_size b = - 1" using h by (auto simp: holds_lines_def)
    with add_line_appends [OF this(1) l] have "\<exists>b'. line_enq l b = b' \<and> out_inv b' (xs @ [(brk b, l)]) \<and> buffer_size b' = - 1"
      by (auto simp: line_enq_def)
    moreover have "map snd (xs @ [(brk b, l)]) = ls @ [l]" using \<open>map snd xs = ls\<close> by simp
    ultimately show ?thesis unfolding holds_lines_def by blast
  qed
  show "fst (line_deq b) = Some l \<and> holds_lines (snd (line_deq b)) ls" if h: "holds_lines b (l # ls)" for b l ls
  proof -
    obtain a xs where xs: "out_inv b ((a, l) # xs)" "map snd xs = ls" "buffer_size b = - 1"
      using h by (auto simp: holds_lines_def map_eq_Cons_conv)
    obtain n b' where "pop_line_from_buffer b = (Inr (Some (a, n)), b')" "line_text n = l" "out_inv (pfree a b') xs"
      "buffer_size (pfree a b') = buffer_size b"
      using pop_takes_first [OF xs(1)] by blast
    then show ?thesis using xs by (auto simp: line_deq_def holds_lines_def)
  qed
  show "line_deq b = (None, b)" if "holds_lines b []" for b
    using that pop_empty by (auto simp: holds_lines_def line_deq_def)
qed

section \<open>Properties\<close>

text \<open>
  C2 (DBMS\_OUTPUT refines its specification): every session, whatever calls it makes in
  whatever order, gets the same results from the linked list implementation as from the
  specification by a queue of lines.
\<close>

theorem output_sessions_refine:
  "fst (run_calls run_call cs None) = fst (run_calls spec_call cs None)"
  using out.session_refines [of None None cs] by (simp add: out_rel_def)

lemma spec_call_no_bad_pointer: "fst (spec_call c q) \<noteq> Inl BadPointer"
  by (cases "(c, q)" rule: spec_call.cases; cases c)
    (auto simp: spec_flush_def spec_add_def Let_def split: option.splits list.splits)

lemma spec_session_no_bad_pointer: "Inl BadPointer \<notin> set (fst (run_calls spec_call cs q))"
proof (induction cs arbitrary: q)
  case (Cons c cs)
  then show ?case using spec_call_no_bad_pointer [of c q] by (auto simp: split_def Let_def)
qed simp

text \<open>
  C10 (memory safety): no session ever follows a pointer to a line that is not allocated, neither on
  reading a line that was freed nor on appending after the buffer has been drained.
\<close>

theorem output_memory_safe:
  "Inl BadPointer \<notin> set (fst (run_calls run_call cs None))"
  using out.session_refines [of None None cs] spec_session_no_bad_pointer [of cs None] by (simp add: out_rel_def)

text \<open>
  C30 (accounting): after any session the counters are right (the bytes used are the bytes of the
  unread lines, the line count is their number), head and tail delimit the list, no
  line is longer than 32767 bytes, and exactly the unread lines are allocated: nothing
  leaks.
\<close>

theorem output_invariant:
  assumes "snd (run_calls run_call cs None) = Some b"
  shows "\<exists>xs. out_inv b xs"
  using out.session_refines [of None None cs] assms by (auto simp: out_rel_def option_rel_Some1 out_repr_def)

theorem output_invariant_witness:
  "\<exists>b xs. snd (run_calls run_call [Enable None, Put (Some ''a''), PutLine (Some ''bc''), PutLine None] None) = Some b \<and> out_inv b xs"
proof -
  obtain b where "snd (run_calls run_call [Enable None, Put (Some ''a''), PutLine (Some ''bc''), PutLine None] None) = Some b"
    by (simp add: Let_def split_def ora_dbms_output_enable_def ora_dbms_output_put_def ora_dbms_output_put_line_def
        init_output_buffer_def new_output_buffer_def add_line_to_buffer_def out_consts)
  with output_invariant [OF this] show ?thesis by blast
qed

lemma put_line_enq:
  assumes h: "holds_lines b ls" and c: "current_line b = []" and l: "line_bytes l \<le> 32767"
  shows "ora_dbms_output_put_line l (Some b) = (Inr Void, Some (line_enq l b))" "current_line (line_enq l b) = []"
proof -
  obtain xs where xs: "out_inv b xs" "buffer_size b = - 1" using h by (auto simp: holds_lines_def)
  then have "enabled b" by (simp add: out_inv_def)
  then show "ora_dbms_output_put_line l (Some b) = (Inr Void, Some (line_enq l b))" "current_line (line_enq l b) = []"
    using add_line_appends [OF xs(1) l] xs(2) c l
    by (auto simp: ora_dbms_output_put_line_def line_enq_def out_consts Let_def line_bytes_def split: option.splits)
qed

lemma put_lines_enq:
  assumes "holds_lines b ls" "current_line b = []" "\<And>l. l \<in> set ks \<Longrightarrow> line_bytes l \<le> 32767"
  shows "snd (run_calls run_call (map PutLine ks) (Some b)) = Some (fold line_enq ks b)"
  using assms
proof (induction ks arbitrary: b ls)
  case (Cons k ks)
  have "line_bytes k \<le> 32767" using Cons.prems(3) by simp
  note p = put_line_enq [OF Cons.prems(1,2) this] and h = lq.enq_last [OF Cons.prems(1) this]
  from Cons.IH [OF h p(2)] Cons.prems(3) p(1) show ?case by (simp add: split_def Let_def)
qed simp

text \<open>
  First in, first out: lines put into an unlimited buffer come back from GET\_LINES in the order they were
  put, as many as were asked for, NULL lines as NULL.
\<close>

theorem lines_come_back_in_order:
  assumes "\<And>l. l \<in> set ls \<Longrightarrow> line_bytes l \<le> 32767"
  shows "fst (ora_dbms_output_get_lines n (snd (run_calls run_call (Enable None # map PutLine ls) None)))
    = Inr (Lines (take (nat n) ls) (int (length (take (nat n) ls))))"
proof -
  let ?b = "new_output_buffer (- 1)"
  have h: "holds_lines ?b []" by (simp add: holds_lines_def out_inv_def new_output_buffer_def)
  define b where "b = fold line_enq ls ?b"
  have "snd (run_calls run_call (map PutLine ls) (Some ?b)) = Some b"
    unfolding b_def by (rule put_lines_enq [OF h]) (use assms in \<open>auto simp: new_output_buffer_def\<close>)
  then have s: "snd (run_calls run_call (Enable None # map PutLine ls) None) = Some b"
    by (simp add: ora_dbms_output_enable_def init_output_buffer_def out_consts split_def Let_def)
  have "holds_lines b ls" using lq.enq_all [OF h, of ls] assms by (simp add: b_def)
  then have "out_repr b \<lparr>spec_lines = ls, spec_limit = buffer_size b, spec_pending = current_line b\<rparr>"
    by (auto simp: holds_lines_def out_repr_def)
  from get_lines_refines [OF this, of n] show ?thesis unfolding s by (simp add: Let_def)
qed

theorem lines_come_back_in_order_witness:
  "fst (ora_dbms_output_get_lines 2 (snd (run_calls run_call (Enable None # map PutLine [Some ''x'', None, Some ''yz'']) None)))
    = Inr (Lines [Some ''x'', None] 2)"
proof -
  have "line_bytes l \<le> 32767" if "l \<in> set [Some ''x'', None, Some ''yz'']" for l
    using that by (auto simp: line_bytes_def)
  note lines_come_back_in_order [of "[Some ''x'', None, Some ''yz'']" 2, OF this]
  moreover have "take (nat 2) [Some ''x'', None, Some ''yz''] = [Some ''x'', None]" by simp
  ultimately show ?thesis by (simp only: list.size) simp
qed

text \<open>
  C38 (failed PUT\_LINE): a PUT\_LINE that fails because the line does not fit the buffer changes nothing when no
  text is pending. When PUT has left pending text, the error leaves the argument appended to it: the call
  is not without effect, and repeating it doubles its text.
\<close>

theorem put_line_overflow_keeps_text:
  assumes "ora_dbms_output_put_line (Some str) (Some b) = (Inl (ORU_10027 n), s)"
  shows "s = Some (if current_line b = [] then b else b\<lparr>current_line := current_line b @ str\<rparr>)"
  using assms
  by (auto simp: ora_dbms_output_put_line_def add_line_to_buffer_def Let_def split: if_splits prod.splits sum.splits option.splits)

theorem put_line_overflow_keeps_text_witness:
  "\<exists>b s. b = (new_output_buffer 2000)\<lparr>current_line := ''ab'', buffer_used := 1999\<rparr>
     \<and> ora_dbms_output_put_line (Some ''cd'') (Some b) = (Inl (ORU_10027 2000), s)
     \<and> s = Some (b\<lparr>current_line := ''abcd''\<rparr>)"
proof -
  define b where "b = (new_output_buffer 2000)\<lparr>current_line := ''ab'', buffer_used := 1999\<rparr>"
  obtain s where "ora_dbms_output_put_line (Some ''cd'') (Some b) = (Inl (ORU_10027 2000), s)"
    by (simp add: b_def ora_dbms_output_put_line_def new_output_buffer_def add_line_to_buffer_def out_consts)
  with put_line_overflow_keeps_text [OF this] show ?thesis
    by (intro exI [of _ b] exI [of _ s]) (simp add: b_def)
qed

end
