(* ===== verification/Pg_Base64.thy ===== *)
theory Pg_Base64
  imports Ora_Prelude
begin

text \<open>
  Base64 as the server implements it (src/src/common/base64.c): \<open>pg_b64_encode\<close>,
  \<open>pg_b64_decode\<close> and the two length functions.

  Bytes and characters are \<open>8 word\<close>, the bit buffer is a \<open>32 word\<close>. The destination is
  written front to back, so it is the list of the bytes written so far; \<open>dstlen\<close> is its
  capacity. \<open>None\<close> is the return value -1.
\<close>

unbundle bit_operations_syntax

section \<open>Code\<close>

definition base64_table :: bytes where
  "base64_table = map of_char
     ''ABCDEFGHIJKLMNOPQRSTUVWXYZabcdefghijklmnopqrstuvwxyz0123456789+/''"

definition b64lookup :: "int list" where
  "b64lookup =
    [-1, -1, -1, -1, -1, -1, -1, -1, -1, -1, -1, -1, -1, -1, -1, -1,
     -1, -1, -1, -1, -1, -1, -1, -1, -1, -1, -1, -1, -1, -1, -1, -1,
     -1, -1, -1, -1, -1, -1, -1, -1, -1, -1, -1, 62, -1, -1, -1, 63,
     52, 53, 54, 55, 56, 57, 58, 59, 60, 61, -1, -1, -1, -1, -1, -1,
     -1, 0, 1, 2, 3, 4, 5, 6, 7, 8, 9, 10, 11, 12, 13, 14,
     15, 16, 17, 18, 19, 20, 21, 22, 23, 24, 25, -1, -1, -1, -1, -1,
     -1, 26, 27, 28, 29, 30, 31, 32, 33, 34, 35, 36, 37, 38, 39, 40,
     41, 42, 43, 44, 45, 46, 47, 48, 49, 50, 51, -1, -1, -1, -1, -1]"

text \<open>\<open>_base64[(buf >> k) & 0x3f]\<close>\<close>

definition b64_digit :: "nat \<Rightarrow> 32 word \<Rightarrow> byte" where
  "b64_digit k buf = base64_table ! unat (drop_bit k buf AND 0x3f)"

fun b64_encode_loop :: "int \<Rightarrow> bytes \<Rightarrow> int \<Rightarrow> 32 word \<Rightarrow> bytes \<Rightarrow> (int \<times> 32 word \<times> bytes) option" where
  "b64_encode_loop dstlen [] pos buf p = Some (pos, buf, p)"
| "b64_encode_loop dstlen (s # ss) pos buf p =
     (let buf = buf OR push_bit (nat (pos * 8)) (ucast s);
          pos = pos - 1
      in if pos < 0 then
           if int (length p) + 4 > dstlen then None
           else b64_encode_loop dstlen ss 2 0
                  (p @ [b64_digit 18 buf, b64_digit 12 buf, b64_digit 6 buf, b64_digit 0 buf])
         else b64_encode_loop dstlen ss pos buf p)"

definition pg_b64_encode :: "bytes \<Rightarrow> int \<Rightarrow> bytes option" where
  "pg_b64_encode src dstlen =
     (case b64_encode_loop dstlen src 2 0 [] of
        None \<Rightarrow> None
      | Some (pos, buf, p) \<Rightarrow>
          if pos \<noteq> 2 then
            if int (length p) + 4 > dstlen then None
            else Some (p @ [b64_digit 18 buf, b64_digit 12 buf,
                            if pos = 0 then b64_digit 6 buf else of_char (CHR ''=''), of_char (CHR ''='')])
          else Some p)"

text \<open>The bytes a complete group of four characters writes, with the checks of the capacity.\<close>

definition put_byte :: "int \<Rightarrow> byte \<Rightarrow> bytes \<Rightarrow> bytes option" where
  "put_byte dstlen b p = (if int (length p) + 1 > dstlen then None else Some (p @ [b]))"

definition b64_emit :: "int \<Rightarrow> 32 word \<Rightarrow> int \<Rightarrow> bytes \<Rightarrow> bytes option" where
  "b64_emit dstlen buf fin p =
     Option.bind (put_byte dstlen (ucast (drop_bit 16 buf AND 255)) p) (\<lambda>p.
     Option.bind (if fin = 0 \<or> fin > 1 then put_byte dstlen (ucast (drop_bit 8 buf AND 255)) p else Some p) (\<lambda>p.
     if fin = 0 \<or> fin > 2 then put_byte dstlen (ucast (buf AND 255)) p else Some p))"

fun b64_decode_loop :: "int \<Rightarrow> bytes \<Rightarrow> 32 word \<Rightarrow> int \<Rightarrow> int \<Rightarrow> bytes \<Rightarrow> bytes option" where
  "b64_decode_loop dstlen [] buf pos fin p = (if pos \<noteq> 0 then None else Some p)"
| "b64_decode_loop dstlen (c # cs) buf pos fin p =
     (if c = of_char (CHR '' '') \<or> c = 9 \<or> c = 10 \<or> c = 13 then None
      else if c = of_char (CHR ''='') \<and> fin = 0 \<and> pos \<noteq> 2 \<and> pos \<noteq> 3 then None
      else
        (let fin = (if c = of_char (CHR ''='') \<and> fin = 0 then if pos = 2 then 1 else 2 else fin);
             b = (if c = of_char (CHR ''='') then 0
                  else if 0 < uint c \<and> uint c < 127 then b64lookup ! unat c else - 1)
         in if b < 0 then None
            else
              (let buf = push_bit 6 buf + word_of_int b;
                   pos = pos + 1
               in if pos = 4 then
                    (case b64_emit dstlen buf fin p of
                       None \<Rightarrow> None
                     | Some p \<Rightarrow> b64_decode_loop dstlen cs 0 0 fin p)
                  else b64_decode_loop dstlen cs buf pos fin p)))"

definition pg_b64_decode :: "bytes \<Rightarrow> int \<Rightarrow> bytes option" where
  "pg_b64_decode src dstlen = b64_decode_loop dstlen src 0 0 0 []"

definition pg_b64_enc_len :: "int \<Rightarrow> int" where
  "pg_b64_enc_len srclen = wrap32 ((srclen + 2) sdiv 3 * 4)"

definition pg_b64_dec_len :: "int \<Rightarrow> int" where
  "pg_b64_dec_len srclen = drop_bit 2 (wrap32 (srclen * 3))"

section \<open>Bits and digits\<close>

text \<open>The bit buffer as a number: three bytes make 24 bits, written as four digits to the base 64.\<close>

lemma push_ucast_byte: "push_bit k (ucast (b :: byte) :: 32 word) = of_nat (unat b * 2 ^ k)"
proof -
  have "(ucast b :: 32 word) = of_nat (unat b)" by simp
  then show ?thesis by (simp only: push_bit_eq_mult of_nat_mult of_nat_power of_nat_numeral)
qed

lemma group_buffer:
  "(0 OR push_bit 16 (ucast (a :: byte)) :: 32 word) = of_nat (unat a * 65536)"
  "(of_nat (unat a * 65536) OR push_bit 8 (ucast (b :: byte)) :: 32 word) = of_nat (unat a * 65536 + unat b * 256)"
  "(of_nat (unat a * 65536 + unat b * 256) OR push_bit 0 (ucast (c :: byte)) :: 32 word)
    = of_nat (unat a * 65536 + unat b * 256 + unat c)"
proof -
  have p: "(2 :: nat) ^ 16 = 65536" "(2 :: nat) ^ 8 = 256" by simp_all
  show "(0 OR push_bit 16 (ucast a) :: 32 word) = of_nat (unat a * 65536)"
    by (simp only: push_ucast_byte p or.left_neutral)
  show "(of_nat (unat a * 65536) OR push_bit 8 (ucast b) :: 32 word) = of_nat (unat a * 65536 + unat b * 256)"
    using or_of_nat_disjoint [of "unat b * 256" 16 "unat a"] unat_byte [of b] by (simp only: push_ucast_byte p)
  have "unat a * 65536 + unat b * 256 = (unat a * 256 + unat b) * 256" by simp
  with or_of_nat_disjoint [of "unat c" 8 "unat a * 256 + unat b"] unat_byte [of c]
  show "(of_nat (unat a * 65536 + unat b * 256) OR push_bit 0 (ucast c) :: 32 word)
      = of_nat (unat a * 65536 + unat b * 256 + unat c)"
    by (simp only: push_ucast_byte p power_0 mult_1_right)
qed

definition digit :: "nat \<Rightarrow> nat \<Rightarrow> nat" where
  "digit k x = x div 64 ^ k mod 64"

lemma b64_digit_of_nat:
  assumes "x < 2 ^ 32"
  shows "b64_digit (6 * k) (of_nat x) = base64_table ! digit k x"
proof -
  have "unat (drop_bit (6 * k) (of_nat x :: 32 word) AND 0x3f) = digit k x"
  proof -
    let ?w = "of_nat x :: 32 word"
    have w: "unat ?w = x" using assms by (simp add: unsigned_of_nat take_bit_nat_eq_self)
    have "drop_bit (6 * k) ?w AND 0x3f = take_bit 6 (drop_bit (6 * k) ?w)"
      by (simp only: take_bit_eq_mask mask_eq_exp_minus_1) simp
    then have "unat (drop_bit (6 * k) ?w AND 0x3f) = take_bit 6 (drop_bit (6 * k) (take_bit 32 x))"
      by (simp only: unsigned_take_bit_eq unsigned_drop_bit_eq w) simp
    also have "\<dots> = digit k x"
      using assms by (simp add: take_bit_nat_eq_self digit_def take_bit_eq_mod drop_bit_eq_div power_mult)
    finally show ?thesis .
  qed
  then show ?thesis by (simp add: b64_digit_def)
qed

lemma digits_value:
  assumes "x < 16777216"
  shows "((digit 3 x * 64 + digit 2 x) * 64 + digit 1 x) * 64 + digit 0 x = x"
proof -
  have d: "x div 4096 = x div 64 div 64" "x div 262144 = x div 64 div 64 div 64" by (simp_all add: div_mult2_eq [symmetric])
  have "x div 64 div 64 div 64 < 64" using assms by (simp add: div_mult2_eq [symmetric])
  then show ?thesis
    by (simp add: digit_def d)
qed

lemma digit_less: "digit k x < 64"
  by (simp add: digit_def)

text \<open>The two tables are inverse to each other, and no digit is white space or padding.\<close>

definition data_char :: "byte \<Rightarrow> nat \<Rightarrow> bool" where
  "data_char c k \<longleftrightarrow> c \<noteq> of_char (CHR '' '') \<and> c \<noteq> 9 \<and> c \<noteq> 10 \<and> c \<noteq> 13 \<and> c \<noteq> of_char (CHR ''='')
     \<and> 0 < uint c \<and> uint c < 127 \<and> b64lookup ! unat c = int k"

lemma tables_inverse_all: "list_all (\<lambda>k. data_char (base64_table ! k) k) [0..<64]"
  by code_simp

lemma tables_inverse: "k < 64 \<Longrightarrow> data_char (base64_table ! k) k"
  using tables_inverse_all by (simp add: list_all_iff)

lemma shift_in: "push_bit 6 (of_nat n :: 32 word) + of_nat k = of_nat (n * 64 + k)"
proof -
  have "push_bit 6 (of_nat n :: 32 word) = of_nat (n * 64)"
    by (simp only: push_bit_eq_mult of_nat_mult) simp
  then show ?thesis by (simp only: of_nat_add)
qed

lemma decode_digit:
  assumes "k < 64"
  shows "b64_decode_loop dstlen (base64_table ! k # cs) (of_nat n) pos fin p =
     (if pos + 1 = 4 then
        (case b64_emit dstlen (of_nat (n * 64 + k)) fin p of None \<Rightarrow> None | Some p \<Rightarrow> b64_decode_loop dstlen cs 0 0 fin p)
      else b64_decode_loop dstlen cs (of_nat (n * 64 + k)) (pos + 1) fin p)"
  using tables_inverse [OF assms] by (simp add: data_char_def Let_def shift_in del: of_nat_add of_nat_mult)

lemma decode_pad:
  "b64_decode_loop dstlen (of_char (CHR ''='') # cs) (of_nat n) pos fin p =
     (if fin = 0 \<and> pos \<noteq> 2 \<and> pos \<noteq> 3 then None
      else if pos + 1 = 4 then
        (case b64_emit dstlen (of_nat (n * 64)) (if fin = 0 then if pos = 2 then 1 else 2 else fin) p of None \<Rightarrow> None
         | Some p \<Rightarrow> b64_decode_loop dstlen cs 0 0 (if fin = 0 then if pos = 2 then 1 else 2 else fin) p)
      else b64_decode_loop dstlen cs (of_nat (n * 64)) (pos + 1) (if fin = 0 then if pos = 2 then 1 else 2 else fin) p)"
  using shift_in [of n 0] by (simp add: Let_def del: of_nat_mult)

lemma buffer_byte:
  assumes "x < 2 ^ 32"
  shows "(ucast (drop_bit (8 * k) (of_nat x :: 32 word) AND 255) :: byte) = of_nat (x div 256 ^ k)"
proof -
  let ?w = "of_nat x :: 32 word"
  have w: "unat ?w = x" using assms by (simp add: unsigned_of_nat take_bit_nat_eq_self)
  have "drop_bit (8 * k) ?w AND 255 = take_bit 8 (drop_bit (8 * k) ?w)"
    by (simp only: take_bit_eq_mask mask_eq_exp_minus_1) simp
  then have "unat (drop_bit (8 * k) ?w AND 255) = take_bit 8 (drop_bit (8 * k) (take_bit 32 x))"
    by (simp only: unsigned_take_bit_eq unsigned_drop_bit_eq w) simp
  also have "\<dots> = x div 256 ^ k mod 256"
    using assms by (simp add: take_bit_nat_eq_self take_bit_eq_mod drop_bit_eq_div power_mult)
  finally have u: "unat (drop_bit (8 * k) ?w AND 255) = x div 256 ^ k mod 256" .
  have "(ucast v :: byte) = of_nat (unat v)" for v :: "32 word" by simp
  then have "(ucast (drop_bit (8 * k) ?w AND 255) :: byte) = of_nat (x div 256 ^ k mod 256)"
    by (simp only: u)
  also have "\<dots> = of_nat (x div 256 ^ k)"
    by (simp add: word_of_nat_eq_iff take_bit_eq_mod)
  finally show ?thesis .
qed

section \<open>Groups\<close>

text \<open>Three bytes as a number of 24 bits.\<close>

definition group24 :: "byte \<Rightarrow> byte \<Rightarrow> byte \<Rightarrow> nat" where
  "group24 a b c = unat a * 65536 + unat b * 256 + unat c"

lemma group_less: "group24 a b c < 16777216"
  using unat_byte [of a] unat_byte [of b] unat_byte [of c] by (simp add: group24_def)

lemma group_bytes:
  "(ucast (drop_bit 16 (of_nat (group24 a b c) :: 32 word) AND 255) :: byte) = a"
  "(ucast (drop_bit 8 (of_nat (group24 a b c) :: 32 word) AND 255) :: byte) = b"
  "(ucast ((of_nat (group24 a b c) :: 32 word) AND 255) :: byte) = c"
proof -
  have l: "group24 a b c < 2 ^ 32" using group_less [of a b c] by simp
  have g: "group24 a b c = unat c + 256 * (unat b + 256 * unat a)" by (simp add: group24_def)
  have d: "group24 a b c div 256 = unat b + 256 * unat a" "(unat b + 256 * unat a) div 256 = unat a"
    using unat_byte [of c] unat_byte [of b] by (simp_all add: g)
  have "group24 a b c div 65536 = group24 a b c div 256 div 256" by (simp add: div_mult2_eq [symmetric])
  then have e: "group24 a b c div 65536 = unat a" using d by simp
  have m: "(of_nat (unat v + 256 * k) :: byte) = v" for v k
    by (simp add: word_unat_eq_iff unsigned_of_nat take_bit_eq_mod unat_byte del: of_nat_add of_nat_mult)
  show "(ucast (drop_bit 16 (of_nat (group24 a b c) :: 32 word) AND 255) :: byte) = a"
    using buffer_byte [OF l, of 2] m [of a 0] e by simp
  show "(ucast (drop_bit 8 (of_nat (group24 a b c) :: 32 word) AND 255) :: byte) = b"
    using buffer_byte [OF l, of 1] m [of b "unat a"] d(1) by (simp del: of_nat_add of_nat_mult)
  show "(ucast ((of_nat (group24 a b c) :: 32 word) AND 255) :: byte) = c"
    using buffer_byte [OF l, of 0] m [of c "unat b + 256 * unat a"] g by (simp del: of_nat_add of_nat_mult)
qed

lemma b64_digits:
  "x < 16777216 \<Longrightarrow> b64_digit 18 (of_nat x) = base64_table ! digit 3 x \<and> b64_digit 12 (of_nat x) = base64_table ! digit 2 x
     \<and> b64_digit 6 (of_nat x) = base64_table ! digit 1 x \<and> b64_digit 0 (of_nat x) = base64_table ! digit 0 x"
  using b64_digit_of_nat [of x 3] b64_digit_of_nat [of x 2] b64_digit_of_nat [of x 1] b64_digit_of_nat [of x 0] by simp

text \<open>The characters of a group, for the encoder and the decoder.\<close>

definition group_chars :: "nat \<Rightarrow> bytes" where
  "group_chars x = [base64_table ! digit 3 x, base64_table ! digit 2 x, base64_table ! digit 1 x, base64_table ! digit 0 x]"

lemma encode_group:
  "b64_encode_loop dstlen (a # b # c # ss) 2 0 p =
     (if int (length p) + 4 > dstlen then None else b64_encode_loop dstlen ss 2 0 (p @ group_chars (group24 a b c)))"
  using group_buffer [of a] group_buffer(2) [of a b] group_buffer(3) [of a b c] b64_digits [OF group_less [of a b c]]
  by (simp add: Let_def group_chars_def group24_def del: of_nat_add of_nat_mult)

lemma decode_group:
  assumes "x < 16777216"
  shows "b64_decode_loop dstlen (group_chars x @ cs) 0 0 fin p =
     (case b64_emit dstlen (of_nat x) fin p of None \<Rightarrow> None | Some p \<Rightarrow> b64_decode_loop dstlen cs 0 0 fin p)"
proof -
  have "b64_decode_loop dstlen (base64_table ! digit 3 x # ds) 0 0 fin p = b64_decode_loop dstlen ds (of_nat (digit 3 x)) 1 fin p" for ds
    using decode_digit [OF digit_less [of 3 x], of dstlen ds 0 0 fin p] by simp
  then show ?thesis using digits_value [OF assms]
    by (simp add: group_chars_def decode_digit [OF digit_less] del: of_nat_add of_nat_mult b64_decode_loop.simps)
qed

section \<open>Reference encoding\<close>

fun b64_chars :: "bytes \<Rightarrow> bytes" where
  "b64_chars [] = []"
| "b64_chars [a] = [base64_table ! digit 3 (group24 a 0 0), base64_table ! digit 2 (group24 a 0 0), of_char (CHR ''=''), of_char (CHR ''='')]"
| "b64_chars [a, b] = [base64_table ! digit 3 (group24 a b 0), base64_table ! digit 2 (group24 a b 0),
     base64_table ! digit 1 (group24 a b 0), of_char (CHR ''='')]"
| "b64_chars (a # b # c # ss) = group_chars (group24 a b c) @ b64_chars ss"

lemma length_b64_chars: "length (b64_chars src) = (length src + 2) div 3 * 4"
proof (induction src rule: b64_chars.induct)
  case (4 a b c ss)
  have "(length ss + 2 + 3) div 3 = (length ss + 2) div 3 + 1" by (rule div_add_self2) simp
  with 4 show ?case by (simp add: group_chars_def)
qed simp_all

lemma pad_digits: "digit 0 (group24 a b 0) = 0" "digit 1 (group24 a 0 0) = 0" "digit 0 (group24 a 0 0) = 0"
proof -
  have "group24 a b 0 = 64 * (unat a * 1024 + unat b * 4)" "group24 a 0 0 = 64 * (64 * (unat a * 16))" by (simp_all add: group24_def)
  then show "digit 0 (group24 a b 0) = 0" "digit 1 (group24 a 0 0) = 0" "digit 0 (group24 a 0 0) = 0"
    by (simp_all add: digit_def)
qed

definition b64_finish :: "int \<Rightarrow> (int \<times> 32 word \<times> bytes) option \<Rightarrow> bytes option" where
  "b64_finish dstlen r =
     (case r of None \<Rightarrow> None
      | Some (pos, buf, p) \<Rightarrow>
          if pos \<noteq> 2 then
            if int (length p) + 4 > dstlen then None
            else Some (p @ [b64_digit 18 buf, b64_digit 12 buf,
                            if pos = 0 then b64_digit 6 buf else of_char (CHR ''=''), of_char (CHR ''='')])
          else Some p)"

lemma encode_from:
  "int (length p) \<le> dstlen \<Longrightarrow> b64_finish dstlen (b64_encode_loop dstlen src 2 0 p) =
     (if int (length p + length (b64_chars src)) \<le> dstlen then Some (p @ b64_chars src) else None)"
proof (induction src arbitrary: p rule: b64_chars.induct)
  case 1
  then show ?case by (simp add: b64_finish_def)
next
  case (2 a)
  have "of_nat (unat a * 65536) = (of_nat (group24 a 0 0) :: 32 word)" by (simp add: group24_def)
  then show ?case using group_buffer(1) [of a] b64_digits [OF group_less [of a 0 0]]
    by (simp add: b64_finish_def Let_def del: of_nat_add of_nat_mult)
next
  case (3 a b)
  have "of_nat (unat a * 65536 + unat b * 256) = (of_nat (group24 a b 0) :: 32 word)" by (simp add: group24_def)
  then show ?case using group_buffer(1) [of a] group_buffer(2) [of a b] b64_digits [OF group_less [of a b 0]]
    by (simp add: b64_finish_def Let_def del: of_nat_add of_nat_mult)
next
  case (4 a b c ss)
  from "4.IH" [of "p @ group_chars (group24 a b c)"] show ?case
    unfolding encode_group by (auto simp: b64_finish_def group_chars_def)
qed

lemma encode_eq:
  assumes "0 \<le> dstlen"
  shows "pg_b64_encode src dstlen = (if int (length (b64_chars src)) \<le> dstlen then Some (b64_chars src) else None)"
  using encode_from [of "[]" dstlen src] assms unfolding pg_b64_encode_def b64_finish_def by simp

lemma emit_group:
  "b64_emit dstlen (of_nat (group24 a b c)) 0 p = (if int (length p) + 3 \<le> dstlen then Some (p @ [a, b, c]) else None)"
  "b64_emit dstlen (of_nat (group24 a b c)) 2 p = (if int (length p) + 2 \<le> dstlen then Some (p @ [a, b]) else None)"
  "b64_emit dstlen (of_nat (group24 a b c)) 1 p = (if int (length p) + 1 \<le> dstlen then Some (p @ [a]) else None)"
  by (auto simp: b64_emit_def put_byte_def group_bytes)

lemma decode_tail:
  "b64_decode_loop dstlen (b64_chars [a] @ cs) 0 0 0 p =
     (case b64_emit dstlen (of_nat (group24 a 0 0)) 1 p of None \<Rightarrow> None | Some p \<Rightarrow> b64_decode_loop dstlen cs 0 0 1 p)"
  "b64_decode_loop dstlen (b64_chars [a, b] @ cs) 0 0 0 p =
     (case b64_emit dstlen (of_nat (group24 a b 0)) 2 p of None \<Rightarrow> None | Some p \<Rightarrow> b64_decode_loop dstlen cs 0 0 2 p)"
proof -
  have s: "b64_decode_loop dstlen (base64_table ! digit 3 x # ds) 0 0 0 p = b64_decode_loop dstlen ds (of_nat (digit 3 x)) 1 0 p" for ds x
    using decode_digit [OF digit_less [of 3 x], of dstlen ds 0 0 0 p] by simp
  note v = digits_value [OF group_less [of a b 0]] digits_value [OF group_less [of a 0 0]]
  show "b64_decode_loop dstlen (b64_chars [a] @ cs) 0 0 0 p =
     (case b64_emit dstlen (of_nat (group24 a 0 0)) 1 p of None \<Rightarrow> None | Some p \<Rightarrow> b64_decode_loop dstlen cs 0 0 1 p)"
    using v(2) s decode_pad
    by (simp add: pad_digits pad_digits(2) [unfolded One_nat_def] decode_digit [OF digit_less] del: of_nat_add of_nat_mult b64_decode_loop.simps of_char_def)
  show "b64_decode_loop dstlen (b64_chars [a, b] @ cs) 0 0 0 p =
     (case b64_emit dstlen (of_nat (group24 a b 0)) 2 p of None \<Rightarrow> None | Some p \<Rightarrow> b64_decode_loop dstlen cs 0 0 2 p)"
    using v(1) s decode_pad
    by (simp add: pad_digits pad_digits(2) [unfolded One_nat_def] decode_digit [OF digit_less] del: of_nat_add of_nat_mult b64_decode_loop.simps of_char_def)
qed

lemma decode_from:
  "int (length p) \<le> dstlen \<Longrightarrow> b64_decode_loop dstlen (b64_chars src) 0 0 0 p =
     (if int (length p + length src) \<le> dstlen then Some (p @ src) else None)"
proof (induction src arbitrary: p rule: b64_chars.induct)
  case 1
  then show ?case by simp
next
  case (2 a)
  then show ?case using decode_tail(1) [of dstlen a "[]" p] by (simp add: emit_group del: b64_chars.simps)
next
  case (3 a b)
  then show ?case using decode_tail(2) [of dstlen a b "[]" p] by (simp add: emit_group del: b64_chars.simps)
next
  case (4 a b c ss)
  from "4.IH" [of "p @ [a, b, c]"] show ?case
    unfolding b64_chars.simps decode_group [OF group_less] emit_group by auto
qed

text \<open>
  After a padded group the end marker stays set. What the decoder makes of later groups: their first \<open>n\<close> bytes,
  where \<open>n\<close> is the number of bytes of the padded group.
\<close>

fun group_heads :: "nat \<Rightarrow> bytes \<Rightarrow> bytes" where
  "group_heads n [] = []"
| "group_heads n [a] = take n [a, 0]"
| "group_heads n [a, b] = take n [a, b]"
| "group_heads n (a # b # c # ss) = take n [a, b, c] @ group_heads n ss"

lemma decode_marked:
  assumes "fin \<noteq> 0"
  shows "b64_decode_loop dstlen (b64_chars [a] @ cs) 0 0 fin p =
     (case b64_emit dstlen (of_nat (group24 a 0 0)) fin p of None \<Rightarrow> None | Some p \<Rightarrow> b64_decode_loop dstlen cs 0 0 fin p)"
    "b64_decode_loop dstlen (b64_chars [a, b] @ cs) 0 0 fin p =
     (case b64_emit dstlen (of_nat (group24 a b 0)) fin p of None \<Rightarrow> None | Some p \<Rightarrow> b64_decode_loop dstlen cs 0 0 fin p)"
proof -
  have s: "b64_decode_loop dstlen (base64_table ! digit 3 x # ds) 0 0 fin p = b64_decode_loop dstlen ds (of_nat (digit 3 x)) 1 fin p" for ds x
    using decode_digit [OF digit_less [of 3 x], of dstlen ds 0 0 fin p] by simp
  note v = digits_value [OF group_less [of a b 0]] digits_value [OF group_less [of a 0 0]]
  show "b64_decode_loop dstlen (b64_chars [a] @ cs) 0 0 fin p =
     (case b64_emit dstlen (of_nat (group24 a 0 0)) fin p of None \<Rightarrow> None | Some p \<Rightarrow> b64_decode_loop dstlen cs 0 0 fin p)"
    using v(2) s decode_pad assms
    by (simp add: pad_digits pad_digits(2) [unfolded One_nat_def] decode_digit [OF digit_less] del: of_nat_add of_nat_mult b64_decode_loop.simps of_char_def)
  show "b64_decode_loop dstlen (b64_chars [a, b] @ cs) 0 0 fin p =
     (case b64_emit dstlen (of_nat (group24 a b 0)) fin p of None \<Rightarrow> None | Some p \<Rightarrow> b64_decode_loop dstlen cs 0 0 fin p)"
    using v(1) s decode_pad assms
    by (simp add: pad_digits pad_digits(2) [unfolded One_nat_def] decode_digit [OF digit_less] del: of_nat_add of_nat_mult b64_decode_loop.simps of_char_def)
qed

lemma emit_heads:
  assumes "n = 1 \<or> n = 2" "int (length p + n) \<le> dstlen"
  shows "b64_emit dstlen (of_nat (group24 a b c)) (int n) p = Some (p @ take n [a, b, c])"
  using assms emit_group(2,3) [of dstlen a b c p] by auto

lemma decode_heads:
  assumes n: "n = 1 \<or> n = 2"
  shows "int (length p + n * ((length src + 2) div 3)) \<le> dstlen \<Longrightarrow>
    b64_decode_loop dstlen (b64_chars src) 0 0 (int n) p = Some (p @ group_heads n src)"
proof (induction src arbitrary: p rule: b64_chars.induct)
  case 1
  then show ?case by simp
next
  case (2 a)
  then show ?case using n decode_marked(1) [of "int n" dstlen a "[]" p] emit_heads [OF n, of p dstlen a 0 0]
    by (auto simp del: b64_chars.simps)
next
  case (3 a b)
  then show ?case using n decode_marked(2) [of "int n" dstlen a b "[]" p] emit_heads [OF n, of p dstlen a b 0]
    by (auto simp del: b64_chars.simps)
next
  case (4 a b c ss)
  have "(length (a # b # c # ss) + 2) div 3 = (length ss + 2) div 3 + 1" using div_add_self2 [of 3 "length ss + 2"] by simp
  then have l: "int (length p + n + n * ((length ss + 2) div 3)) \<le> dstlen" using "4.prems" by (simp add: add.commute add.left_commute)
  have e: "b64_emit dstlen (of_nat (group24 a b c)) (int n) p = Some (p @ take n [a, b, c])"
    using emit_heads [OF n, of p dstlen a b c] l by simp
  have "length (p @ take n [a, b, c]) = length p + n" using n by auto
  with "4.IH" [of "p @ take n [a, b, c]"] l e show ?case
    unfolding b64_chars.simps group_heads.simps decode_group [OF group_less] by simp
qed

lemma decode_prefix:
  assumes "length pre mod 3 \<noteq> 0"
  shows "int (length p + length pre) \<le> dstlen \<Longrightarrow> b64_decode_loop dstlen (b64_chars pre @ cs) 0 0 0 p =
    b64_decode_loop dstlen cs 0 0 (int (length pre mod 3)) (p @ pre)"
  using assms
proof (induction pre arbitrary: p rule: b64_chars.induct)
  case 1
  then show ?case by simp
next
  case (2 a)
  then show ?case using decode_tail(1) [of dstlen a cs p] by (simp add: emit_group del: b64_chars.simps)
next
  case (3 a b)
  then show ?case using decode_tail(2) [of dstlen a b cs p] by (simp add: emit_group del: b64_chars.simps)
next
  case (4 a b c ss)
  have m: "length (a # b # c # ss) mod 3 = length ss mod 3" using mod_add_self2 [of "length ss" 3] by simp
  from "4.IH" [of "p @ [a, b, c]"] "4.prems" show ?case
    unfolding m b64_chars.simps append_assoc decode_group [OF group_less] emit_group by auto
qed

text \<open>The capacity only matters through the bytes that can still be written.\<close>

lemma emit_capacity:
  assumes "int (length p) + 3 \<le> d" "int (length p) + 3 \<le> d'"
  shows "b64_emit d buf fin p = b64_emit d' buf fin p"
    and "\<exists>q. b64_emit d buf fin p = Some q \<and> length q \<le> length p + 3"
  using assms by (auto simp: b64_emit_def put_byte_def)

lemma decode_capacity:
  assumes "0 \<le> pos" "pos \<le> 3"
    and "int (length p) + 3 * ((pos + int (length cs)) div 4) \<le> d" "int (length p) + 3 * ((pos + int (length cs)) div 4) \<le> d'"
  shows "b64_decode_loop d cs buf pos fin p = b64_decode_loop d' cs buf pos fin p
    \<and> (\<forall>q. b64_decode_loop d cs buf pos fin p = Some q \<longrightarrow> int (length q) \<le> int (length p) + 3 * ((pos + int (length cs)) div 4))"
  using assms
proof (induction cs arbitrary: buf pos fin p)
  case Nil
  then show ?case by simp
next
  case (Cons c cs)
  show ?case
  proof (cases "pos = 3")
    case True
    have e: "(4 + int (length cs)) div 4 = 1 + int (length cs) div 4" using div_add_self1 [of 4 "int (length cs)"] by simp
    have nn: "0 \<le> int (length cs) div 4" by (simp add: pos_imp_zdiv_nonneg_iff)
    have b: "int (length p) + 3 + 3 * (int (length cs) div 4) \<le> d" "int (length p) + 3 + 3 * (int (length cs) div 4) \<le> d'"
      using Cons.prems(3,4) True e by (simp_all add: add.commute)
    have c: "int (length p) + 3 \<le> d" "int (length p) + 3 \<le> d'" using b nn by linarith+
    have IH: "b64_decode_loop d cs 0 0 fin' q = b64_decode_loop d' cs 0 0 fin' q \<and>
        (\<forall>r. b64_decode_loop d cs 0 0 fin' q = Some r \<longrightarrow> int (length r) \<le> int (length p) + 3 + 3 * (int (length cs) div 4))"
      if "length q \<le> length p + 3" for fin' q
      using Cons.IH [of 0 q 0 fin'] b that by fastforce
    have E: "\<exists>q. b64_emit d buf' fin' p = Some q \<and> b64_emit d' buf' fin' p = Some q \<and> length q \<le> length p + 3" for buf' fin'
      using emit_capacity(1) [OF c, of buf' fin'] emit_capacity(2) [OF c, of buf' fin'] by auto
    have B: "int (length p) + 3 * ((pos + int (length (c # cs))) div 4) = int (length p) + 3 + 3 * (int (length cs) div 4)"
      using True e by (simp add: add.commute)
    define fin' where "fin' = (if c = of_char (CHR ''='') \<and> fin = 0 then 2 else fin)"
    define b' where "b' = (if c = of_char (CHR ''='') then 0 else if 0 < uint c \<and> uint c < 127 then b64lookup ! unat c else - 1)"
    obtain q where q: "b64_emit d (push_bit 6 buf + word_of_int b') fin' p = Some q"
      "b64_emit d' (push_bit 6 buf + word_of_int b') fin' p = Some q" "length q \<le> length p + 3"
      using E by blast
    have S: "b64_decode_loop e (c # cs) buf pos fin p =
        (if c = of_char (CHR '' '') \<or> c = 9 \<or> c = 10 \<or> c = 13 \<or> b' < 0 then None
         else case b64_emit e (push_bit 6 buf + word_of_int b') fin' p of None \<Rightarrow> None
           | Some p \<Rightarrow> b64_decode_loop e cs 0 0 fin' p)" for e
    proof -
      have f: "(if c = of_char (CHR ''='') \<and> fin = 0 then if pos = 2 then 1 else 2 else fin) = fin'"
        using True by (simp add: fin'_def)
      show ?thesis unfolding b64_decode_loop.simps Let_def f b'_def [symmetric] using True by auto
    qed
    show ?thesis unfolding S B q option.case using IH [OF q(3), of fin'] by simp
  next
    case False
    then have "int (length p) + 3 * ((pos + 1 + int (length cs)) div 4) \<le> d" "int (length p) + 3 * ((pos + 1 + int (length cs)) div 4) \<le> d'"
      using Cons.prems by (simp_all add: add.assoc)
    from Cons.IH [OF _ _ this] Cons.prems(1,2) False show ?thesis by (simp add: Let_def add.assoc)
  qed
qed

section \<open>Lengths\<close>

lemma enc_len_eq: "length src \<le> 1610612733 \<Longrightarrow> pg_b64_enc_len (int (length src)) = int (length (b64_chars src))"
proof -
  assume l: "length src \<le> 1610612733"
  have e: "(int (length src) + 2) sdiv 3 * 4 = int (length (b64_chars src))"
    by (simp add: length_b64_chars sdiv_nonneg zdiv_int)
  have "int (length (b64_chars src)) \<le> (int (length src) + 2) div 3 * 4" using e by (simp add: sdiv_nonneg)
  also have "\<dots> < 2 ^ 31" using l by simp
  finally show ?thesis unfolding pg_b64_enc_len_def e by (intro wrap32_id) auto
qed

lemma dec_len_eq:
  assumes "0 \<le> n" "n \<le> 715827882"
  shows "pg_b64_dec_len n = n * 3 div 4"
proof -
  have "wrap32 (n * 3) = n * 3" using assms by (intro wrap32_id) auto
  then show ?thesis by (simp add: pg_b64_dec_len_def drop_bit_eq_div)
qed

lemma dec_len_groups: "0 \<le> n \<Longrightarrow> 3 * (n div 4) \<le> n * 3 div 4" for n :: int
proof -
  have "n = 4 * (n div 4) + n mod 4" "0 \<le> n mod 4" by simp_all
  then have "n * 3 = 4 * (3 * (n div 4)) + 3 * (n mod 4)" by (metis distrib_left mult.commute mult.left_commute)
  then have "n * 3 div 4 = 3 * (n div 4) + (3 * (n mod 4)) div 4" by (metis div_mult_self4 zero_neq_numeral add.commute)
  then show ?thesis by (simp add: pos_imp_zdiv_nonneg_iff)
qed

section \<open>Properties\<close>

text \<open>
  Base64 encoder: a buffer of \<open>pg_b64_enc_len\<close> characters is exactly what the encoder needs: with it
  the encoding succeeds and fills it, with any smaller one it fails.
\<close>

theorem b64_encode_length:
  assumes "length src \<le> 1610612733" "0 \<le> dstlen"
  shows "if pg_b64_enc_len (int (length src)) \<le> dstlen
    then \<exists>r. pg_b64_encode src dstlen = Some r \<and> int (length r) = pg_b64_enc_len (int (length src))
    else pg_b64_encode src dstlen = None"
  using encode_eq [OF assms(2), of src] enc_len_eq [OF assms(1)] by simp

theorem b64_encode_length_witness:
  "(\<exists>r. pg_b64_encode [1, 2] 4 = Some r \<and> length r = 4) \<and> pg_b64_encode [1, 2] 3 = None"
proof -
  have "pg_b64_enc_len 2 = 4" by code_simp
  with b64_encode_length [of "[1, 2]" 4] b64_encode_length [of "[1, 2]" 3] show ?thesis by auto
qed

text \<open>
  Base64 round trip: decoding what the encoder produced gives back the bytes, if the decoder's buffer
  holds them.
\<close>

theorem b64_roundtrip:
  assumes "pg_b64_encode src dstlen = Some r" "0 \<le> dstlen" "int (length src) \<le> declen"
  shows "pg_b64_decode r declen = Some src"
proof -
  have "r = b64_chars src" using encode_eq [OF assms(2), of src] assms(1) by (simp split: if_splits)
  then show ?thesis using decode_from [of "[]" declen src] assms(3) by (simp add: pg_b64_decode_def)
qed

theorem b64_roundtrip_witness:
  "\<exists>r. pg_b64_encode [72, 105, 33, 200] 8 = Some r \<and> pg_b64_decode r 4 = Some [72, 105, 33, 200]"
proof -
  obtain r where "pg_b64_encode [72, 105, 33, 200] 8 = Some r" by (simp add: encode_eq group_chars_def)
  with b64_roundtrip [OF this, of 4] show ?thesis by simp
qed

text \<open>
  C33 (base64 decoder buffer): a buffer of \<open>pg_b64_dec_len\<close> bytes is always large enough: the result does not
  depend on how much larger the buffer is and fits \<open>pg_b64_dec_len\<close>. This holds for
  inputs of up to 715827882 characters; beyond that the length computation overflows.
\<close>

theorem b64_dec_len_suffices:
  assumes "length src \<le> 715827882" "pg_b64_dec_len (int (length src)) \<le> dstlen"
  shows "pg_b64_decode src dstlen = pg_b64_decode src (pg_b64_dec_len (int (length src)))
    \<and> (\<forall>r. pg_b64_decode src dstlen = Some r \<longrightarrow> int (length r) \<le> pg_b64_dec_len (int (length src)))"
proof -
  have g: "3 * (int (length src) div 4) \<le> pg_b64_dec_len (int (length src))"
    using dec_len_eq [of "int (length src)"] dec_len_groups [of "int (length src)"] assms(1) by simp
  with assms(2) decode_capacity [of 0 "[]" src dstlen "pg_b64_dec_len (int (length src))" 0 0]
  show ?thesis by (auto simp: pg_b64_decode_def)
qed

theorem b64_dec_len_suffices_witness:
  "pg_b64_decode (map of_char ''QUJD'') 100 = pg_b64_decode (map of_char ''QUJD'') 3"
proof -
  have "pg_b64_dec_len 4 = 3" by code_simp
  with b64_dec_len_suffices [of "map of_char ''QUJD''" 100] show ?thesis by simp
qed

text \<open>
  C39 (data after padding): the decoder does not reset its end marker after a padded group. Further groups are
  accepted, with or without padding of their own, but only as many bytes of each are kept as the padded
  group has: one after \<open>==\<close>, two after \<open>=\<close>. The third byte of every later group is lost.
\<close>

theorem b64_decode_after_padding:
  assumes "length pre mod 3 \<noteq> 0"
    and "int (length pre + (length pre mod 3) * ((length src + 2) div 3)) \<le> dstlen"
  shows "pg_b64_decode (b64_chars pre @ b64_chars src) dstlen = Some (pre @ group_heads (length pre mod 3) src)"
proof -
  have n: "length pre mod 3 = 1 \<or> length pre mod 3 = 2" using assms(1) by linarith
  have "int (length ([] :: bytes) + length pre) \<le> int (length pre + (length pre mod 3) * ((length src + 2) div 3))" by simp
  then have "int (length ([] :: bytes) + length pre) \<le> dstlen" using assms(2) by (rule order_trans)
  from decode_prefix [OF assms(1) this, of "b64_chars src"] show ?thesis
    using decode_heads [OF n, of pre src dstlen] assms(2) by (simp add: pg_b64_decode_def)
qed

theorem b64_decode_after_padding_witness:
  "pg_b64_decode (b64_chars [65] @ b64_chars [65, 66, 67, 68]) 4 = Some [65, 65, 68]
   \<and> pg_b64_decode (b64_chars [65, 66] @ b64_chars [65, 66, 67, 68]) 6 = Some [65, 66, 65, 66, 68, 0]"
  using b64_decode_after_padding [of "[65]" "[65, 66, 67, 68]" 4] b64_decode_after_padding [of "[65, 66]" "[65, 66, 67, 68]" 6]
  by (simp del: b64_chars.simps)

end
