(* ===== verification/Utl_Encode.thy ===== *)
theory Utl_Encode
  imports Pg_Base64
begin

text \<open>
  The package UTL\_ENCODE
  (src/contrib/ivorysql\_ora/src/builtin\_packages/utl\_encode/utl\_encode.c): BASE64\_ENCODE, which breaks
  the encoded text into lines of 64 characters, and BASE64\_DECODE, which drops white
  space first. A RAW value is a list of bytes. \<open>palloc\<close> raises for sizes above 1 GB,
  which a negative length becomes when it is converted to \<open>Size\<close>.
\<close>

datatype utl_encode_error = EncodingFailed | InvalidBase64 | InvalidAllocSize

definition palloc :: "int \<Rightarrow> (utl_encode_error, unit) res" where
  "palloc n = (if 0 \<le> n \<and> n \<le> 0x3fffffff then Inr () else Inl InvalidAllocSize)"

definition VARHDRSZ :: int where "VARHDRSZ = 4"
definition UTL_ENCODE_B64_LINE_LEN :: nat where "UTL_ENCODE_B64_LINE_LEN = 64"

text \<open>The loop that copies chunks of 64 characters, each followed by a line feed.\<close>

function copy_lines :: "bytes \<Rightarrow> bytes" where
  "copy_lines p =
     (if 0 < length p then
        (let chunk = (if length p \<ge> UTL_ENCODE_B64_LINE_LEN then UTL_ENCODE_B64_LINE_LEN else length p)
         in take chunk p @ 10 # copy_lines (drop chunk p))
      else [])"
  by pat_completeness auto
termination
  by (relation "measure length") (auto simp: UTL_ENCODE_B64_LINE_LEN_def)

definition ivorysql_utl_encode_base64_encode :: "bytes \<Rightarrow> (utl_encode_error, bytes) res" where
  "ivorysql_utl_encode_base64_encode src =
     (let src_len = int (length src)
      in if src_len = 0 then Inr []
         else
           (let b64_len = pg_b64_enc_len src_len;
                num_lines = (b64_len + int UTL_ENCODE_B64_LINE_LEN - 1) sdiv int UTL_ENCODE_B64_LINE_LEN;
                result_len = b64_len + num_lines
            in bindR (palloc (b64_len + 1)) (\<lambda>_.
               case pg_b64_encode src b64_len of
                 None \<Rightarrow> Inl EncodingFailed
               | Some raw_b64 \<Rightarrow> bindR (palloc (VARHDRSZ + result_len)) (\<lambda>_. Inr (copy_lines raw_b64)))))"

definition is_b64_space :: "byte \<Rightarrow> bool" where
  "is_b64_space c \<longleftrightarrow> c = 10 \<or> c = 13 \<or> c = 9 \<or> c = of_char (CHR '' '')"

definition ivorysql_utl_encode_base64_decode :: "bytes \<Rightarrow> (utl_encode_error, bytes) res" where
  "ivorysql_utl_encode_base64_decode src =
     (let src_len = int (length src)
      in if src_len = 0 then Inr []
         else bindR (palloc src_len) (\<lambda>_.
           let clean_buf = filter (\<lambda>c. \<not> is_b64_space c) src;
               clean_len = int (length clean_buf)
           in if clean_len = 0 then Inr []
              else
                (let dec_buf_len = pg_b64_dec_len clean_len
                 in bindR (palloc (VARHDRSZ + dec_buf_len)) (\<lambda>_.
                    case pg_b64_decode clean_buf dec_buf_len of
                      None \<Rightarrow> Inl InvalidBase64
                    | Some dst \<Rightarrow> Inr dst))))"

declare copy_lines.simps [simp del]

section \<open>Lines\<close>

lemma copy_lines_rec:
  "copy_lines [] = []"
  "p \<noteq> [] \<Longrightarrow> copy_lines p = take 64 p @ 10 # copy_lines (drop 64 p)"
proof -
  show "copy_lines [] = []" by (subst copy_lines.simps) simp
  show "copy_lines p = take 64 p @ 10 # copy_lines (drop 64 p)" if "p \<noteq> []"
    using that by (subst copy_lines.simps) (auto simp: UTL_ENCODE_B64_LINE_LEN_def Let_def)
qed

lemma copy_lines_induct [case_names empty chunk]:
  assumes "P []" "\<And>p. p \<noteq> [] \<Longrightarrow> P (drop 64 p) \<Longrightarrow> P p"
  shows "P p"
  by (induction p rule: measure_induct_rule [of length]) (metis assms diff_less drop_eq_Nil length_drop length_greater_0_conv
      zero_less_numeral)

lemma length_copy_lines: "length (copy_lines p) = length p + (length p + 63) div 64"
proof (induction p rule: copy_lines_induct)
  case (chunk p)
  show ?case
  proof (cases "length p \<le> 64")
    case True
    then have "(length p + 63) div 64 = 1" using chunk(1) by (cases p) (auto simp: div_nat_eqI)
    with True chunk(1) show ?thesis by (simp add: copy_lines_rec)
  next
    case False
    then have "(length p + 63) div 64 = (length p - 64 + 63) div 64 + 1"
      using div_add_self2 [of 64 "length p - 64 + 63"] by simp
    with False chunk show ?thesis by (simp add: copy_lines_rec(2))
  qed
qed (simp add: copy_lines_rec)

lemma copy_lines_clean:
  "\<forall>c \<in> set p. \<not> is_b64_space c \<Longrightarrow> filter (\<lambda>c. \<not> is_b64_space c) (copy_lines p) = p"
proof (induction p rule: copy_lines_induct)
  case (chunk p)
  have "filter (\<lambda>c. \<not> is_b64_space c) (take 64 p) = take 64 p"
    using chunk.prems by (auto simp: filter_id_conv dest: in_set_takeD)
  moreover have "filter (\<lambda>c. \<not> is_b64_space c) (copy_lines (drop 64 p)) = drop 64 p"
    using chunk by (auto dest: in_set_dropD)
  ultimately show ?case using chunk(1) by (simp add: copy_lines_rec(2) is_b64_space_def)
qed (simp add: copy_lines_rec)

lemma table_not_space: "k < 64 \<Longrightarrow> \<not> is_b64_space (base64_table ! k)"
  using tables_inverse [of k] by (simp add: data_char_def is_b64_space_def)

lemma b64_chars_not_space: "c \<in> set (b64_chars src) \<Longrightarrow> \<not> is_b64_space c"
proof (induction src rule: b64_chars.induct)
  case (4 a b c ss)
  then show ?case by (auto simp: group_chars_def table_not_space digit_less)
qed (auto simp: table_not_space digit_less, simp_all add: is_b64_space_def)

section \<open>Encoding and decoding\<close>

text \<open>
  A RAW value is a varlena and has less than 1 GB. The encoder accepts a value exactly if the result, lines included,
  is not larger than that either.
\<close>

definition lines_fit :: "bytes \<Rightarrow> bool" where
  "lines_fit src \<longleftrightarrow> VARHDRSZ + int (length (copy_lines (b64_chars src))) \<le> 0x3fffffff"

lemma encode_lines:
  assumes "length src < 1073741824"
  shows "ivorysql_utl_encode_base64_encode src = (if lines_fit src then Inr (copy_lines (b64_chars src)) else Inl InvalidAllocSize)"
proof (cases "src = []")
  case True
  then show ?thesis
    by (simp add: ivorysql_utl_encode_base64_encode_def copy_lines_rec lines_fit_def VARHDRSZ_def)
next
  case False
  let ?n = "length (b64_chars src)"
  have e: "pg_b64_enc_len (int (length src)) = int ?n" using assms by (intro enc_len_eq) simp
  have l: "length (copy_lines (b64_chars src)) = ?n + (?n + 63) div 64" by (rule length_copy_lines)
  have n: "(int ?n + 63) sdiv 64 = int ((?n + 63) div 64)" by (simp add: sdiv_nonneg zdiv_int)
  have "pg_b64_encode src (int ?n) = Some (b64_chars src)" by (simp add: encode_eq)
  then show ?thesis using False l
    by (auto simp: ivorysql_utl_encode_base64_encode_def e UTL_ENCODE_B64_LINE_LEN_def add.commute [of 63] n Let_def
        lines_fit_def palloc_def VARHDRSZ_def)
qed

lemma decode_lines:
  assumes "lines_fit src" "src \<noteq> []"
  shows "ivorysql_utl_encode_base64_decode (copy_lines (b64_chars src)) =
    (let n = pg_b64_dec_len (int (length (b64_chars src)))
     in bindR (palloc (VARHDRSZ + n)) (\<lambda>_. case pg_b64_decode (b64_chars src) n of None \<Rightarrow> Inl InvalidBase64 | Some dst \<Rightarrow> Inr dst))"
proof -
  have c: "filter (\<lambda>c. \<not> is_b64_space c) (copy_lines (b64_chars src)) = b64_chars src"
    by (rule copy_lines_clean) (auto dest: b64_chars_not_space)
  have "0 < length (b64_chars src)" using assms(2) by (cases src) (auto simp: length_b64_chars)
  then have n: "b64_chars src \<noteq> []" by auto
  then have "copy_lines (b64_chars src) \<noteq> []" by (simp add: copy_lines_rec(2))
  moreover have "palloc (int (length (copy_lines (b64_chars src)))) = Inr ()"
    using assms(1) by (simp add: palloc_def lines_fit_def VARHDRSZ_def)
  ultimately show ?thesis using n by (simp add: ivorysql_utl_encode_base64_decode_def c Let_def)
qed

lemma lines_fit_length:
  assumes "length src \<le> 700000000"
  shows "lines_fit src"
proof -
  have "(length src + 2) div 3 \<le> 233333334" using assms by simp
  then have "length (b64_chars src) \<le> 933333336" by (simp add: length_b64_chars)
  then show ?thesis by (simp add: lines_fit_def length_copy_lines VARHDRSZ_def)
qed

lemma decode_encode:
  assumes "length src \<le> 536870910"
  shows "\<exists>r. ivorysql_utl_encode_base64_encode src = Inr r \<and> ivorysql_utl_encode_base64_decode r = Inr src"
proof (cases "src = []")
  case True
  then show ?thesis
    by (simp add: ivorysql_utl_encode_base64_encode_def ivorysql_utl_encode_base64_decode_def)
next
  case False
  let ?n = "length (b64_chars src)"
  have s: "length src < 1073741824" "lines_fit src" using assms lines_fit_length by simp_all
  have q: "(length src + 2) div 3 \<le> 178956970" using assms by simp
  then have b: "?n \<le> 715827880" by (simp add: length_b64_chars)
  then have d: "pg_b64_dec_len (int ?n) = int ?n * 3 div 4" by (intro dec_len_eq) auto
  have g: "int (length src) \<le> pg_b64_dec_len (int ?n)" unfolding d by (simp add: length_b64_chars)
  moreover have "palloc (VARHDRSZ + pg_b64_dec_len (int ?n)) = Inr ()"
    using b by (simp add: palloc_def VARHDRSZ_def d pos_imp_zdiv_nonneg_iff)
  ultimately have "ivorysql_utl_encode_base64_decode (copy_lines (b64_chars src)) = Inr src"
    using decode_from [of "[]" "pg_b64_dec_len (int ?n)" src]
    by (simp add: decode_lines [OF s(2) False] pg_b64_decode_def)
  with encode_lines [OF s(1)] s(2) show ?thesis by simp
qed

interpretation b64: codec ivorysql_utl_encode_base64_encode ivorysql_utl_encode_base64_decode "\<lambda>src. length src \<le> 536870910"
  by unfold_locales (rule decode_encode)

section \<open>Properties\<close>

text \<open>
  C9 (UTL\_ENCODE round trip): BASE64\_DECODE of BASE64\_ENCODE is the identity on every RAW value of up to
  536870910 bytes, and no two such values have the same encoding.
\<close>

theorem utl_encode_roundtrip:
  assumes "length src \<le> 536870910" "length src' \<le> 536870910"
  shows "bindR (ivorysql_utl_encode_base64_encode src) ivorysql_utl_encode_base64_decode = Inr src
    \<and> (ivorysql_utl_encode_base64_encode src = ivorysql_utl_encode_base64_encode src' \<longrightarrow> src = src')"
  using b64.round_trip [OF assms(1)] b64.enc_inj [OF assms] by blast

theorem utl_encode_roundtrip_witness:
  "bindR (ivorysql_utl_encode_base64_encode [1, 2, 255]) ivorysql_utl_encode_base64_decode = Inr [1, 2, 255]"
  using utl_encode_roundtrip [of "[1, 2, 255]" "[]"] by simp

text \<open>
  C40 (large values): no RAW value of 536870911 bytes or more that BASE64\_ENCODE accepts can be
  decoded again: the length of the decoded value overflows an \<open>int\<close> and the allocation
  is refused. The encoder accepts every value of up to 700000000 bytes, and some beyond.
\<close>

theorem utl_decode_large_fails:
  assumes "536870911 \<le> length src" "length src < 1073741824" "ivorysql_utl_encode_base64_encode src = Inr r"
  shows "ivorysql_utl_encode_base64_decode r = Inl InvalidAllocSize"
proof -
  let ?n = "length (b64_chars src)"
  have f: "lines_fit src" "r = copy_lines (b64_chars src)"
    using assms(3) encode_lines [OF assms(2)] by (auto split: if_splits)
  have "178956971 \<le> (length src + 2) div 3" using assms(1) by simp
  then have n: "715827884 \<le> ?n" by (simp add: length_b64_chars)
  moreover have m: "?n \<le> 1073741823" using f(1) by (simp add: lines_fit_def length_copy_lines VARHDRSZ_def)
  ultimately have "wrap32 (int ?n * 3) = int ?n * 3 - 2 ^ 32" by (intro wrap32_above) simp_all
  then have "pg_b64_dec_len (int ?n) < - 4" using m by (simp add: pg_b64_dec_len_def drop_bit_eq_div)
  then have "palloc (VARHDRSZ + pg_b64_dec_len (int ?n)) = Inl InvalidAllocSize" by (simp add: palloc_def VARHDRSZ_def)
  moreover have "src \<noteq> []" using assms(1) by auto
  ultimately show ?thesis using decode_lines [OF f(1)] f(2) by simp
qed

theorem utl_decode_large_fails_witness:
  "\<exists>r. ivorysql_utl_encode_base64_encode (replicate 600000000 0) = Inr r \<and> ivorysql_utl_encode_base64_decode r = Inl InvalidAllocSize"
proof -
  have l: "length (replicate 600000000 (0 :: byte)) = 600000000" by (rule length_replicate)
  have b: "length (replicate 600000000 (0 :: byte)) \<le> 700000000" "length (replicate 600000000 (0 :: byte)) < 1073741824"
    "536870911 \<le> length (replicate 600000000 (0 :: byte))" unfolding l by simp_all
  have e: "ivorysql_utl_encode_base64_encode (replicate 600000000 0) = Inr (copy_lines (b64_chars (replicate 600000000 0)))"
    using encode_lines [OF b(2)] lines_fit_length [OF b(1)] by simp
  then show ?thesis using utl_decode_large_fails [OF b(3,2) e] by blast
qed

end
