(* ===== verification/Sched_Calendar.thy ===== *)
theory Sched_Calendar
  imports Pg_Calendar
begin

text \<open>
  Calendar strings of DBMS\_SCHEDULER
  (src/contrib/ivorysql\_ora/src/builtin\_packages/dbms\_scheduler/scheduler\_calendar.c): the parser of
  \<open>FREQ=...;INTERVAL=...;BY...=...\<close> and the search for the next run time.

  The fixed-size arrays of a rule are lists: the boolean sets keep their C size, the
  counted arrays are the list of the entries in use. Errors of the parser carry the
  detail message. Array accesses that C leaves undefined are the error
  \<open>DateError OutOfBounds\<close>.
\<close>

section \<open>Rules\<close>

datatype SchedFreq =
  FREQ_YEARLY | FREQ_MONTHLY | FREQ_WEEKLY | FREQ_DAILY | FREQ_HOURLY | FREQ_MINUTELY | FREQ_SECONDLY

record SchedByDay =
  dow :: int
  ord :: int

record SchedByDate =
  bd_year :: int
  bd_mon :: int
  bd_mday :: int

record CalendarRule =
  freq :: SchedFreq
  interval :: int
  bymonth :: "bool list"
  has_bymonth :: bool
  bymonthday :: "int list"
  byday :: "SchedByDay list"
  byday_has_ord :: bool
  bydate :: "SchedByDate list"
  byhour :: "bool list"
  has_byhour :: bool
  byminute :: "bool list"
  has_byminute :: bool
  bysecond :: "bool list"
  has_bysecond :: bool

datatype sched_error =
    EmptyCalendar
  | CalendarError string
  | UnsupportedClause string
  | DateError dt_error

type_synonym 'a sched = "(sched_error, 'a) res"

definition SCHED_MAX_PERIODS :: nat where "SCHED_MAX_PERIODS = 4000"

definition dt_lift :: "(dt_error, 'a) res \<Rightarrow> 'a sched" where
  "dt_lift r = (case r of Inl e \<Rightarrow> Inl (DateError e) | Inr a \<Rightarrow> Inr a)"

definition array_get :: "'a list \<Rightarrow> int \<Rightarrow> 'a sched" where
  "array_get xs i = (if 0 \<le> i \<and> i < int (length xs) then Inr (xs ! nat i) else Inl (DateError OutOfBounds))"

definition array_set :: "'a list \<Rightarrow> int \<Rightarrow> 'a \<Rightarrow> 'a list sched" where
  "array_set xs i v = (if 0 \<le> i \<and> i < int (length xs) then Inr (xs[nat i := v]) else Inl (DateError OutOfBounds))"

section \<open>Parsing\<close>

definition month_names :: "string list" where
  "month_names = [''JAN'', ''FEB'', ''MAR'', ''APR'', ''MAY'', ''JUN'',
                  ''JUL'', ''AUG'', ''SEP'', ''OCT'', ''NOV'', ''DEC'']"

definition day_names :: "(string \<times> int) list" where
  "day_names = [(''SUN'', 0), (''MON'', 1), (''TUE'', 2), (''WED'', 3), (''THU'', 4), (''FRI'', 5), (''SAT'', 6)]"

definition pg_toupper :: "dt_env \<Rightarrow> char \<Rightarrow> char" where
  "pg_toupper env c =
     (if 97 \<le> (of_char c :: nat) \<and> of_char c \<le> (122 :: nat) then char_of (of_char c - (32 :: nat))
      else if 128 \<le> (of_char c :: nat) then lc_toupper env c else c)"

definition is_space_char :: "char \<Rightarrow> bool" where
  "is_space_char c \<longleftrightarrow> c = CHR '' '' \<or> c = CHR 0x09 \<or> c = CHR 0x0A \<or> c = CHR 0x0D"

definition normalize_calendar :: "dt_env \<Rightarrow> string \<Rightarrow> string" where
  "normalize_calendar env s = map (pg_toupper env) (filter (\<lambda>c. \<not> is_space_char c) s)"

fun parse_digits :: "string \<Rightarrow> int \<Rightarrow> int option" where
  "parse_digits [] val = Some val"
| "parse_digits (c # cs) val =
     (if (of_char c :: int) < 48 \<or> of_char c > (57 :: int) then None
      else if val > (INT_MAX - 9) sdiv 10 then None
      else parse_digits cs (val * 10 + (of_char c - 48)))"

definition parse_int :: "string \<Rightarrow> int option" where
  "parse_int s =
     (let signed = (s \<noteq> [] \<and> (hd s = CHR ''-'' \<or> hd s = CHR ''+''));
          sign = (if s \<noteq> [] \<and> hd s = CHR ''-'' then -1 else 1);
          ds = (if signed then tl s else s)
      in if ds = [] then None
         else map_option (\<lambda>val. sign * val) (parse_digits ds 0))"

text \<open>
  The loop of \<open>parse_list\<close>: an item ends at a comma; a comma at the end of the list is
  skipped without an item after it.
\<close>

function parse_items :: "(string \<Rightarrow> CalendarRule \<Rightarrow> CalendarRule sched) \<Rightarrow> string \<Rightarrow> CalendarRule \<Rightarrow> CalendarRule sched" where
  "parse_items cb p rule =
     (if p = [] then Inr rule
      else
        (let item = takeWhile (\<lambda>c. c \<noteq> CHR '','') p;
             rest = dropWhile (\<lambda>c. c \<noteq> CHR '','') p
         in if item = [] then Inl (CalendarError ''empty element in value list.'')
            else bindR (cb item rule) (parse_items cb (tl rest))))"
  by pat_completeness auto
termination
  by (relation "measure (\<lambda>(cb, p, rule). length p)")
    (auto simp: less_eq_Suc_le [symmetric] intro!: le_less_trans [OF diff_le_mono [OF length_dropWhile_le]])

definition parse_list :: "(string \<Rightarrow> CalendarRule \<Rightarrow> CalendarRule sched) \<Rightarrow> string \<Rightarrow> CalendarRule \<Rightarrow> CalendarRule sched" where
  "parse_list cb value rule =
     (if value = [] then Inl (CalendarError ''empty value list.'') else parse_items cb value rule)"

definition days_in_month :: "int \<Rightarrow> int \<Rightarrow> int sched" where
  "days_in_month year month =
     (if month = 2 \<and> isleap year then Inr 29
      else array_get [31, 28, 31, 30, 31, 30, 31, 31, 30, 31, 30, 31] (month - 1))"

fun name_index :: "string \<Rightarrow> string list \<Rightarrow> int \<Rightarrow> int option" where
  "name_index item [] i = None"
| "name_index item (n # ns) i = (if take 3 item = n then Some i else name_index item ns (i + 1))"

definition bymonth_cb :: "string \<Rightarrow> CalendarRule \<Rightarrow> CalendarRule sched" where
  "bymonth_cb item rule =
     (let named = (if length item = 3 then name_index item month_names 0 else None);
          val = (case named of
              Some i \<Rightarrow> i + 1
            | None \<Rightarrow> (case parse_int item of Some v \<Rightarrow> v | None \<Rightarrow> - 1))
      in if val < 1 \<or> val > 12
         then Inl (CalendarError ''BYMONTH values must be month names or 1 through 12.'')
         else bindR (array_set (bymonth rule) val True) (\<lambda>ms. Inr (rule\<lparr>bymonth := ms\<rparr>)))"

definition bymonthday_cb :: "string \<Rightarrow> CalendarRule \<Rightarrow> CalendarRule sched" where
  "bymonthday_cb item rule =
     (case parse_int item of
        None \<Rightarrow> Inl (CalendarError ''BYMONTHDAY values must be -31 through -1 or 1 through 31.'')
      | Some val \<Rightarrow>
          if val = 0 \<or> val < - 31 \<or> val > 31
          then Inl (CalendarError ''BYMONTHDAY values must be -31 through -1 or 1 through 31.'')
          else if length (bymonthday rule) \<ge> 62 then Inl (CalendarError ''too many BYMONTHDAY values.'')
          else Inr (rule\<lparr>bymonthday := bymonthday rule @ [val]\<rparr>))"

fun day_name_dow :: "string \<Rightarrow> (string \<times> int) list \<Rightarrow> int" where
  "day_name_dow item [] = - 1"
| "day_name_dow item ((n, d) # ns) = (if take 3 item = n then d else day_name_dow item ns)"

definition byday_ordinal :: "string \<Rightarrow> (int \<times> string) sched" where
  "byday_ordinal item =
     (let len = length item
      in if len > 3 then
           (case parse_int (take (len - 3) item) of
              None \<Rightarrow> Inl (CalendarError ''BYDAY ordinal must be -5 through -1 or 1 through 5.'')
            | Some n \<Rightarrow>
                if n = 0 \<or> n < - 5 \<or> n > 5
                then Inl (CalendarError ''BYDAY ordinal must be -5 through -1 or 1 through 5.'')
                else Inr (n, drop (len - 3) item))
         else Inr (0, item))"

definition byday_add :: "int \<Rightarrow> string \<Rightarrow> CalendarRule \<Rightarrow> CalendarRule sched" where
  "byday_add n item rule =
     (let d = (if length item = 3 then day_name_dow item day_names
               else if length item = 1 then
                 (case parse_int item of Some k \<Rightarrow> if k \<ge> 1 \<and> k \<le> 7 then k smod 7 else - 1 | None \<Rightarrow> - 1)
               else - 1)
      in if d < 0 then Inl (CalendarError
           ''BYDAY values must be day names (MON through SUN) or 1 through 7, with an optional ordinal.'')
         else if length (byday rule) \<ge> 64 then Inl (CalendarError ''too many BYDAY values.'')
         else Inr (rule\<lparr>byday := byday rule @ [\<lparr>dow = d, ord = n\<rparr>], byday_has_ord := (byday_has_ord rule \<or> n \<noteq> 0)\<rparr>))"

definition byday_cb :: "string \<Rightarrow> CalendarRule \<Rightarrow> CalendarRule sched" where
  "byday_cb item rule = bindR (byday_ordinal item) (\<lambda>(n, item). byday_add n item rule)"

definition bydate_cb :: "string \<Rightarrow> CalendarRule \<Rightarrow> CalendarRule sched" where
  "bydate_cb item0 rule =
     (let len = length item0
      in if len \<noteq> 4 \<and> len \<noteq> 8 then Inl (CalendarError ''BYDATE values must be YYYYMMDD or MMDD.'')
         else bindR
           (if len = 8 then
              (case parse_int (take 4 item0) of
                 None \<Rightarrow> Inl (CalendarError ''BYDATE year must be a four-digit year.'')
               | Some y \<Rightarrow> if y < 1 then Inl (CalendarError ''BYDATE year must be a four-digit year.'') else Inr (y, drop 4 item0))
            else Inr (0, item0))
           (\<lambda>(year, item).
             case (parse_int (take 2 item), parse_int (take 2 (drop 2 item))) of
               (Some mon, Some mday) \<Rightarrow>
                 if mon < 1 \<or> mon > 12 then Inl (CalendarError ''BYDATE month must be 01 through 12.'')
                 else if mday < 1 \<or> mday > 31 then Inl (CalendarError ''BYDATE day must be 01 through 31.'')
                 else bindR (days_in_month (if year > 0 then year else 2000) mon) (\<lambda>dim.
                   if mday > dim then Inl (CalendarError ''BYDATE day is out of range for its month.'')
                   else if length (bydate rule) \<ge> 64 then Inl (CalendarError ''too many BYDATE values.'')
                   else Inr (rule\<lparr>bydate := bydate rule @ [\<lparr>bd_year = year, bd_mon = mon, bd_mday = mday\<rparr>]\<rparr>))
             | _ \<Rightarrow> Inl (CalendarError ''BYDATE values must be YYYYMMDD or MMDD.'')))"

definition byhour_cb :: "string \<Rightarrow> CalendarRule \<Rightarrow> CalendarRule sched" where
  "byhour_cb item rule =
     (case parse_int item of
        None \<Rightarrow> Inl (CalendarError ''BYHOUR values must be 0 through 23.'')
      | Some val \<Rightarrow>
          if val < 0 \<or> val > 23 then Inl (CalendarError ''BYHOUR values must be 0 through 23.'')
          else bindR (array_set (byhour rule) val True) (\<lambda>hs. Inr (rule\<lparr>byhour := hs\<rparr>)))"

definition byminute_cb :: "string \<Rightarrow> CalendarRule \<Rightarrow> CalendarRule sched" where
  "byminute_cb item rule =
     (case parse_int item of
        None \<Rightarrow> Inl (CalendarError ''BYMINUTE values must be 0 through 59.'')
      | Some val \<Rightarrow>
          if val < 0 \<or> val > 59 then Inl (CalendarError ''BYMINUTE values must be 0 through 59.'')
          else bindR (array_set (byminute rule) val True) (\<lambda>ms. Inr (rule\<lparr>byminute := ms\<rparr>)))"

definition bysecond_cb :: "string \<Rightarrow> CalendarRule \<Rightarrow> CalendarRule sched" where
  "bysecond_cb item rule =
     (case parse_int item of
        None \<Rightarrow> Inl (CalendarError ''BYSECOND values must be 0 through 59.'')
      | Some val \<Rightarrow>
          if val < 0 \<or> val > 59 then Inl (CalendarError ''BYSECOND values must be 0 through 59.'')
          else bindR (array_set (bysecond rule) val True) (\<lambda>ss. Inr (rule\<lparr>bysecond := ss\<rparr>)))"

text \<open>The parts of a string between semicolons.\<close>

fun split_semi :: "string \<Rightarrow> string list" where
  "split_semi [] = [[]]"
| "split_semi (c # cs) =
     (if c = CHR '';'' then [] # split_semi cs
      else (case split_semi cs of [] \<Rightarrow> [[c]] | p # ps \<Rightarrow> (c # p) # ps))"

text \<open>
  The clauses by number: the index into \<open>seen\<close> of \<open>parse_calendar\<close>.
\<close>

definition clause_index :: "string \<Rightarrow> nat option" where
  "clause_index name =
     (if name = ''FREQ'' then Some 0
      else if name = ''INTERVAL'' then Some 1
      else if name = ''BYMONTH'' then Some 2
      else if name = ''BYMONTHDAY'' then Some 3
      else if name = ''BYDAY'' then Some 4
      else if name = ''BYDATE'' then Some 8
      else if name = ''BYHOUR'' then Some 5
      else if name = ''BYMINUTE'' then Some 6
      else if name = ''BYSECOND'' then Some 7
      else None)"

definition parse_freq :: "string \<Rightarrow> SchedFreq sched" where
  "parse_freq value =
     (if value = ''YEARLY'' then Inr FREQ_YEARLY
      else if value = ''MONTHLY'' then Inr FREQ_MONTHLY
      else if value = ''WEEKLY'' then Inr FREQ_WEEKLY
      else if value = ''DAILY'' then Inr FREQ_DAILY
      else if value = ''HOURLY'' then Inr FREQ_HOURLY
      else if value = ''MINUTELY'' then Inr FREQ_MINUTELY
      else if value = ''SECONDLY'' then Inr FREQ_SECONDLY
      else Inl (CalendarError
        ''FREQ must be one of YEARLY, MONTHLY, WEEKLY, DAILY, HOURLY, MINUTELY or SECONDLY.''))"

definition parse_value :: "nat \<Rightarrow> string \<Rightarrow> CalendarRule \<Rightarrow> CalendarRule sched" where
  "parse_value i value rule =
     (if i = 0 then bindR (parse_freq value) (\<lambda>f. Inr (rule\<lparr>freq := f\<rparr>))
      else if i = 1 then
        (case parse_int value of
           None \<Rightarrow> Inl (CalendarError ''INTERVAL must be 1 through 99.'')
         | Some n \<Rightarrow>
             if n < 1 \<or> n > 99 then Inl (CalendarError ''INTERVAL must be 1 through 99.'')
             else Inr (rule\<lparr>interval := n\<rparr>))
      else if i = 2 then parse_list bymonth_cb value (rule\<lparr>has_bymonth := True\<rparr>)
      else if i = 3 then parse_list bymonthday_cb value rule
      else if i = 4 then parse_list byday_cb value rule
      else if i = 8 then parse_list bydate_cb value rule
      else if i = 5 then parse_list byhour_cb value (rule\<lparr>has_byhour := True\<rparr>)
      else if i = 6 then parse_list byminute_cb value (rule\<lparr>has_byminute := True\<rparr>)
      else parse_list bysecond_cb value (rule\<lparr>has_bysecond := True\<rparr>))"

fun parse_clauses :: "string list \<Rightarrow> nat list \<Rightarrow> CalendarRule \<Rightarrow> (nat list \<times> CalendarRule) sched" where
  "parse_clauses [] seen rule = Inr (seen, rule)"
| "parse_clauses (clause # cs) seen rule =
     (if clause = [] then parse_clauses cs seen rule
      else if CHR ''='' \<notin> set clause then Inl (CalendarError ''each clause must have the form NAME=VALUE.'')
      else
        (let name = takeWhile (\<lambda>c. c \<noteq> CHR ''='') clause;
             value = tl (dropWhile (\<lambda>c. c \<noteq> CHR ''='') clause)
         in case clause_index name of
              None \<Rightarrow> Inl (UnsupportedClause name)
            | Some i \<Rightarrow>
                if i \<in> set seen then Inl (CalendarError (''duplicate '' @ name @ '' clause.''))
                else bindR (parse_value i value rule) (parse_clauses cs (i # seen))))"

definition empty_rule :: CalendarRule where
  "empty_rule =
     \<lparr>freq = FREQ_YEARLY, interval = 1, bymonth = replicate 13 False, has_bymonth = False,
      bymonthday = [], byday = [], byday_has_ord = False, bydate = [],
      byhour = replicate 24 False, has_byhour = False,
      byminute = replicate 60 False, has_byminute = False,
      bysecond = replicate 60 False, has_bysecond = False\<rparr>"

definition parse_calendar :: "dt_env \<Rightarrow> string option \<Rightarrow> CalendarRule sched" where
  "parse_calendar env calendar =
     (case calendar of
        None \<Rightarrow> Inl EmptyCalendar
      | Some s \<Rightarrow>
          if s = [] then Inl EmptyCalendar
          else bindR (parse_clauses (split_semi (normalize_calendar env s)) [] empty_rule) (\<lambda>(seen, rule).
            if 0 \<notin> set seen then Inl (CalendarError ''FREQ clause is required.'')
            else if byday_has_ord rule \<and> freq rule \<noteq> FREQ_YEARLY \<and> freq rule \<noteq> FREQ_MONTHLY
            then Inl (CalendarError ''BYDAY ordinals are only supported with FREQ=YEARLY or FREQ=MONTHLY.'')
            else Inr rule))"

definition sched_calendar_validate :: "dt_env \<Rightarrow> string option \<Rightarrow> unit sched" where
  "sched_calendar_validate env calendar = bindR (parse_calendar env calendar) (\<lambda>_. Inr ())"

section \<open>Evaluation\<close>

definition bydate_matches :: "CalendarRule \<Rightarrow> int \<Rightarrow> int \<Rightarrow> int \<Rightarrow> bool" where
  "bydate_matches rule year mon mday =
     list_ex (\<lambda>bd. bd_mon bd = mon \<and> bd_mday bd = mday \<and> (bd_year bd = 0 \<or> bd_year bd = year)) (bydate rule)"

definition local_time_to_timestamptz ::
  "dt_env \<Rightarrow> int \<Rightarrow> int \<Rightarrow> int \<Rightarrow> int \<Rightarrow> int \<Rightarrow> int \<Rightarrow> int option sched" where
  "local_time_to_timestamptz env year mon mday hour minute sec =
     (let tm = \<lparr>tm_sec = sec, tm_min = minute, tm_hour = hour, tm_mday = mday, tm_mon = mon, tm_year = year,
                tm_isdst = - 1, tm_gmtoff = 0\<rparr>
      in dt_lift (tm2timestamp env tm 0 (Some (tz_offset env tm))))"

definition weekday_of :: "dt_env \<Rightarrow> int \<Rightarrow> int \<Rightarrow> int \<Rightarrow> int sched" where
  "weekday_of env year mon mday = dt_lift (bindR (date2j env year mon mday) (\<lambda>j. Inr (j2day j)))"

text \<open>
  The day-of-week filter of \<open>month_day_list\<close>: does some BYDAY entry accept day \<open>d\<close>?
\<close>

definition byday_accepts :: "dt_env \<Rightarrow> int \<Rightarrow> int \<Rightarrow> int \<Rightarrow> int \<Rightarrow> SchedByDay \<Rightarrow> bool sched" where
  "byday_accepts env year mon dim d bd =
     bindR (weekday_of env year mon d) (\<lambda>w.
     if w \<noteq> dow bd then Inr False
     else if ord bd = 0 then Inr True
     else bindR (weekday_of env year mon 1) (\<lambda>w1.
       let first_match = 1 + ((dow bd - w1) + 7) smod 7;
           nth = (d - first_match) sdiv 7 + 1
       in if ord bd > 0 then Inr (nth = ord bd)
          else Inr (nth = (dim - first_match) sdiv 7 + 1 + ord bd + 1)))"

definition mark_monthdays :: "CalendarRule \<Rightarrow> int \<Rightarrow> bool list \<Rightarrow> bool list sched" where
  "mark_monthdays rule dim =
     foldR (\<lambda>d0 mark.
       let d = (if d0 < 0 then dim + d0 + 1 else d0)
       in if d \<ge> 1 \<and> d \<le> dim then array_set mark d True else Inr mark) (bymonthday rule)"

definition filter_monthdays :: "dt_env \<Rightarrow> CalendarRule \<Rightarrow> int \<Rightarrow> int \<Rightarrow> int \<Rightarrow> bool list \<Rightarrow> bool list sched" where
  "filter_monthdays env rule year mon dim =
     foldR (\<lambda>d mark.
       bindR (array_get mark d) (\<lambda>m.
       if \<not> m then Inr mark
       else bindR (existsR (byday_accepts env year mon dim d) (byday rule)) (\<lambda>ok.
         if ok then Inr mark else array_set mark d False))) [1..dim]"

definition mark_weekdays :: "dt_env \<Rightarrow> CalendarRule \<Rightarrow> int \<Rightarrow> int \<Rightarrow> int \<Rightarrow> bool list \<Rightarrow> bool list sched" where
  "mark_weekdays env rule year mon dim =
     foldR (\<lambda>bd mark.
       bindR (weekday_of env year mon 1) (\<lambda>first_dow.
       let first_match = 1 + ((dow bd - first_dow) + 7) smod 7;
           count = (dim - first_match) sdiv 7 + 1
       in if ord bd = 0 then
            foldR (\<lambda>d mark. array_set mark d True) (filter (\<lambda>d. (d - first_match) mod 7 = 0) [first_match..dim]) mark
          else if ord bd > 0 then
            if ord bd \<le> count then array_set mark (first_match + (ord bd - 1) * 7) True else Inr mark
          else
            if - ord bd \<le> count then array_set mark (first_match + (count + ord bd) * 7) True else Inr mark)) (byday rule)"

definition mark_dates :: "CalendarRule \<Rightarrow> int \<Rightarrow> int \<Rightarrow> int \<Rightarrow> bool list \<Rightarrow> bool list sched" where
  "mark_dates rule year mon dim =
     foldR (\<lambda>bd mark.
       if bd_mon bd \<noteq> mon \<or> bd_year bd \<noteq> 0 \<and> bd_year bd \<noteq> year then Inr mark
       else if bd_mday bd \<le> dim then array_set mark (bd_mday bd) True
       else Inr mark) (bydate rule)"

definition filter_dates :: "CalendarRule \<Rightarrow> int \<Rightarrow> int \<Rightarrow> int \<Rightarrow> bool list \<Rightarrow> bool list sched" where
  "filter_dates rule year mon dim =
     foldR (\<lambda>d mark.
       bindR (array_get mark d) (\<lambda>m.
       if m \<and> \<not> bydate_matches rule year mon d then array_set mark d False else Inr mark)) [1..dim]"

definition month_day_list :: "dt_env \<Rightarrow> CalendarRule \<Rightarrow> int \<Rightarrow> int \<Rightarrow> int \<Rightarrow> int list sched" where
  "month_day_list env rule year mon fallback_mday =
     bindR (days_in_month year mon) (\<lambda>dim.
     let mark0 = replicate 32 False
     in bindR
          (if bymonthday rule \<noteq> [] then
             bindR (mark_monthdays rule dim mark0) (\<lambda>mark.
             if byday rule \<noteq> [] then filter_monthdays env rule year mon dim mark else Inr mark)
           else if byday rule \<noteq> [] then mark_weekdays env rule year mon dim mark0
           else if bydate rule \<noteq> [] then mark_dates rule year mon dim mark0
           else if fallback_mday \<le> dim then array_set mark0 fallback_mday True
           else Inr mark0)
          (\<lambda>mark.
             bindR
               (if bydate rule \<noteq> [] \<and> (bymonthday rule \<noteq> [] \<or> byday rule \<noteq> [])
                then filter_dates rule year mon dim mark else Inr mark)
               (\<lambda>mark. Inr (filter (\<lambda>d. mark ! nat d) [1..dim]))))"

definition set_to_list :: "bool list \<Rightarrow> nat \<Rightarrow> bool \<Rightarrow> int \<Rightarrow> int list" where
  "set_to_list bs setsize has_set fallback =
     (if has_set then map int (filter (\<lambda>i. bs ! i) [0..<setsize]) else [fallback])"

definition date_matches :: "dt_env \<Rightarrow> CalendarRule \<Rightarrow> int \<Rightarrow> int \<Rightarrow> int \<Rightarrow> bool sched" where
  "date_matches env rule year mon mday =
     bindR (if has_bymonth rule then array_get (bymonth rule) mon else Inr True) (\<lambda>ok.
     if \<not> ok then Inr False
     else bindR
       (if bymonthday rule \<noteq> [] then
          bindR (days_in_month year mon) (\<lambda>dim.
          Inr (list_ex (\<lambda>d. (if d < 0 then dim + d + 1 else d) = mday) (bymonthday rule)))
        else Inr True) (\<lambda>ok.
     if \<not> ok then Inr False
     else bindR
       (if byday rule \<noteq> [] then
          bindR (weekday_of env year mon mday) (\<lambda>w. Inr (list_ex (\<lambda>bd. dow bd = w) (byday rule)))
        else Inr True) (\<lambda>ok.
     if \<not> ok then Inr False
     else Inr (bydate rule \<noteq> [] \<longrightarrow> bydate_matches rule year mon mday))))"

text \<open>\<open>best\<close> and \<open>found\<close> are one optional timestamp.\<close>

definition consider_candidate :: "int \<Rightarrow> int \<Rightarrow> int \<Rightarrow> int option \<Rightarrow> bool \<times> int option" where
  "consider_candidate cand start after best =
     (if cand \<le> after \<or> cand < start then (False, best)
      else (True, case best of None \<Rightarrow> Some cand | Some b \<Rightarrow> if cand < b then Some cand else best))"

fun scan_times :: "dt_env \<Rightarrow> int \<Rightarrow> int \<Rightarrow> int \<Rightarrow> (int \<times> int \<times> int) list \<Rightarrow> int \<Rightarrow> int \<Rightarrow> int option \<Rightarrow> int option sched" where
  "scan_times env year mon mday [] start after best = Inr best"
| "scan_times env year mon mday ((h, mi, s) # ts) start after best =
     bindR (local_time_to_timestamptz env year mon mday h mi s) (\<lambda>c.
     case c of
       None \<Rightarrow> scan_times env year mon mday ts start after best
     | Some cand \<Rightarrow>
         (case consider_candidate cand start after best of
            (accepted, best) \<Rightarrow> if accepted then Inr best else scan_times env year mon mday ts start after best))"

definition times_of_day :: "CalendarRule \<Rightarrow> int \<Rightarrow> int \<Rightarrow> int \<Rightarrow> pg_tm \<Rightarrow> (int \<times> int \<times> int) list" where
  "times_of_day rule hour_fixed min_fixed sec_fixed tm_start =
     (let hours = (if hour_fixed \<ge> 0 then [hour_fixed] else set_to_list (byhour rule) 24 (has_byhour rule) (tm_hour tm_start));
          minutes = (if min_fixed \<ge> 0 then [min_fixed] else set_to_list (byminute rule) 60 (has_byminute rule) (tm_min tm_start));
          seconds = (if sec_fixed \<ge> 0 then [sec_fixed] else set_to_list (bysecond rule) 60 (has_bysecond rule) (tm_sec tm_start))
      in concat (map (\<lambda>h. concat (map (\<lambda>mi. map (\<lambda>s. (h, mi, s)) seconds) minutes)) hours))"

definition scan_times_on_date ::
  "dt_env \<Rightarrow> CalendarRule \<Rightarrow> int \<Rightarrow> int \<Rightarrow> int \<Rightarrow> int \<Rightarrow> int \<Rightarrow> int \<Rightarrow> pg_tm \<Rightarrow> int \<Rightarrow> int \<Rightarrow> int option \<Rightarrow> int option sched" where
  "scan_times_on_date env rule year mon mday hour_fixed min_fixed sec_fixed tm_start start after best =
     scan_times env year mon mday (times_of_day rule hour_fixed min_fixed sec_fixed tm_start) start after best"

text \<open>The loop over the days of a month: it stops once a candidate has been found.\<close>

fun scan_days :: "(int \<Rightarrow> int option \<Rightarrow> int option sched) \<Rightarrow> int list \<Rightarrow> int option \<Rightarrow> int option sched" where
  "scan_days scan [] best = Inr best"
| "scan_days scan (d # ds) best = (if best \<noteq> None then Inr best else bindR (scan d best) (scan_days scan ds))"

definition eval_yearly :: "dt_env \<Rightarrow> CalendarRule \<Rightarrow> pg_tm \<Rightarrow> int \<Rightarrow> int \<Rightarrow> int \<Rightarrow> int option sched" where
  "eval_yearly env rule tm_start start after k =
     (let year = tm_year tm_start + wrap32 (k * interval rule);
          months = (if has_bymonth rule then set_to_list (bymonth rule) 13 True (tm_mon tm_start)
                    else if bydate rule \<noteq> [] then [1..12]
                    else [tm_mon tm_start])
      in scan_days (\<lambda>mon best.
           bindR (month_day_list env rule year mon (tm_mday tm_start)) (\<lambda>days.
           scan_days (\<lambda>mday. scan_times_on_date env rule year mon mday (- 1) (- 1) (- 1) tm_start start after) days best))
         months None)"

definition eval_monthly :: "dt_env \<Rightarrow> CalendarRule \<Rightarrow> pg_tm \<Rightarrow> int \<Rightarrow> int \<Rightarrow> int \<Rightarrow> int option sched" where
  "eval_monthly env rule tm_start start after k =
     (let mindex = tm_year tm_start * 12 + (tm_mon tm_start - 1) + k * interval rule;
          year = wrap32 (mindex sdiv 12);
          mon = wrap32 (mindex smod 12) + 1
      in bindR (if has_bymonth rule then array_get (bymonth rule) mon else Inr True) (\<lambda>ok.
         if \<not> ok then Inr None
         else bindR (month_day_list env rule year mon (tm_mday tm_start)) (\<lambda>days.
           scan_days (\<lambda>mday. scan_times_on_date env rule year mon mday (- 1) (- 1) (- 1) tm_start start after) days None)))"

definition eval_weekly :: "dt_env \<Rightarrow> CalendarRule \<Rightarrow> pg_tm \<Rightarrow> int \<Rightarrow> int \<Rightarrow> int \<Rightarrow> int option sched" where
  "eval_weekly env rule tm_start start after k =
     bindR (dt_lift (date2j env (tm_year tm_start) (tm_mon tm_start) (tm_mday tm_start))) (\<lambda>j.
     let j0 = j + wrap32 (k * interval rule * 7)
     in scan_days (\<lambda>d best.
          let jd = j0 + d
          in if byday rule \<noteq> [] \<and> \<not> list_ex (\<lambda>bd. dow bd = j2day jd) (byday rule) then Inr best
             else if byday rule = [] \<and> d \<noteq> 0 then Inr best
             else
               (let (year, mon, mday) = j2date jd
                in bindR (if has_bymonth rule then array_get (bymonth rule) mon else Inr True) (\<lambda>ok.
                   if \<not> ok then Inr best
                   else scan_times_on_date env rule year mon mday (- 1) (- 1) (- 1) tm_start start after best)))
        [0..6] None)"

definition eval_daily :: "dt_env \<Rightarrow> CalendarRule \<Rightarrow> pg_tm \<Rightarrow> int \<Rightarrow> int \<Rightarrow> int \<Rightarrow> int option sched" where
  "eval_daily env rule tm_start start after k =
     bindR (dt_lift (date2j env (tm_year tm_start) (tm_mon tm_start) (tm_mday tm_start))) (\<lambda>j.
     let jd = j + wrap32 (k * interval rule);
         (year, mon, mday) = j2date jd
     in bindR (date_matches env rule year mon mday) (\<lambda>ok.
        if \<not> ok then Inr None
        else scan_times_on_date env rule year mon mday (- 1) (- 1) (- 1) tm_start start after None))"

definition eval_timed :: "dt_env \<Rightarrow> CalendarRule \<Rightarrow> pg_tm \<Rightarrow> int \<Rightarrow> int \<Rightarrow> int \<Rightarrow> int option sched" where
  "eval_timed env rule tm_start start after k =
     (let step_usec = (if freq rule = FREQ_HOURLY then interval rule * USECS_PER_HOUR
                       else if freq rule = FREQ_MINUTELY then interval rule * USECS_PER_MINUTE
                       else interval rule * USECS_PER_SEC);
          base = start + k * step_usec
      in case timestamp2tm env True base of
           None \<Rightarrow> Inr None
         | Some (tm, f2, _) \<Rightarrow>
             bindR (date_matches env rule (tm_year tm) (tm_mon tm) (tm_mday tm)) (\<lambda>ok.
             if \<not> ok then Inr None
             else bindR (if has_byhour rule then array_get (byhour rule) (tm_hour tm) else Inr True) (\<lambda>ok_hour.
             if \<not> ok_hour then Inr None
             else if freq rule = FREQ_HOURLY then
               scan_times_on_date env rule (tm_year tm) (tm_mon tm) (tm_mday tm) (tm_hour tm) (- 1) (- 1) tm_start start after None
             else bindR (if has_byminute rule then array_get (byminute rule) (tm_min tm) else Inr True) (\<lambda>ok_min.
             if \<not> ok_min then Inr None
             else if freq rule = FREQ_MINUTELY then
               scan_times_on_date env rule (tm_year tm) (tm_mon tm) (tm_mday tm) (tm_hour tm) (tm_min tm) (- 1) tm_start start after None
             else bindR (if has_bysecond rule then array_get (bysecond rule) (tm_sec tm) else Inr True) (\<lambda>ok_sec.
             if \<not> ok_sec then Inr None
             else Inr (snd (consider_candidate (base - f2) start after None)))))))"

text \<open>One turn of the loop of \<open>eval_calendar\<close>.\<close>

definition eval_period :: "dt_env \<Rightarrow> CalendarRule \<Rightarrow> pg_tm \<Rightarrow> int \<Rightarrow> int \<Rightarrow> int \<Rightarrow> int option sched" where
  "eval_period env rule tm_start start after k =
     (case freq rule of
        FREQ_YEARLY \<Rightarrow> eval_yearly env rule tm_start start after k
      | FREQ_MONTHLY \<Rightarrow> eval_monthly env rule tm_start start after k
      | FREQ_WEEKLY \<Rightarrow> eval_weekly env rule tm_start start after k
      | FREQ_DAILY \<Rightarrow> eval_daily env rule tm_start start after k
      | _ \<Rightarrow> eval_timed env rule tm_start start after k)"

fun eval_periods :: "(int \<Rightarrow> int option sched) \<Rightarrow> nat \<Rightarrow> int \<Rightarrow> int option sched" where
  "eval_periods period 0 k = Inr None"
| "eval_periods period (Suc n) k =
     bindR (period k) (\<lambda>r. if r \<noteq> None then Inr r else eval_periods period n (k + 1))"

text \<open>The number of periods the search may skip.\<close>

definition skip_periods :: "CalendarRule \<Rightarrow> int \<Rightarrow> int \<Rightarrow> int" where
  "skip_periods rule start after =
     (if after > start then
        (let diff_usec = after - start;
             periods = (case freq rule of
                 FREQ_SECONDLY \<Rightarrow> diff_usec sdiv (interval rule * USECS_PER_SEC)
               | FREQ_MINUTELY \<Rightarrow> diff_usec sdiv (interval rule * USECS_PER_MINUTE)
               | FREQ_HOURLY \<Rightarrow> diff_usec sdiv (interval rule * USECS_PER_HOUR)
               | FREQ_DAILY \<Rightarrow> diff_usec sdiv (interval rule * USECS_PER_DAY)
               | FREQ_WEEKLY \<Rightarrow> diff_usec sdiv (interval rule * 7 * USECS_PER_DAY)
               | FREQ_MONTHLY \<Rightarrow> (diff_usec sdiv USECS_PER_DAY sdiv 32) sdiv interval rule
               | FREQ_YEARLY \<Rightarrow> (diff_usec sdiv USECS_PER_DAY sdiv 366) sdiv interval rule)
         in if periods > 2 then periods - 2 else 0)
      else 0)"

definition eval_calendar :: "dt_env \<Rightarrow> CalendarRule \<Rightarrow> int \<Rightarrow> int \<Rightarrow> int option sched" where
  "eval_calendar env rule start after =
     (case timestamp2tm env True start of
        None \<Rightarrow> Inl (DateError TimestampOutOfRange)
      | Some (tm_start, _, _) \<Rightarrow>
          eval_periods (eval_period env rule tm_start start after) SCHED_MAX_PERIODS (skip_periods rule start after))"

definition sched_calendar_next :: "dt_env \<Rightarrow> string option \<Rightarrow> int \<Rightarrow> int \<Rightarrow> int option sched" where
  "sched_calendar_next env calendar start_date after =
     bindR (parse_calendar env calendar) (\<lambda>rule. eval_calendar env rule start_date after)"

end
