(* ===== verification/Sched_Parse.thy ===== *)
theory Sched_Parse
  imports Sched_Calendar
begin

text \<open>
  Correctness of the calendar string parser of \<open>Sched_Calendar\<close>: every rule it accepts is
  well-formed, so that the evaluation reads and writes its arrays within their bounds.
\<close>

section \<open>Well-formed rules\<close>

definition byday_ok :: "SchedByDay \<Rightarrow> bool" where
  "byday_ok bd \<longleftrightarrow> 0 \<le> dow bd \<and> dow bd \<le> 6 \<and> - 5 \<le> ord bd \<and> ord bd \<le> 5"

definition bydate_ok :: "SchedByDate \<Rightarrow> bool" where
  "bydate_ok bd \<longleftrightarrow> 0 \<le> bd_year bd \<and> valid_date (if bd_year bd > 0 then bd_year bd else 2000) (bd_mon bd) (bd_mday bd)"

definition sets_ok :: "CalendarRule \<Rightarrow> bool" where
  "sets_ok r \<longleftrightarrow> length (bymonth r) = 13 \<and> \<not> bymonth r ! 0 \<and> length (byhour r) = 24 \<and> length (byminute r) = 60
     \<and> length (bysecond r) = 60"

definition entries_ok :: "CalendarRule \<Rightarrow> bool" where
  "entries_ok r \<longleftrightarrow> 1 \<le> interval r \<and> interval r \<le> 99
     \<and> (\<forall>v \<in> set (bymonthday r). v \<noteq> 0 \<and> - 31 \<le> v \<and> v \<le> 31) \<and> length (bymonthday r) \<le> 62
     \<and> (\<forall>bd \<in> set (byday r). byday_ok bd) \<and> length (byday r) \<le> 64
     \<and> byday_has_ord r = (\<exists>bd \<in> set (byday r). ord bd \<noteq> 0)
     \<and> (\<forall>bd \<in> set (bydate r). bydate_ok bd) \<and> length (bydate r) \<le> 64"

text \<open>A BY clause on months, hours, minutes or seconds that is present allows some value.\<close>

definition month_given :: "CalendarRule \<Rightarrow> bool" where "month_given r \<longleftrightarrow> (has_bymonth r \<longrightarrow> True \<in> set (bymonth r))"
definition hour_given :: "CalendarRule \<Rightarrow> bool" where "hour_given r \<longleftrightarrow> (has_byhour r \<longrightarrow> True \<in> set (byhour r))"
definition minute_given :: "CalendarRule \<Rightarrow> bool" where "minute_given r \<longleftrightarrow> (has_byminute r \<longrightarrow> True \<in> set (byminute r))"
definition second_given :: "CalendarRule \<Rightarrow> bool" where "second_given r \<longleftrightarrow> (has_bysecond r \<longrightarrow> True \<in> set (bysecond r))"

lemmas given_defs = month_given_def hour_given_def minute_given_def second_given_def

definition rule_ok :: "CalendarRule \<Rightarrow> bool" where
  "rule_ok r \<longleftrightarrow> sets_ok r \<and> entries_ok r \<and> month_given r \<and> hour_given r \<and> minute_given r \<and> second_given r"

lemma array_set_Inr: "array_set xs i v = Inr ys \<longleftrightarrow> 0 \<le> i \<and> i < int (length xs) \<and> ys = xs[nat i := v]"
  by (auto simp: array_set_def)

lemma days_in_month_len:
  assumes "1 \<le> m" "m \<le> 12"
  shows "days_in_month y m = Inr (month_len y m)"
proof -
  have "m \<in> {1, 2, 3, 4, 5, 6, 7, 8, 9, 10, 11, 12}" using assms by (intro month_cases)
  then show ?thesis by (auto simp: days_in_month_def array_get_def month_len_def)
qed

section \<open>Lists of values\<close>

declare parse_items.simps [simp del]

lemma parse_items_keeps:
  assumes "parse_items cb p r = Inr r'" "I r" and step: "\<And>item r r'. I r \<Longrightarrow> cb item r = Inr r' \<Longrightarrow> I r'"
  shows "I r'"
  using assms
proof (induction cb p r rule: parse_items.induct)
  case (1 cb p r)
  show ?case
  proof (cases "p = []")
    case True
    then show ?thesis using 1 by (simp add: parse_items.simps)
  next
    case False
    let ?item = "takeWhile (\<lambda>c. c \<noteq> CHR '','') p" and ?rest = "dropWhile (\<lambda>c. c \<noteq> CHR '','') p"
    from 1(2) False obtain r1 where r1: "cb ?item r = Inr r1" "parse_items cb (tl ?rest) r1 = Inr r'" "?item \<noteq> []"
      by (subst (asm) parse_items.simps) (auto simp: Let_def bindR_eq_Inr split: if_splits)
    from 1(4) [OF 1(3) r1(1)] show ?thesis
      by (rule "1.IH" [OF False refl refl r1(3,1,2) _ 1(4)])
  qed
qed

lemma parse_list_keeps:
  assumes "parse_list cb v r = Inr r'" "I r"
    and step: "\<And>item r r'. I r \<Longrightarrow> cb item r = Inr r' \<Longrightarrow> I r' \<and> E r'"
  shows "I r' \<and> E r'"
proof -
  have "v \<noteq> []" using assms(1) by (auto simp: parse_list_def)
  with assms(1) obtain item rest r1 where "cb item r = Inr r1" "parse_items cb rest r1 = Inr r'"
    by (auto simp: parse_list_def parse_items.simps [of cb v] Let_def bindR_eq_Inr split: if_splits)
  then show ?thesis
    using parse_items_keeps [of cb rest r1 r' "\<lambda>r. I r \<and> E r"] step assms(2) by blast
qed

lemma bymonth_cb_keeps:
  assumes "bymonth_cb item r = Inr r'" "sets_ok r"
  shows "sets_ok r'" "month_given r'" "\<exists>ms. r' = r\<lparr>bymonth := ms\<rparr>"
proof -
  obtain val where v: "1 \<le> val" "r' = r\<lparr>bymonth := (bymonth r)[nat val := True]\<rparr>" "nat val < length (bymonth r)"
    using assms(1) by (auto simp: bymonth_cb_def Let_def bindR_eq_Inr array_set_Inr not_less nat_less_iff split: if_splits)
  show "\<exists>ms. r' = r\<lparr>bymonth := ms\<rparr>" using v(2) by blast
  show "sets_ok r'" using assms(2) v by (auto simp: sets_ok_def nth_list_update)
  show "month_given r'" using v by (simp add: month_given_def set_update_memI)
qed

lemma set_cb_keeps:
  "byhour_cb item r = Inr r' \<Longrightarrow> sets_ok r \<Longrightarrow> sets_ok r' \<and> hour_given r' \<and> (\<exists>hs. r' = r\<lparr>byhour := hs\<rparr>)"
  "byminute_cb item r = Inr r' \<Longrightarrow> sets_ok r \<Longrightarrow> sets_ok r' \<and> minute_given r' \<and> (\<exists>ms. r' = r\<lparr>byminute := ms\<rparr>)"
  "bysecond_cb item r = Inr r' \<Longrightarrow> sets_ok r \<Longrightarrow> sets_ok r' \<and> second_given r' \<and> (\<exists>ss. r' = r\<lparr>bysecond := ss\<rparr>)"
  by (auto simp: byhour_cb_def byminute_cb_def bysecond_cb_def bindR_eq_Inr array_set_Inr sets_ok_def given_defs
      set_update_memI nat_less_iff split: option.splits if_splits)

lemma bymonthday_cb_keeps:
  "bymonthday_cb item r = Inr r' \<Longrightarrow> entries_ok r \<Longrightarrow> entries_ok r' \<and> (\<exists>ds. r' = r\<lparr>bymonthday := ds\<rparr>)"
  by (auto simp: bymonthday_cb_def entries_ok_def split: option.splits if_splits)

lemma day_name_dow_range: "day_name_dow item day_names \<le> 6"
  by (simp add: day_names_def)

lemma byday_cb_keeps:
  assumes "byday_cb item r = Inr r'" "entries_ok r"
  shows "entries_ok r' \<and> (\<exists>ds b. r' = r\<lparr>byday := ds, byday_has_ord := b\<rparr>)"
proof -
  obtain n it where n: "byday_ordinal item = Inr (n, it)" "byday_add n it r = Inr r'"
    using assms(1) by (auto simp: byday_cb_def bindR_eq_Inr)
  have nb: "- 5 \<le> n" "n \<le> 5" using n(1) by (auto simp: byday_ordinal_def Let_def split: if_splits option.splits)
  show ?thesis
    using n(2) assms(2) nb day_name_dow_range [of it]
    by (auto simp: byday_add_def Let_def entries_ok_def byday_ok_def smod_nonneg split: if_splits option.splits)
qed

lemma bydate_cb_keeps:
  assumes "bydate_cb item r = Inr r'" "entries_ok r"
  shows "entries_ok r' \<and> (\<exists>ds. r' = r\<lparr>bydate := ds\<rparr>)"
proof -
  from assms(1) obtain y m d where r': "r' = r\<lparr>bydate := bydate r @ [\<lparr>bd_year = y, bd_mon = m, bd_mday = d\<rparr>]\<rparr>"
    "length (bydate r) < 64" "0 \<le> y" "1 \<le> m" "m \<le> 12" "1 \<le> d" "\<exists>dim. days_in_month (if y > 0 then y else 2000) m = Inr dim \<and> d \<le> dim"
    unfolding bydate_cb_def Let_def
    by (auto simp: bindR_eq_Inr split: if_splits option.splits)
  then have "valid_date (if y > 0 then y else 2000) m d"
    using days_in_month_len [OF r'(4,5)] by (auto simp: valid_date_def)
  with r' assms(2) show ?thesis by (auto simp: entries_ok_def bydate_ok_def)
qed

section \<open>Clauses\<close>

lemma given_update [simp]:
  "month_given (r\<lparr>byhour := a\<rparr>) = month_given r" "month_given (r\<lparr>byminute := a\<rparr>) = month_given r"
  "month_given (r\<lparr>bysecond := a\<rparr>) = month_given r" "hour_given (r\<lparr>bymonth := a\<rparr>) = hour_given r"
  "hour_given (r\<lparr>byminute := a\<rparr>) = hour_given r" "hour_given (r\<lparr>bysecond := a\<rparr>) = hour_given r"
  "minute_given (r\<lparr>bymonth := a\<rparr>) = minute_given r" "minute_given (r\<lparr>byhour := a\<rparr>) = minute_given r"
  "minute_given (r\<lparr>bysecond := a\<rparr>) = minute_given r" "second_given (r\<lparr>bymonth := a\<rparr>) = second_given r"
  "second_given (r\<lparr>byhour := a\<rparr>) = second_given r" "second_given (r\<lparr>byminute := a\<rparr>) = second_given r"
  by (simp_all add: given_defs)

lemma entries_ok_update [simp]:
  "entries_ok (r\<lparr>bymonth := a\<rparr>) = entries_ok r" "entries_ok (r\<lparr>byhour := a\<rparr>) = entries_ok r"
  "entries_ok (r\<lparr>byminute := a\<rparr>) = entries_ok r" "entries_ok (r\<lparr>bysecond := a\<rparr>) = entries_ok r"
  by (simp_all add: entries_ok_def)

lemma given_entries_update [simp]:
  "month_given (r\<lparr>bymonthday := a\<rparr>) = month_given r" "month_given (r\<lparr>byday := b, byday_has_ord := c\<rparr>) = month_given r"
  "month_given (r\<lparr>bydate := d\<rparr>) = month_given r"
  "hour_given (r\<lparr>bymonthday := a\<rparr>) = hour_given r" "hour_given (r\<lparr>byday := b, byday_has_ord := c\<rparr>) = hour_given r"
  "hour_given (r\<lparr>bydate := d\<rparr>) = hour_given r"
  "minute_given (r\<lparr>bymonthday := a\<rparr>) = minute_given r" "minute_given (r\<lparr>byday := b, byday_has_ord := c\<rparr>) = minute_given r"
  "minute_given (r\<lparr>bydate := d\<rparr>) = minute_given r"
  "second_given (r\<lparr>bymonthday := a\<rparr>) = second_given r" "second_given (r\<lparr>byday := b, byday_has_ord := c\<rparr>) = second_given r"
  "second_given (r\<lparr>bydate := d\<rparr>) = second_given r"
  by (simp_all add: given_defs)

lemma sets_ok_update [simp]:
  "sets_ok (r\<lparr>bymonthday := a\<rparr>) = sets_ok r" "sets_ok (r\<lparr>byday := b, byday_has_ord := c\<rparr>) = sets_ok r"
  "sets_ok (r\<lparr>bydate := d\<rparr>) = sets_ok r"
  by (simp_all add: sets_ok_def)

text \<open>The callbacks that append to a list keep the whole rule well-formed.\<close>

lemma rule_ok_lists:
  assumes "rule_ok r" "entries_ok r'"
    and "(\<exists>ds. r' = r\<lparr>bymonthday := ds\<rparr>) \<or> (\<exists>ds b. r' = r\<lparr>byday := ds, byday_has_ord := b\<rparr>) \<or> (\<exists>ds. r' = r\<lparr>bydate := ds\<rparr>)"
  shows "rule_ok r'"
  using assms by (elim disjE exE) (simp_all add: rule_ok_def)

lemma list_cb_keeps:
  "rule_ok r \<Longrightarrow> bymonthday_cb item r = Inr r' \<Longrightarrow> rule_ok r'"
  "rule_ok r \<Longrightarrow> byday_cb item r = Inr r' \<Longrightarrow> rule_ok r'"
  "rule_ok r \<Longrightarrow> bydate_cb item r = Inr r' \<Longrightarrow> rule_ok r'"
  using bymonthday_cb_keeps [of item r r'] byday_cb_keeps [of item r r'] bydate_cb_keeps [of item r r'] rule_ok_lists [of r r']
  by (auto simp: rule_ok_def [of r])

lemma parse_list_rule_ok:
  assumes "parse_list cb v r = Inr r'" "I r" "\<And>item r1 r2. I r1 \<Longrightarrow> cb item r1 = Inr r2 \<Longrightarrow> I r2 \<and> E r2"
    and "\<And>r. I r \<Longrightarrow> E r \<Longrightarrow> rule_ok r"
  shows "rule_ok r'"
proof -
  have "I r' \<and> E r'" by (rule parse_list_keeps [of cb v r r' I E]) (use assms(1-3) in blast)+
  then show ?thesis using assms(4) by blast
qed

text \<open>The callbacks that add to a set: the rest of the rule is kept and the set is not empty afterwards.\<close>

lemma parse_sets_keep:
  assumes r: "rule_ok r"
  shows "parse_list bymonth_cb v (r\<lparr>has_bymonth := True\<rparr>) = Inr r' \<Longrightarrow> rule_ok r'"
    and "parse_list byhour_cb v (r\<lparr>has_byhour := True\<rparr>) = Inr r' \<Longrightarrow> rule_ok r'"
    and "parse_list byminute_cb v (r\<lparr>has_byminute := True\<rparr>) = Inr r' \<Longrightarrow> rule_ok r'"
    and "parse_list bysecond_cb v (r\<lparr>has_bysecond := True\<rparr>) = Inr r' \<Longrightarrow> rule_ok r'"
proof -
  note rs = rule_ok_def sets_ok_def entries_ok_def given_defs
  show "rule_ok r'" if "parse_list bymonth_cb v (r\<lparr>has_bymonth := True\<rparr>) = Inr r'"
    by (rule parse_list_rule_ok [OF that, of "\<lambda>r. sets_ok r \<and> entries_ok r \<and> hour_given r \<and> minute_given r \<and> second_given r" month_given])
      (use r in \<open>simp add: rs\<close>, use bymonth_cb_keeps in fastforce, simp add: rule_ok_def)
  show "rule_ok r'" if "parse_list byhour_cb v (r\<lparr>has_byhour := True\<rparr>) = Inr r'"
    by (rule parse_list_rule_ok [OF that, of "\<lambda>r. sets_ok r \<and> entries_ok r \<and> month_given r \<and> minute_given r \<and> second_given r" hour_given])
      (use r in \<open>simp add: rs\<close>, use set_cb_keeps(1) in fastforce, simp add: rule_ok_def)
  show "rule_ok r'" if "parse_list byminute_cb v (r\<lparr>has_byminute := True\<rparr>) = Inr r'"
    by (rule parse_list_rule_ok [OF that, of "\<lambda>r. sets_ok r \<and> entries_ok r \<and> month_given r \<and> hour_given r \<and> second_given r" minute_given])
      (use r in \<open>simp add: rs\<close>, use set_cb_keeps(2) in fastforce, simp add: rule_ok_def)
  show "rule_ok r'" if "parse_list bysecond_cb v (r\<lparr>has_bysecond := True\<rparr>) = Inr r'"
    by (rule parse_list_rule_ok [OF that, of "\<lambda>r. sets_ok r \<and> entries_ok r \<and> month_given r \<and> hour_given r \<and> minute_given r" second_given])
      (use r in \<open>simp add: rs\<close>, use set_cb_keeps(3) in fastforce, simp add: rule_ok_def)
qed

lemma parse_value_keeps:
  assumes v: "parse_value i v r = Inr r'" and r: "rule_ok r"
  shows "rule_ok r'"
proof -
  have l: "rule_ok r'" if "parse_list cb v r = Inr r'" "\<And>item r r'. rule_ok r \<Longrightarrow> cb item r = Inr r' \<Longrightarrow> rule_ok r'" for cb
    by (rule parse_list_rule_ok [OF that(1), of rule_ok "\<lambda>_. True"]) (use r that(2) in auto)
  have f: "rule_ok (r\<lparr>freq := f\<rparr>)" "1 \<le> n \<Longrightarrow> n \<le> 99 \<Longrightarrow> rule_ok (r\<lparr>interval := n\<rparr>)" for f n
    using r by (simp_all add: rule_ok_def sets_ok_def entries_ok_def given_defs)
  show ?thesis
    using v l [OF _ list_cb_keeps(1)] l [OF _ list_cb_keeps(2)] l [OF _ list_cb_keeps(3)] parse_sets_keep [OF r, of v r'] f
    by (auto simp: parse_value_def bindR_eq_Inr split: if_splits option.splits)
qed

lemma parse_clauses_keeps:
  "parse_clauses cs seen r = Inr (seen', r') \<Longrightarrow> rule_ok r \<Longrightarrow> rule_ok r'"
proof (induction cs arbitrary: seen r)
  case (Cons c cs)
  then show ?case
    by (auto simp: Let_def bindR_eq_Inr dest: parse_value_keeps split: if_splits option.splits)
qed simp

lemma parse_calendar_rule_ok:
  assumes "parse_calendar env cal = Inr r"
  shows "rule_ok r \<and> ((\<exists>bd \<in> set (byday r). ord bd \<noteq> 0) \<longrightarrow> freq r = FREQ_YEARLY \<or> freq r = FREQ_MONTHLY)"
proof -
  have e: "rule_ok empty_rule" by (simp add: empty_rule_def rule_ok_def sets_ok_def entries_ok_def given_defs)
  obtain s seen where p: "parse_clauses (split_semi (normalize_calendar env s)) [] empty_rule = Inr (seen, r)"
    and o: "\<not> (byday_has_ord r \<and> freq r \<noteq> FREQ_YEARLY \<and> freq r \<noteq> FREQ_MONTHLY)"
    using assms by (auto simp: parse_calendar_def bindR_eq_Inr split: option.splits if_splits)
  have "rule_ok r" by (rule parse_clauses_keeps [OF p e])
  with o show ?thesis by (auto simp: rule_ok_def entries_ok_def)
qed

text \<open>
  C3 (accepted calendars are well-formed): every rule the parser accepts has an interval from 1 to 99, lists within
  their capacities whose entries are in range and denote existing dates, arrays of the
  declared sizes, a BY set that allows some value wherever the clause is present, and
  ordinals in BYDAY only together with a yearly or monthly frequency.
\<close>

theorem parse_calendar_ok:
  assumes "parse_calendar env cal = Inr r"
  shows "rule_ok r \<and> ((\<exists>bd \<in> set (byday r). ord bd \<noteq> 0) \<longrightarrow> freq r = FREQ_YEARLY \<or> freq r = FREQ_MONTHLY)"
  using assms by (rule parse_calendar_rule_ok)

theorem parse_calendar_ok_witness:
  "\<exists>r. parse_calendar utc_session (Some ''freq=monthly; byday=-1FRI,2MON; BYHOUR=6,18'') = Inr r \<and> rule_ok r \<and> byday_has_ord r"
proof -
  define r where "r = empty_rule\<lparr>freq := FREQ_MONTHLY, byday := [\<lparr>dow = 5, ord = - 1\<rparr>, \<lparr>dow = 1, ord = 2\<rparr>],
    byday_has_ord := True, byhour := (replicate 24 False)[6 := True, 18 := True], has_byhour := True\<rparr>"
  have "parse_calendar utc_session (Some ''freq=monthly; byday=-1FRI,2MON; BYHOUR=6,18'') = Inr r"
    unfolding r_def by code_simp
  with parse_calendar_ok [OF this] show ?thesis by (auto simp: r_def)
qed

end
