(* ===== verification/Sched_Days.thy ===== *)
theory Sched_Days
  imports Sched_Parse
begin

text \<open>
  The days of a month a calendar rule selects: \<open>month_day_list\<close> of \<open>Sched_Calendar\<close> generates
  candidates from the first BY clause given and filters them by the others on an
  array of marks. Here it is shown to select exactly the days on which every clause
  given holds.
\<close>

section \<open>What the clauses say\<close>

definition monthday_selects :: "int \<Rightarrow> int \<Rightarrow> int \<Rightarrow> int \<Rightarrow> bool" where
  "monthday_selects y m d v \<longleftrightarrow> d = (if v < 0 then month_len y m + v + 1 else v)"

text \<open>An ordinal counts the weekdays of the month from its start, a negative one from its end.\<close>

definition byday_selects :: "int \<Rightarrow> int \<Rightarrow> int \<Rightarrow> SchedByDay \<Rightarrow> bool" where
  "byday_selects y m d bd \<longleftrightarrow> j2day (date2j_core y m d) = dow bd
     \<and> (ord bd > 0 \<longrightarrow> ord bd = (d - 1) div 7 + 1)
     \<and> (ord bd < 0 \<longrightarrow> - ord bd = (month_len y m - d) div 7 + 1)"

definition clauses_hold :: "CalendarRule \<Rightarrow> int \<Rightarrow> int \<Rightarrow> int \<Rightarrow> bool" where
  "clauses_hold r y m d \<longleftrightarrow>
     (bymonthday r \<noteq> [] \<longrightarrow> list_ex (monthday_selects y m d) (bymonthday r))
     \<and> (byday r \<noteq> [] \<longrightarrow> list_ex (byday_selects y m d) (byday r))
     \<and> (bydate r \<noteq> [] \<longrightarrow> bydate_matches r y m d)"

definition day_selected :: "CalendarRule \<Rightarrow> int \<Rightarrow> int \<Rightarrow> int \<Rightarrow> int \<Rightarrow> bool" where
  "day_selected r y m fallback d \<longleftrightarrow>
     clauses_hold r y m d \<and> (bymonthday r = [] \<and> byday r = [] \<and> bydate r = [] \<longrightarrow> d = fallback)"

section \<open>Arrays of marks\<close>

definition marks :: "int \<Rightarrow> bool list \<Rightarrow> (int \<Rightarrow> bool) \<Rightarrow> bool" where
  "marks dim mark P \<longleftrightarrow> length mark = 32 \<and> (\<forall>d. 1 \<le> d \<longrightarrow> d \<le> dim \<longrightarrow> mark ! nat d = P d)"

lemma marks_empty: "dim \<le> 31 \<Longrightarrow> marks dim (replicate 32 False) (\<lambda>d. False)"
  by (auto simp: marks_def)

lemma marks_cong: "marks dim mark P \<Longrightarrow> (\<And>d. 1 \<le> d \<Longrightarrow> d \<le> dim \<Longrightarrow> P d = Q d) \<Longrightarrow> marks dim mark Q"
  by (simp add: marks_def)

lemma marks_set:
  assumes "marks dim mark P" "1 \<le> e" "e \<le> 31"
  shows "\<exists>mark'. array_set mark e v = Inr mark' \<and> marks dim mark' (P(e := v))"
  using assms by (auto simp: array_set_def marks_def nth_list_update)

lemma marks_get: "marks dim mark P \<Longrightarrow> 1 \<le> d \<Longrightarrow> d \<le> dim \<Longrightarrow> dim \<le> 31 \<Longrightarrow> array_get mark d = Inr (P d)"
  by (auto simp: array_get_def marks_def)

text \<open>A loop whose turns add marks, and one that reconsiders each day once.\<close>

lemma foldR_adds_marks:
  assumes "marks dim mark P"
    and "\<And>x mark P. x \<in> set xs \<Longrightarrow> marks dim mark P \<Longrightarrow> \<exists>mark'. f x mark = Inr mark' \<and> marks dim mark' (\<lambda>d. P d \<or> S x d)"
  shows "\<exists>mark'. foldR f xs mark = Inr mark' \<and> marks dim mark' (\<lambda>d. P d \<or> list_ex (\<lambda>x. S x d) xs)"
  using assms
proof (induction xs arbitrary: mark P)
  case Nil
  then show ?case by auto
next
  case (Cons x xs)
  obtain mark1 where m1: "f x mark = Inr mark1" "marks dim mark1 (\<lambda>d. P d \<or> S x d)"
    using Cons.prems(2) [OF list.set_intros(1) Cons.prems(1)] by blast
  obtain mark2 where "foldR f xs mark1 = Inr mark2" "marks dim mark2 (\<lambda>d. (P d \<or> S x d) \<or> list_ex (\<lambda>x. S x d) xs)"
    using Cons.IH [OF m1(2) Cons.prems(2) [OF list.set_intros(2)]] by blast
  then show ?case using m1(1) by (auto simp: disj_assoc)
qed

lemma foldR_filters_marks:
  assumes "marks dim mark P" "distinct ds" "set ds \<subseteq> {1..dim}"
    and "\<And>d mark P. d \<in> set ds \<Longrightarrow> marks dim mark P \<Longrightarrow> \<exists>mark'. f d mark = Inr mark' \<and> marks dim mark' (P(d := P d \<and> A d))"
  shows "\<exists>mark'. foldR f ds mark = Inr mark' \<and> marks dim mark' (\<lambda>d. P d \<and> (d \<in> set ds \<longrightarrow> A d))"
  using assms
proof (induction ds arbitrary: mark P)
  case Nil
  then show ?case by auto
next
  case (Cons e ds)
  obtain mark1 where m1: "f e mark = Inr mark1" "marks dim mark1 (P(e := P e \<and> A e))"
    using Cons.prems(4) [OF list.set_intros(1) Cons.prems(1)] by blast
  obtain mark2 where m2: "foldR f ds mark1 = Inr mark2"
    "marks dim mark2 (\<lambda>d. (P(e := P e \<and> A e)) d \<and> (d \<in> set ds \<longrightarrow> A d))"
    using Cons.IH [OF m1(2) _ _ Cons.prems(4) [OF list.set_intros(2)]] Cons.prems(2,3) by force
  have "marks dim mark2 (\<lambda>d. P d \<and> (d \<in> set (e # ds) \<longrightarrow> A d))"
    by (rule marks_cong [OF m2(2)]) (use Cons.prems(2) in auto)
  then show ?case using m1(1) m2(1) by auto
qed

section \<open>Weekdays of a month\<close>

lemma weekday_of_core:
  assumes "ora_mode env \<longrightarrow> y \<noteq> 0" "1 \<le> m"
  shows "weekday_of env y m d = Inr (j2day (date2j_core y m d))"
  using assms by (simp add: weekday_of_def dt_lift_def date2j_pure)

lemma weekday_of_day: "j2day (date2j_core y m d) = (j2day (date2j_core y m 1) + (d - 1)) mod 7"
proof -
  have "date2j_core y m d + 1 = (date2j_core y m 1 + 1) + (d - 1)" using date2j_core_day [of y m d] by simp
  then show ?thesis unfolding j2day_mod by (simp add: mod_add_left_eq)
qed

text \<open>
  The first day of the month on weekday \<open>w\<close>; a later day \<open>d\<close> falls on \<open>w\<close> when it is whole
  weeks after it, and the number of weeks gives its position from either end.
\<close>

definition first_on :: "int \<Rightarrow> int \<Rightarrow> int" where
  "first_on w1 w = 1 + ((w - w1) + 7) smod 7"

lemma first_on_mod:
  assumes "0 \<le> w1" "w1 < 7" "0 \<le> w"
  shows "first_on w1 w = 1 + (w - w1) mod 7"
  using assms by (simp add: first_on_def smod_nonneg)

lemma first_on_bounds: "0 \<le> w1 \<Longrightarrow> w1 < 7 \<Longrightarrow> 0 \<le> w \<Longrightarrow> 1 \<le> first_on w1 w \<and> first_on w1 w \<le> 7"
  by (simp add: first_on_mod zle_add1_eq_le [symmetric] del: zle_add1_eq_le)

lemma on_weekday_iff:
  assumes w: "0 \<le> w1" "w1 < 7" "0 \<le> w" "w < 7"
  shows "(w1 + (d - 1)) mod 7 = w \<longleftrightarrow> (d - first_on w1 w) mod 7 = 0"
proof -
  have "(d - first_on w1 w) mod 7 = ((d - 1) - (w - w1) mod 7) mod 7"
    using first_on_mod [OF w(1,2,3)] by (simp add: algebra_simps)
  also have "\<dots> = (w1 + (d - 1) - w) mod 7" by (simp only: mod_diff_right_eq) (simp add: algebra_simps)
  finally have e: "(d - first_on w1 w) mod 7 = 0 \<longleftrightarrow> 7 dvd (w1 + (d - 1) - w)" by (simp add: dvd_eq_mod_eq_0)
  have "(w1 + (d - 1)) mod 7 = w mod 7 \<longleftrightarrow> 7 dvd (w1 + (d - 1) - w)" by (rule mod_eq_dvd_iff)
  with e w show ?thesis by simp
qed

lemma weeks_after_first:
  assumes f: "1 \<le> f" "f \<le> 7" and d: "1 \<le> d" "d \<le> n" and w: "(d - f) mod 7 = (0::int)"
  obtains q where "0 \<le> q" "d = f + 7 * q" "(d - f) sdiv 7 = q" "(d - 1) div 7 = q"
    "(n - f) sdiv 7 = (n - d) div 7 + q"
proof -
  define q where "q = (d - f) div 7"
  have e: "d = f + 7 * q" using w unfolding q_def by (metis add.commute diff_add_cancel mult_div_mod_eq add_0_right)
  have q: "0 \<le> q" using e f d by simp
  have "(d - f) sdiv 7 = q" using e q by (simp add: sdiv_nonneg)
  moreover have "(d - 1) div 7 = q" by (rule int_div_pos_eq [of _ _ _ "f - 1"]) (use e f in auto)
  moreover have "(n - f) sdiv 7 = (n - d) div 7 + q"
  proof -
    have nf: "n - f = (n - d) + q * 7" using e by simp
    then have "0 \<le> n - f" using d q by simp
    then have "(n - f) sdiv 7 = (n - f) div 7" by (simp add: sdiv_nonneg)
    also have "\<dots> = (n - d) div 7 + q" unfolding nf by simp
    finally show ?thesis .
  qed
  ultimately show thesis using that q e by blast
qed

text \<open>The weekday arithmetic of the code, for a BYDAY entry in a month that starts on weekday \<open>w1\<close>.\<close>

lemma byday_selects_iff:
  assumes b: "byday_ok bd" and m: "1 \<le> m" "m \<le> 12" and d: "1 \<le> d" "d \<le> month_len y m"
  defines "f \<equiv> first_on (j2day (date2j_core y m 1)) (dow bd)"
  shows "byday_selects y m d bd \<longleftrightarrow> j2day (date2j_core y m d) = dow bd
     \<and> (ord bd > 0 \<longrightarrow> (d - f) sdiv 7 + 1 = ord bd)
     \<and> (ord bd < 0 \<longrightarrow> (d - f) sdiv 7 + 1 = (month_len y m - f) sdiv 7 + 1 + ord bd + 1)"
    and "byday_selects y m d bd \<longleftrightarrow>
      (if ord bd = 0 then (d - f) mod 7 = 0
       else if ord bd > 0 then d = f + (ord bd - 1) * 7
       else d = f + ((month_len y m - f) sdiv 7 + 1 + ord bd) * 7)"
    and "1 \<le> f" "f \<le> 7"
proof -
  let ?w1 = "j2day (date2j_core y m 1)" and ?n = "month_len y m"
  have w: "0 \<le> ?w1" "?w1 < 7" "0 \<le> dow bd" "dow bd < 7" using j2day_bounds b by (auto simp: byday_ok_def)
  show f: "1 \<le> f" "f \<le> 7" using first_on_bounds [OF w(1-3)] by (auto simp: f_def)
  have on: "j2day (date2j_core y m d) = dow bd \<longleftrightarrow> (d - f) mod 7 = 0"
    unfolding weekday_of_day [of y m d] f_def by (rule on_weekday_iff [OF w])
  have A: "byday_selects y m d bd \<longleftrightarrow> (d - f) mod 7 = 0 \<and> (ord bd > 0 \<longrightarrow> (d - f) sdiv 7 + 1 = ord bd)
     \<and> (ord bd < 0 \<longrightarrow> (d - f) sdiv 7 + 1 = (?n - f) sdiv 7 + 1 + ord bd + 1)"
  proof (cases "(d - f) mod 7 = 0")
    case True
    then obtain q where "(d - f) sdiv 7 = q" "(d - 1) div 7 = q" "(?n - f) sdiv 7 = (?n - d) div 7 + q"
      using weeks_after_first [OF f d] by metis
    with True show ?thesis by (auto simp: byday_selects_def on)
  qed (simp add: byday_selects_def on)
  then show "byday_selects y m d bd \<longleftrightarrow> j2day (date2j_core y m d) = dow bd
     \<and> (ord bd > 0 \<longrightarrow> (d - f) sdiv 7 + 1 = ord bd)
     \<and> (ord bd < 0 \<longrightarrow> (d - f) sdiv 7 + 1 = (?n - f) sdiv 7 + 1 + ord bd + 1)" by (simp only: on)
  have B: "(d - f) mod 7 = 0 \<and> (d - f) sdiv 7 = k \<longleftrightarrow> d = f + k * 7" for k
  proof
    assume "(d - f) mod 7 = 0 \<and> (d - f) sdiv 7 = k"
    then show "d = f + k * 7" using weeks_after_first [OF f d] by (metis mult.commute)
  next
    assume "d = f + k * 7"
    moreover from this have "0 \<le> k" using f d by simp
    ultimately show "(d - f) mod 7 = 0 \<and> (d - f) sdiv 7 = k" by (simp add: sdiv_nonneg)
  qed
  show "byday_selects y m d bd \<longleftrightarrow> (if ord bd = 0 then (d - f) mod 7 = 0
       else if ord bd > 0 then d = f + (ord bd - 1) * 7 else d = f + ((?n - f) sdiv 7 + 1 + ord bd) * 7)"
    using A B [of "ord bd - 1"] B [of "(?n - f) sdiv 7 + 1 + ord bd"] by (auto simp: algebra_simps)
qed

lemma byday_accepts_selects:
  assumes "byday_ok bd" "1 \<le> m" "m \<le> 12" "1 \<le> d" "d \<le> month_len y m" "ora_mode env \<longrightarrow> y \<noteq> 0"
  shows "byday_accepts env y m (month_len y m) d bd = Inr (byday_selects y m d bd)"
  using byday_selects_iff(1) [OF assms(1-5)]
  by (auto simp: byday_accepts_def weekday_of_core assms first_on_def [symmetric] Let_def)

section \<open>The loops of \<open>month_day_list\<close>\<close>

lemma mark_monthdays_marks:
  assumes "1 \<le> m" "m \<le> 12" "marks (month_len y m) mark (\<lambda>d. False)"
  shows "\<exists>mark'. mark_monthdays r (month_len y m) mark = Inr mark'
    \<and> marks (month_len y m) mark' (\<lambda>d. list_ex (monthday_selects y m d) (bymonthday r))"
proof -
  let ?n = "month_len y m"
  have n: "?n \<le> 31" using month_len_bounds assms by auto
  have "\<exists>mark'. foldR (\<lambda>d0 mark. let d = if d0 < 0 then ?n + d0 + 1 else d0
      in if d \<ge> 1 \<and> d \<le> ?n then array_set mark d True else Inr mark) (bymonthday r) mark = Inr mark'
    \<and> marks ?n mark' (\<lambda>d. False \<or> list_ex (\<lambda>v. monthday_selects y m d v) (bymonthday r))"
  proof (rule foldR_adds_marks [OF assms(3)], goal_cases)
    case (1 v mk P)
    define e where "e = (if v < 0 then ?n + v + 1 else v)"
    show ?case
    proof (cases "1 \<le> e \<and> e \<le> ?n")
      case True
      then obtain mk' where "array_set mk e True = Inr mk'" "marks ?n mk' (P(e := True))"
        using marks_set [OF 1(2), of e True] n by auto
      moreover from this(2) have "marks ?n mk' (\<lambda>d. P d \<or> monthday_selects y m d v)"
        by (rule marks_cong) (auto simp: monthday_selects_def e_def)
      ultimately show ?thesis using True unfolding Let_def e_def [symmetric] by auto
    next
      case False
      have "marks ?n mk (\<lambda>d. P d \<or> monthday_selects y m d v)"
        by (rule marks_cong [OF 1(2)]) (use False in \<open>auto simp: monthday_selects_def e_def [symmetric]\<close>)
      then show ?thesis using False unfolding Let_def e_def [symmetric] by auto
    qed
  qed
  then show ?thesis by (simp add: mark_monthdays_def)
qed

lemma mark_dates_marks:
  assumes "1 \<le> m" "m \<le> 12" "marks (month_len y m) mark (\<lambda>d. False)" "\<forall>bd \<in> set (bydate r). bydate_ok bd"
  shows "\<exists>mark'. mark_dates r y m (month_len y m) mark = Inr mark'
    \<and> marks (month_len y m) mark' (bydate_matches r y m)"
proof -
  let ?n = "month_len y m"
  have n: "?n \<le> 31" using month_len_bounds assms by auto
  have "\<exists>mark'. mark_dates r y m ?n mark = Inr mark' \<and> marks ?n mark' (\<lambda>d. False \<or> list_ex
    (\<lambda>bd. bd_mon bd = m \<and> bd_mday bd = d \<and> (bd_year bd = 0 \<or> bd_year bd = y)) (bydate r))"
    unfolding mark_dates_def
  proof (rule foldR_adds_marks [OF assms(3)], goal_cases)
    case (1 bd mk P)
    have e: "1 \<le> bd_mday bd" using assms(4) 1(1) by (auto simp: bydate_ok_def valid_date_def)
    show ?case
    proof (cases "bd_mon bd = m \<and> (bd_year bd = 0 \<or> bd_year bd = y) \<and> bd_mday bd \<le> ?n")
      case True
      then obtain mk' where "array_set mk (bd_mday bd) True = Inr mk'" "marks ?n mk' (P(bd_mday bd := True))"
        using marks_set [OF 1(2) e, of True] n by auto
      moreover from this(2) have "marks ?n mk' (\<lambda>d. P d \<or> bd_mon bd = m \<and> bd_mday bd = d \<and> (bd_year bd = 0 \<or> bd_year bd = y))"
        by (rule marks_cong) (use True in auto)
      ultimately show ?thesis using True by auto
    next
      case False
      have "marks ?n mk (\<lambda>d. P d \<or> bd_mon bd = m \<and> bd_mday bd = d \<and> (bd_year bd = 0 \<or> bd_year bd = y))"
        by (rule marks_cong [OF 1(2)]) (use False in auto)
      then show ?thesis using False by auto
    qed
  qed
  then show ?thesis by (simp add: bydate_matches_def [abs_def])
qed

lemma marks_weekly:
  assumes "marks n mark P" "n \<le> 31" "1 \<le> f"
  shows "\<exists>mark'. foldR (\<lambda>d mark. array_set mark d True) (filter (\<lambda>d. (d - f) mod 7 = 0) [f..n]) mark = Inr mark'
    \<and> marks n mark' (\<lambda>d. P d \<or> d \<ge> f \<and> (d - f) mod 7 = 0)"
proof -
  let ?ds = "filter (\<lambda>d. (d - f) mod 7 = 0) [f..n]"
  have "\<exists>mark'. foldR (\<lambda>d mark. array_set mark d True) ?ds mark = Inr mark'
    \<and> marks n mark' (\<lambda>d. P d \<or> list_ex (\<lambda>e. d = e) ?ds)"
  proof (rule foldR_adds_marks [OF assms(1)], goal_cases)
    case (1 e mk Q)
    then have "1 \<le> e" "e \<le> 31" using assms by auto
    with marks_set [OF 1(2), of e True] obtain mk' where "array_set mk e True = Inr mk'" "marks n mk' (Q(e := True))" by auto
    moreover from this(2) have "marks n mk' (\<lambda>d. Q d \<or> d = e)" by (rule marks_cong) auto
    ultimately show ?case by auto
  qed
  then obtain mk' where m: "foldR (\<lambda>d mark. array_set mark d True) ?ds mark = Inr mk'"
    "marks n mk' (\<lambda>d. P d \<or> list_ex (\<lambda>e. d = e) ?ds)" by blast
  have "marks n mk' (\<lambda>d. P d \<or> d \<ge> f \<and> (d - f) mod 7 = 0)"
    by (rule marks_cong [OF m(2)]) (auto simp: list_ex_iff)
  with m(1) show ?thesis by blast
qed

lemma marks_one:
  assumes "marks n mark P" "n \<le> 31" "c \<longleftrightarrow> 1 \<le> e \<and> e \<le> n"
  shows "\<exists>mark'. (if c then array_set mark e True else Inr mark) = Inr mark' \<and> marks n mark' (\<lambda>d. P d \<or> d = e)"
proof (cases c)
  case True
  with assms marks_set [OF assms(1), of e True] obtain mk where m: "array_set mark e True = Inr mk" "marks n mk (P(e := True))"
    by auto
  have "marks n mk (\<lambda>d. P d \<or> d = e)" by (rule marks_cong [OF m(2)]) auto
  with m True show ?thesis by auto
next
  case False
  have "marks n mark (\<lambda>d. P d \<or> d = e)" by (rule marks_cong [OF assms(1)]) (use False assms(3) in auto)
  with False show ?thesis by auto
qed

lemma mark_weekdays_marks:
  assumes m: "1 \<le> m" "m \<le> 12" and mk: "marks (month_len y m) mark (\<lambda>d. False)"
    and b: "\<forall>bd \<in> set (byday r). byday_ok bd" and pure: "ora_mode env \<longrightarrow> y \<noteq> 0"
  shows "\<exists>mark'. mark_weekdays env r y m (month_len y m) mark = Inr mark'
    \<and> marks (month_len y m) mark' (\<lambda>d. list_ex (byday_selects y m d) (byday r))"
proof -
  let ?n = "month_len y m"
  have n: "28 \<le> ?n" "?n \<le> 31" using month_len_bounds m by auto
  have "\<exists>mark'. mark_weekdays env r y m ?n mark = Inr mark'
    \<and> marks ?n mark' (\<lambda>d. False \<or> list_ex (\<lambda>bd. byday_selects y m d bd) (byday r))"
    unfolding mark_weekdays_def weekday_of_core [OF pure m(1)] bindR_Inr
  proof (rule foldR_adds_marks [OF mk], goal_cases)
    case (1 bd mk P)
    note mks = 1(2)
    let ?w = "j2day (date2j_core y m 1)"
    define f where "f = first_on ?w (dow bd)"
    define c where "c = (?n - f) sdiv 7 + 1"
    have ok: "byday_ok bd" using b 1(1) by blast
    have sel: "byday_selects y m d bd \<longleftrightarrow> (if ord bd = 0 then (d - f) mod 7 = 0
       else if ord bd > 0 then d = f + (ord bd - 1) * 7 else d = f + (c + ord bd) * 7)" if "1 \<le> d" "d \<le> ?n" for d
      using byday_selects_iff(2) [OF ok m that] unfolding f_def [symmetric] c_def .
    have f: "1 \<le> f" "f \<le> 7" using byday_selects_iff(3,4) [OF ok m, of 1 y] n by (auto simp: f_def)
    have c: "c = (?n - f) div 7 + 1" using f n by (simp add: c_def sdiv_nonneg)
    have inside: "f + k * 7 \<le> ?n \<longleftrightarrow> k < c" for k
      unfolding c by presburger
    consider "ord bd = 0" | "ord bd > 0" | "ord bd < 0" by linarith
    then show ?case
    proof cases
      case 1
      obtain mk' where m': "foldR (\<lambda>d mark. array_set mark d True) (filter (\<lambda>d. (d - f) mod 7 = 0) [f..?n]) mk = Inr mk'"
        "marks ?n mk' (\<lambda>d. P d \<or> d \<ge> f \<and> (d - f) mod 7 = 0)"
        using marks_weekly [OF mks n(2) f(1)] by blast
      have "d \<ge> f" if "1 \<le> d" "d \<le> ?n" "(d - f) mod 7 = 0" for d
        by (rule weeks_after_first [OF f that]) simp
      then have "marks ?n mk' (\<lambda>d. P d \<or> byday_selects y m d bd)"
        by (intro marks_cong [OF m'(2)]) (use 1 sel in auto)
      with m'(1) 1 show ?thesis
        by (intro exI [of _ mk'] conjI) (simp_all add: Let_def first_on_def [symmetric] f_def [symmetric])
    next
      case 2
      obtain mk' where m': "(if ord bd \<le> c then array_set mk (f + (ord bd - 1) * 7) True else Inr mk) = Inr mk'"
        "marks ?n mk' (\<lambda>d. P d \<or> d = f + (ord bd - 1) * 7)"
        using marks_one [OF mks n(2), of "ord bd \<le> c" "f + (ord bd - 1) * 7"] inside [of "ord bd - 1"] f 2 by auto
      have "marks ?n mk' (\<lambda>d. P d \<or> byday_selects y m d bd)" by (rule marks_cong [OF m'(2)]) (use 2 sel in auto)
      with m'(1) 2 show ?thesis
        by (intro exI [of _ mk'] conjI) (simp_all add: Let_def first_on_def [symmetric] f_def [symmetric] c_def [symmetric])
    next
      case 3
      have cond: "- ord bd \<le> c \<longleftrightarrow> 1 \<le> f + (c + ord bd) * 7 \<and> f + (c + ord bd) * 7 \<le> ?n"
        using inside [of "c + ord bd"] f 3 by (simp add: algebra_simps) presburger
      obtain mk' where m': "(if - ord bd \<le> c then array_set mk (f + (c + ord bd) * 7) True else Inr mk) = Inr mk'"
        "marks ?n mk' (\<lambda>d. P d \<or> d = f + (c + ord bd) * 7)"
        using marks_one [OF mks n(2) cond] by blast
      have "marks ?n mk' (\<lambda>d. P d \<or> byday_selects y m d bd)" by (rule marks_cong [OF m'(2)]) (use 3 sel in auto)
      with m'(1) 3 show ?thesis
        by (intro exI [of _ mk'] conjI) (simp_all add: Let_def first_on_def [symmetric] f_def [symmetric] c_def [symmetric]
          split: if_splits)
    qed
  qed
  then show ?thesis by simp
qed

lemma filter_marks_step:
  assumes "marks n mark P" "1 \<le> d" "d \<le> n" "n \<le> 31"
  shows "\<exists>mark'. (if P d \<and> \<not> A then array_set mark d False else Inr mark) = Inr mark' \<and> marks n mark' (P(d := P d \<and> A))"
  using marks_set [OF assms(1), of d False] assms by (cases "P d"; cases A) (auto simp: fun_upd_idem)

lemma filter_monthdays_marks:
  assumes m: "1 \<le> m" "m \<le> 12" and mk: "marks (month_len y m) mark P"
    and b: "\<forall>bd \<in> set (byday r). byday_ok bd" and pure: "ora_mode env \<longrightarrow> y \<noteq> 0"
  shows "\<exists>mark'. filter_monthdays env r y m (month_len y m) mark = Inr mark'
    \<and> marks (month_len y m) mark' (\<lambda>d. P d \<and> list_ex (byday_selects y m d) (byday r))"
proof -
  let ?n = "month_len y m"
  have n: "?n \<le> 31" using month_len_bounds m by auto
  obtain mk' where m': "filter_monthdays env r y m ?n mark = Inr mk'"
    "marks ?n mk' (\<lambda>d. P d \<and> (d \<in> set [1..?n] \<longrightarrow> list_ex (byday_selects y m d) (byday r)))"
    unfolding filter_monthdays_def
  proof (atomize_elim, rule foldR_filters_marks [OF mk], goal_cases)
    case (3 d mk P)
    then have d: "1 \<le> d" "d \<le> ?n" by auto
    define A where "A = list_ex (byday_selects y m d) (byday r)"
    have "existsR (byday_accepts env y m ?n d) (byday r) = Inr (\<exists>bd \<in> set (byday r). byday_selects y m d bd)"
      using b byday_accepts_selects [OF _ m d pure] by (intro existsR_Inr) auto
    then have "existsR (byday_accepts env y m ?n d) (byday r) = Inr A" by (simp add: A_def list_ex_iff)
    with filter_marks_step [OF 3(2) d n, of A] show ?case
      unfolding marks_get [OF 3(2) d n] A_def [symmetric] by (cases "P d"; cases A) simp_all
  qed auto
  have "marks ?n mk' (\<lambda>d. P d \<and> list_ex (byday_selects y m d) (byday r))" by (rule marks_cong [OF m'(2)]) auto
  with m'(1) show ?thesis by blast
qed

lemma filter_dates_marks:
  assumes m: "1 \<le> m" "m \<le> 12" and mk: "marks (month_len y m) mark P"
  shows "\<exists>mark'. filter_dates r y m (month_len y m) mark = Inr mark'
    \<and> marks (month_len y m) mark' (\<lambda>d. P d \<and> bydate_matches r y m d)"
proof -
  let ?n = "month_len y m"
  have n: "?n \<le> 31" using month_len_bounds m by auto
  obtain mk' where m': "filter_dates r y m ?n mark = Inr mk'"
    "marks ?n mk' (\<lambda>d. P d \<and> (d \<in> set [1..?n] \<longrightarrow> bydate_matches r y m d))"
    unfolding filter_dates_def
  proof (atomize_elim, rule foldR_filters_marks [OF mk], goal_cases)
    case (3 d mk P)
    then have d: "1 \<le> d" "d \<le> ?n" by auto
    then show ?case using filter_marks_step [OF 3(2) d n] by (simp add: marks_get [OF 3(2) d n])
  qed auto
  have "marks ?n mk' (\<lambda>d. P d \<and> bydate_matches r y m d)" by (rule marks_cong [OF m'(2)]) auto
  with m'(1) show ?thesis by blast
qed

section \<open>Properties\<close>

lemma month_day_list_core:
  assumes r: "rule_ok r" and m: "1 \<le> m" "m \<le> 12" and f: "1 \<le> fb" and pure: "ora_mode env \<longrightarrow> y \<noteq> 0"
  shows "month_day_list env r y m fb = Inr (filter (day_selected r y m fb) [1..month_len y m])"
proof -
  let ?n = "month_len y m"
  have n: "?n \<le> 31" using month_len_bounds m by auto
  have ok: "\<forall>bd \<in> set (byday r). byday_ok bd" "\<forall>bd \<in> set (bydate r). bydate_ok bd"
    using r by (auto simp: rule_ok_def entries_ok_def)
  note e = marks_empty [OF n]
  define P where "P d \<longleftrightarrow> (if bymonthday r \<noteq> [] then list_ex (monthday_selects y m d) (bymonthday r)
      \<and> (byday r \<noteq> [] \<longrightarrow> list_ex (byday_selects y m d) (byday r))
    else if byday r \<noteq> [] then list_ex (byday_selects y m d) (byday r)
    else if bydate r \<noteq> [] then bydate_matches r y m d else d = fb)" for d
  define gen where "gen = (if bymonthday r \<noteq> [] then bindR (mark_monthdays r ?n (replicate 32 False)) (\<lambda>mark.
       if byday r \<noteq> [] then filter_monthdays env r y m ?n mark else Inr mark)
     else if byday r \<noteq> [] then mark_weekdays env r y m ?n (replicate 32 False)
     else if bydate r \<noteq> [] then mark_dates r y m ?n (replicate 32 False)
     else if fb \<le> ?n then array_set (replicate 32 False) fb True else Inr (replicate 32 False))"
  have "\<exists>mark. gen = Inr mark \<and> marks ?n mark P"
  proof (cases "bymonthday r \<noteq> []")
    case True
    then obtain mk where mk: "mark_monthdays r ?n (replicate 32 False) = Inr mk"
      "marks ?n mk (\<lambda>d. list_ex (monthday_selects y m d) (bymonthday r))"
      using mark_monthdays_marks [OF m e] by blast
    show ?thesis using filter_monthdays_marks [OF m mk(2) ok(1) pure] mk True
      by (cases "byday r = []") (auto simp: gen_def P_def [abs_def])
  next
    case False
    then show ?thesis
      using mark_weekdays_marks [OF m e ok(1) pure] mark_dates_marks [OF m e ok(2)]
        marks_one [OF e n, of "fb \<le> ?n" fb] f
      by (auto simp: gen_def P_def [abs_def])
  qed
  then obtain mk where mk: "gen = Inr mk" "marks ?n mk P" by blast
  have "\<exists>mark. (if bydate r \<noteq> [] \<and> (bymonthday r \<noteq> [] \<or> byday r \<noteq> []) then filter_dates r y m ?n mk else Inr mk)
      = Inr mark \<and> marks ?n mark (day_selected r y m fb)"
  proof (cases "bydate r \<noteq> [] \<and> (bymonthday r \<noteq> [] \<or> byday r \<noteq> [])")
    case True
    obtain mk' where m': "filter_dates r y m ?n mk = Inr mk'" "marks ?n mk' (\<lambda>d. P d \<and> bydate_matches r y m d)"
      using filter_dates_marks [OF m mk(2)] by blast
    have "marks ?n mk' (day_selected r y m fb)"
      by (rule marks_cong [OF m'(2)]) (use True in \<open>auto simp: P_def day_selected_def clauses_hold_def\<close>)
    with m'(1) True show ?thesis by auto
  next
    case False
    have "marks ?n mk (day_selected r y m fb)"
      by (rule marks_cong [OF mk(2)]) (use False in \<open>auto simp: P_def day_selected_def clauses_hold_def\<close>)
    with False show ?thesis by auto
  qed
  then obtain mk' where m': "(if bydate r \<noteq> [] \<and> (bymonthday r \<noteq> [] \<or> byday r \<noteq> []) then filter_dates r y m ?n mk else Inr mk)
      = Inr mk'" "marks ?n mk' (day_selected r y m fb)" by blast
  have "month_day_list env r y m fb = Inr (filter (\<lambda>d. mk' ! nat d) [1..?n])"
    unfolding month_day_list_def days_in_month_len [OF m] Let_def bindR_Inr gen_def [symmetric] mk(1) m'(1) ..
  also have "\<dots> = Inr (filter (day_selected r y m fb) [1..?n])"
    using m'(2) by (auto simp: marks_def intro!: filter_cong)
  finally show ?thesis .
qed

text \<open>
  C4 (days of a month): for a well-formed rule \<open>month_day_list\<close> returns, in ascending order, exactly the days of the
  month on which every clause BYMONTHDAY, BYDAY and BYDATE that is given holds; when none is
  given, the day of the start date if the month has it. Days of the month count
  from the end when negative, and so do weekday ordinals. No array is accessed out of bounds.
\<close>

theorem month_day_list_correct:
  assumes "rule_ok r" "1 \<le> m" "m \<le> 12" "1 \<le> fallback" "ora_mode env \<longrightarrow> y \<noteq> 0"
  shows "month_day_list env r y m fallback = Inr (filter (day_selected r y m fallback) [1..month_len y m])"
  using assms by (rule month_day_list_core)

theorem month_day_list_correct_witness:
  "\<exists>r. parse_calendar utc_session (Some ''FREQ=MONTHLY;BYDAY=-1FRI,2MON'') = Inr r
    \<and> filter (day_selected r 2024 6 1) [1..month_len 2024 6] = [10, 28]"
proof -
  define r where "r = empty_rule\<lparr>freq := FREQ_MONTHLY, byday := [\<lparr>dow = 5, ord = - 1\<rparr>, \<lparr>dow = 1, ord = 2\<rparr>], byday_has_ord := True\<rparr>"
  have p: "parse_calendar utc_session (Some ''FREQ=MONTHLY;BYDAY=-1FRI,2MON'') = Inr r"
    and d: "month_day_list utc_session r 2024 6 1 = Inr [10, 28]" unfolding r_def by code_simp+
  have "rule_ok r" by (simp add: rule_ok_def sets_ok_def entries_ok_def byday_ok_def given_defs r_def empty_rule_def)
  from month_day_list_correct [OF this, of 6 1 utc_session 2024] p d show ?thesis by auto
qed

end
