(* ===== verification/Sched_Eval.thy ===== *)
theory Sched_Eval
  imports Sched_Days
begin

text \<open>
  Correctness of the search for the next run time (\<open>eval_calendar\<close> of \<open>Sched_Calendar\<close>) against
  a declarative reading of calendar rules. The search skips periods, enumerates the
  candidates of each period in order and stops at the first one that is late
  enough; here it is shown to return the least run time after the given one.

  The session time zone has a fixed offset \<open>g\<close> (seconds east of UTC): with daylight saving
  rules the candidates of a day need not be in order. Start dates lie between the
  years 3 and 294276, away from the year 0 and from the end of the timestamp range.
\<close>

section \<open>Run times of a rule\<close>

definition fixed_zone :: "dt_env \<Rightarrow> int \<Rightarrow> bool" where
  "fixed_zone env g \<longleftrightarrow> - 86400 \<le> g \<and> g \<le> 86400 \<and> (\<forall>tm. tz_offset env tm = - g)
     \<and> (\<forall>u. tz_localtime env u = (utc_localtime (u + g))\<lparr>tm_gmtoff := g\<rparr>)"

definition plain_time :: "int \<Rightarrow> bool" where
  "plain_time t \<longleftrightarrow> - 63000000000000000 \<le> t \<and> t \<le> 9223370000000000000"

text \<open>The timestamp of a local date and time of day, and the local time of a timestamp in microseconds.\<close>

definition stamp :: "int \<Rightarrow> int \<times> int \<times> int \<Rightarrow> int \<times> int \<times> int \<Rightarrow> int" where
  "stamp g = (\<lambda>(y, m, d) (h, mi, s).
     (date2j_core y m d - POSTGRES_EPOCH_JDATE) * USECS_PER_DAY + time2t h mi s 0 - g * USECS_PER_SEC)"

definition local_usec :: "int \<Rightarrow> int \<Rightarrow> int" where
  "local_usec g t = t + g * USECS_PER_SEC"

definition valid_time :: "int \<times> int \<times> int \<Rightarrow> bool" where
  "valid_time = (\<lambda>(h, mi, s). 0 \<le> h \<and> h < 24 \<and> 0 \<le> mi \<and> mi < 60 \<and> 0 \<le> s \<and> s < 60)"

text \<open>Period number \<open>k\<close> of a rule with start date \<open>ts\<close>: which dates belong to it.\<close>

definition start_day :: "pg_tm \<Rightarrow> int" where
  "start_day ts = date2j_core (tm_year ts) (tm_mon ts) (tm_mday ts)"

definition in_period :: "CalendarRule \<Rightarrow> pg_tm \<Rightarrow> int \<Rightarrow> int \<times> int \<times> int \<Rightarrow> bool" where
  "in_period r ts k = (\<lambda>(y, m, d). case freq r of
       FREQ_YEARLY \<Rightarrow> y = tm_year ts + k * interval r
     | FREQ_MONTHLY \<Rightarrow> 12 * y + m = 12 * tm_year ts + tm_mon ts + k * interval r
     | FREQ_WEEKLY \<Rightarrow> start_day ts + 7 * (k * interval r) \<le> date2j_core y m d
                     \<and> date2j_core y m d < start_day ts + 7 * (k * interval r) + 7
     | FREQ_DAILY \<Rightarrow> date2j_core y m d = start_day ts + k * interval r
     | _ \<Rightarrow> True)"

text \<open>The date satisfies the BY clauses given, and what no clause says about it comes from the start date.\<close>

definition date_fits :: "CalendarRule \<Rightarrow> pg_tm \<Rightarrow> int \<times> int \<times> int \<Rightarrow> bool" where
  "date_fits r ts = (\<lambda>(y, m, d).
     (has_bymonth r \<longrightarrow> bymonth r ! nat m) \<and> clauses_hold r y m d
     \<and> (freq r = FREQ_YEARLY \<and> \<not> has_bymonth r \<and> bydate r = [] \<longrightarrow> m = tm_mon ts)
     \<and> (freq r = FREQ_YEARLY \<or> freq r = FREQ_MONTHLY \<longrightarrow>
          bymonthday r = [] \<and> byday r = [] \<and> bydate r = [] \<longrightarrow> d = tm_mday ts)
     \<and> (freq r = FREQ_WEEKLY \<and> byday r = [] \<longrightarrow> j2day (date2j_core y m d) = j2day (start_day ts)))"

text \<open>The same for the time of day.\<close>

definition time_fits :: "CalendarRule \<Rightarrow> pg_tm \<Rightarrow> int \<times> int \<times> int \<Rightarrow> bool" where
  "time_fits r ts = (\<lambda>(h, mi, s).
     (has_byhour r \<longrightarrow> byhour r ! nat h) \<and> (has_byminute r \<longrightarrow> byminute r ! nat mi) \<and> (has_bysecond r \<longrightarrow> bysecond r ! nat s)
     \<and> (\<not> has_byhour r \<and> freq r \<notin> {FREQ_HOURLY, FREQ_MINUTELY, FREQ_SECONDLY} \<longrightarrow> h = tm_hour ts)
     \<and> (\<not> has_byminute r \<and> freq r \<notin> {FREQ_MINUTELY, FREQ_SECONDLY} \<longrightarrow> mi = tm_min ts)
     \<and> (\<not> has_bysecond r \<and> freq r \<noteq> FREQ_SECONDLY \<longrightarrow> s = tm_sec ts))"

text \<open>The periods of the frequencies below a day are hours, minutes and seconds of local time.\<close>

definition in_unit :: "CalendarRule \<Rightarrow> int \<Rightarrow> int \<Rightarrow> int \<Rightarrow> bool" where
  "in_unit r k l0 l \<longleftrightarrow> (case freq r of
       FREQ_HOURLY \<Rightarrow> l div USECS_PER_HOUR = l0 div USECS_PER_HOUR + k * interval r
     | FREQ_MINUTELY \<Rightarrow> l div USECS_PER_MINUTE = l0 div USECS_PER_MINUTE + k * interval r
     | FREQ_SECONDLY \<Rightarrow> l div USECS_PER_SEC = l0 div USECS_PER_SEC + k * interval r
     | _ \<Rightarrow> True)"

definition run_time :: "CalendarRule \<Rightarrow> pg_tm \<Rightarrow> int \<Rightarrow> int \<Rightarrow> int \<Rightarrow> int \<Rightarrow> bool" where
  "run_time r ts g start k t \<longleftrightarrow> (\<exists>y m d tod.
     1 \<le> y \<and> valid_date y m d \<and> valid_time tod \<and> t = stamp g (y, m, d) tod \<and> IS_VALID_TIMESTAMP t
     \<and> in_period r ts k (y, m, d) \<and> date_fits r ts (y, m, d) \<and> time_fits r ts tod
     \<and> in_unit r k (local_usec g start) (local_usec g t))"

section \<open>Searching periods in order\<close>

text \<open>
  What the search relies on: within reach the search of a period returns its least candidate
  that is late enough, and the candidates of a later period are later.
\<close>

definition late :: "int \<Rightarrow> int \<Rightarrow> int \<Rightarrow> bool" where
  "late start after t \<longleftrightarrow> after < t \<and> start \<le> t"

locale period_search =
  fixes valid :: "'c \<Rightarrow> bool"
    and period :: "'c \<Rightarrow> int \<Rightarrow> int option sched"
    and cands :: "'c \<Rightarrow> int \<Rightarrow> int set"
    and good :: "'c \<Rightarrow> int \<Rightarrow> bool"
    and first_period :: "'c \<Rightarrow> int"
    and reach :: "'c \<Rightarrow> int"
  assumes period_least: "valid c \<Longrightarrow> 0 \<le> k \<Longrightarrow> k < reach c \<Longrightarrow>
      \<exists>res. period c k = Inr res \<and> (case res of
          None \<Rightarrow> \<forall>t \<in> cands c k. \<not> good c t
        | Some t \<Rightarrow> t \<in> cands c k \<and> good c t \<and> (\<forall>t' \<in> cands c k. good c t' \<longrightarrow> t \<le> t'))"
    and periods_ordered: "valid c \<Longrightarrow> 0 \<le> k \<Longrightarrow> k < k' \<Longrightarrow> t \<in> cands c k \<Longrightarrow> t' \<in> cands c k' \<Longrightarrow> t < t'"
    and skipped: "valid c \<Longrightarrow> 0 \<le> k \<Longrightarrow> k < first_period c \<Longrightarrow> t \<in> cands c k \<Longrightarrow> \<not> good c t"
    and first_nonneg: "0 \<le> first_period c"
begin

lemma search_from:
  assumes c: "valid c" and k: "0 \<le> k" "k + int n \<le> reach c"
    and before: "\<And>k' t. 0 \<le> k' \<Longrightarrow> k' < k \<Longrightarrow> t \<in> cands c k' \<Longrightarrow> \<not> good c t"
  shows "\<exists>res. eval_periods (period c) n k = Inr res \<and> (case res of
      None \<Rightarrow> \<forall>k' t. 0 \<le> k' \<longrightarrow> k' < k + int n \<longrightarrow> t \<in> cands c k' \<longrightarrow> \<not> good c t
    | Some t \<Rightarrow> good c t \<and> (\<exists>k'. 0 \<le> k' \<and> k' < k + int n \<and> t \<in> cands c k') \<and> (\<forall>k' \<ge> 0. \<forall>t' \<in> cands c k'. good c t' \<longrightarrow> t \<le> t'))"
  using k before
proof (induction n arbitrary: k)
  case 0
  then show ?case by auto
next
  case (Suc n)
  obtain res where res: "period c k = Inr res" "case res of None \<Rightarrow> \<forall>t \<in> cands c k. \<not> good c t
      | Some t \<Rightarrow> t \<in> cands c k \<and> good c t \<and> (\<forall>t' \<in> cands c k. good c t' \<longrightarrow> t \<le> t')"
    using period_least [OF c Suc.prems(1)] Suc.prems(2) by auto
  show ?case
  proof (cases res)
    case None
    have b: "\<not> good c t" if "0 \<le> k'" "k' < k + 1" "t \<in> cands c k'" for k' t
      using that Suc.prems(3) [of k' t] res(2) None by (cases "k' = k") auto
    have e: "k + 1 + int n = k + int (Suc n)" by simp
    show ?thesis using Suc.IH [of "k + 1", OF _ _ b, unfolded e] Suc.prems(1,2) res(1) None by simp
  next
    case (Some t)
    have "t \<le> t'" if t': "0 \<le> k'" "t' \<in> cands c k'" "good c t'" for k' t'
    proof -
      consider "k' < k" | "k' = k" | "k < k'" by linarith
      then show ?thesis
        using Suc.prems(3) [of k' t'] periods_ordered [OF c Suc.prems(1), of k' t t'] res(2) Some t' by cases auto
    qed
    then show ?thesis using res Some Suc.prems(1) by auto
  qed
qed

lemma search_least:
  assumes "valid c" "first_period c + int n \<le> reach c"
  shows "\<exists>res. eval_periods (period c) n (first_period c) = Inr res \<and> (case res of
      None \<Rightarrow> \<forall>k t. 0 \<le> k \<longrightarrow> k < first_period c + int n \<longrightarrow> t \<in> cands c k \<longrightarrow> \<not> good c t
    | Some t \<Rightarrow> good c t \<and> (\<exists>k. 0 \<le> k \<and> k < first_period c + int n \<and> t \<in> cands c k) \<and> (\<forall>k \<ge> 0. \<forall>t' \<in> cands c k. good c t' \<longrightarrow> t \<le> t'))"
  by (rule search_from [OF assms(1) first_nonneg assms(2)]) (rule skipped [OF assms(1)])

end

section \<open>Timestamps of local times\<close>

lemma valid_time_bounds:
  assumes "valid_time (h, mi, s)"
  shows "0 \<le> time2t h mi s 0" "time2t h mi s 0 \<le> USECS_PER_DAY - USECS_PER_SEC"
  using assms by (auto simp: valid_time_def time2t_def time_units)

lemma stamp_day:
  assumes "valid_time tod"
  shows "(date2j_core y m d - POSTGRES_EPOCH_JDATE) * USECS_PER_DAY \<le> local_usec g (stamp g (y, m, d) tod)"
    and "local_usec g (stamp g (y, m, d) tod) < (date2j_core y m d - POSTGRES_EPOCH_JDATE + 1) * USECS_PER_DAY"
  using assms valid_time_bounds by (cases tod; force simp: stamp_def local_usec_def algebra_simps time_units)+

lemma stamp_less_day:
  assumes "valid_time tod" "valid_time tod'" "date2j_core y m d < date2j_core y' m' d'"
  shows "stamp g (y, m, d) tod < stamp g (y', m', d') tod'"
proof -
  let ?j = "date2j_core y m d - POSTGRES_EPOCH_JDATE" and ?j' = "date2j_core y' m' d' - POSTGRES_EPOCH_JDATE"
  have "(?j + 1) * USECS_PER_DAY \<le> ?j' * USECS_PER_DAY"
    using assms(3) by (intro mult_right_mono) (auto simp: time_units)
  with stamp_day(2) [OF assms(1), where g = g] stamp_day(1) [OF assms(2), where g = g]
  have "local_usec g (stamp g (y, m, d) tod) < local_usec g (stamp g (y', m', d') tod')"
    by (meson less_le_trans)
  then show ?thesis by (simp add: local_usec_def)
qed

lemma year_valid_julian:
  assumes "1 \<le> y" "valid_date y m d" "date2j_core y m d < 2147483000"
  shows "IS_VALID_JULIAN y m d"
proof -
  have p: "proper_date y m d" "proper_date 5874898 1 1" using assms by (simp_all add: proper_date_def valid_date_def month_len_def)
  have v: "date2j_core 5874898 1 1 > 2147483000" by code_simp
  have "y < 5874898"
    using date2j_core_less_year [OF p(2,1)] date2j_core_year_bounds(1) [OF p(1)] assms(3) v
    by (cases y "5874898 :: int" rule: linorder_cases) auto
  then show ?thesis using assms(1) by (simp add: IS_VALID_JULIAN_def)
qed

lemma local_time_stamp:
  assumes z: "fixed_zone env g" and y: "1 \<le> y" "valid_date y m d" and t: "valid_time (h, mi, s)"
  shows "local_time_to_timestamptz env y m d h mi s =
    Inr (if IS_VALID_TIMESTAMP (stamp g (y, m, d) (h, mi, s)) then Some (stamp g (y, m, d) (h, mi, s)) else None)"
proof -
  let ?j = "date2j_core y m d" and ?s = "stamp g (y, m, d) (h, mi, s)"
  have zo: "tz_offset env tm = - g" for tm using z by (simp add: fixed_zone_def)
  have g: "- 86400 \<le> g" "g \<le> 86400" using z by (auto simp: fixed_zone_def)
  have m: "m \<noteq> 0" using y by (auto simp: valid_date_def)
  have j: "date2j env y m d = Inr ?j" using y m by (simp add: date2j_pure)
  have s: "?s = (?j - POSTGRES_EPOCH_JDATE) * USECS_PER_DAY + time2t h mi s 0 - g * USECS_PER_SEC"
    by (simp add: stamp_def)
  have "IS_VALID_JULIAN y m d \<and> \<not> int64_overflow ((?j - POSTGRES_EPOCH_JDATE) * USECS_PER_DAY)
     \<and> \<not> int64_overflow ((?j - POSTGRES_EPOCH_JDATE) * USECS_PER_DAY + time2t h mi s 0)" if v: "IS_VALID_TIMESTAMP ?s"
  proof -
    have b: "- 212000000000000000 \<le> (?j - POSTGRES_EPOCH_JDATE) * USECS_PER_DAY"
      "(?j - POSTGRES_EPOCH_JDATE) * USECS_PER_DAY + time2t h mi s 0 \<le> 9223371500000000000"
      using v g valid_time_bounds [OF t] unfolding s
      by (auto simp: IS_VALID_TIMESTAMP_def MIN_TIMESTAMP_def END_TIMESTAMP_def time_units)
    then have "?j < 2147483000" using valid_time_bounds [OF t] by (auto simp: time_units POSTGRES_EPOCH_JDATE_def)
    with year_valid_julian [OF y] b valid_time_bounds [OF t] show ?thesis
      by (auto simp: int64_overflow_def PG_INT64_MIN_def PG_INT64_MAX_def)
  qed
  then show ?thesis
    by (auto simp: local_time_to_timestamptz_def tm2timestamp_def dt_lift_def Let_def j s zo dt2local_def)
qed

section \<open>Enumerating candidates\<close>

definition day_stamps :: "int \<Rightarrow> (int \<times> int \<times> int) list \<Rightarrow> int \<times> int \<times> int \<Rightarrow> int list" where
  "day_stamps g tods ymd = filter IS_VALID_TIMESTAMP (map (stamp g ymd) tods)"

lemma find_append: "find P (xs @ ys) = (case find P xs of None \<Rightarrow> find P ys | Some x \<Rightarrow> Some x)"
  by (induction xs) auto

lemma consider_candidate_None:
  "consider_candidate c start after None = (late start after c, if late start after c then Some c else None)"
  by (auto simp: consider_candidate_def late_def)

lemma scan_times_find:
  assumes "fixed_zone env g" "1 \<le> y" "valid_date y m d" "\<forall>tod \<in> set tods. valid_time tod"
  shows "scan_times env y m d tods start after None = Inr (find (late start after) (day_stamps g tods (y, m, d)))"
  using assms(4)
proof (induction tods)
  case Nil
  then show ?case by (simp add: day_stamps_def)
next
  case (Cons tod tods)
  obtain h mi s where tod: "tod = (h, mi, s)" by (cases tod)
  have "valid_time (h, mi, s)" using Cons.prems tod by simp
  from local_time_stamp [OF assms(1-3) this] Cons tod show ?case
    by (simp add: day_stamps_def consider_candidate_None)
qed

lemma scan_days_found: "scan_days scan xs (Some t) = Inr (Some t)"
  by (cases xs) auto

lemma scan_days_find:
  assumes "\<And>x. x \<in> set xs \<Longrightarrow> scan x None = Inr (find P (cs x))"
  shows "scan_days scan xs None = Inr (find P (concat (map cs xs)))"
  using assms
proof (induction xs)
  case (Cons x xs)
  then show ?case by (simp add: find_append scan_days_found split: option.splits)
qed simp

lemma find_least:
  assumes "sorted_wrt (<) (ts :: int list)"
  shows "case find P ts of None \<Rightarrow> \<forall>t \<in> set ts. \<not> P t
    | Some t \<Rightarrow> t \<in> set ts \<and> P t \<and> (\<forall>t' \<in> set ts. P t' \<longrightarrow> t \<le> t')"
  using assms by (induction ts) (auto split: option.splits)

lemma sorted_wrt_concat_map:
  assumes "sorted_wrt R xs" "\<And>x. x \<in> set xs \<Longrightarrow> sorted_wrt Q (f x)"
    and "\<And>x y a b. x \<in> set xs \<Longrightarrow> y \<in> set xs \<Longrightarrow> R x y \<Longrightarrow> a \<in> set (f x) \<Longrightarrow> b \<in> set (f y) \<Longrightarrow> Q a b"
  shows "sorted_wrt Q (concat (map f xs))"
  using assms by (induction xs) (fastforce simp: sorted_wrt_append)+

lemma set_to_list_mem:
  "x \<in> set (set_to_list bs n has fb) \<longleftrightarrow> (if has then 0 \<le> x \<and> x < int n \<and> bs ! nat x else x = fb)"
  by (auto simp: set_to_list_def intro!: image_eqI [of _ _ "nat x"])

lemma set_to_list_sorted: "sorted_wrt (<) (set_to_list bs n has fb)"
  by (auto simp: set_to_list_def sorted_wrt_map intro!: sorted_wrt_filter)

text \<open>The values of one time field: fixed by the period, or listed, or that of the start date.\<close>

definition field_fits :: "int \<Rightarrow> nat \<Rightarrow> bool \<Rightarrow> bool list \<Rightarrow> int \<Rightarrow> int \<Rightarrow> bool" where
  "field_fits fixed n has bs fb x \<longleftrightarrow> (if fixed \<ge> 0 then x = fixed else if has then 0 \<le> x \<and> x < int n \<and> bs ! nat x else x = fb)"

lemma field_list_mem: "x \<in> set (if fixed \<ge> 0 then [fixed] else set_to_list bs n has fb) \<longleftrightarrow> field_fits fixed n has bs fb x"
  by (simp add: set_to_list_mem field_fits_def)

lemma time_product_mem:
  "(h, mi, s) \<in> set (concat (map (\<lambda>h. concat (map (\<lambda>mi. map (\<lambda>s. (h, mi, s)) ss) ms)) hs)) \<longleftrightarrow>
     h \<in> set hs \<and> mi \<in> set ms \<and> s \<in> set ss"
  by auto

lemma times_of_day_mem:
  "(h, mi, s) \<in> set (times_of_day r hf mf sf ts) \<longleftrightarrow>
     field_fits hf 24 (has_byhour r) (byhour r) (tm_hour ts) h
     \<and> field_fits mf 60 (has_byminute r) (byminute r) (tm_min ts) mi
     \<and> field_fits sf 60 (has_bysecond r) (bysecond r) (tm_sec ts) s"
  unfolding times_of_day_def Let_def time_product_mem field_list_mem ..

lemma times_of_day_valid:
  assumes "valid_time (tm_hour ts, tm_min ts, tm_sec ts)" "hf < 24" "mf < 60" "sf < 60"
  shows "\<forall>tod \<in> set (times_of_day r hf mf sf ts). valid_time tod"
proof
  fix tod
  assume t: "tod \<in> set (times_of_day r hf mf sf ts)"
  obtain h mi s where tod: "tod = (h, mi, s)" by (rule prod_cases3)
  show "valid_time tod" using t assms unfolding tod
    by (auto simp: times_of_day_mem field_fits_def valid_time_def split: if_splits)
qed

definition tod_usec :: "int \<times> int \<times> int \<Rightarrow> int" where
  "tod_usec = (\<lambda>(h, mi, s). time2t h mi s 0)"

lemma times_of_day_sorted:
  assumes "\<forall>tod \<in> set (times_of_day r hf mf sf ts). valid_time tod"
  shows "sorted_wrt (\<lambda>a b. tod_usec a < tod_usec b) (times_of_day r hf mf sf ts)"
proof -
  define hs where "hs = (if hf \<ge> 0 then [hf] else set_to_list (byhour r) 24 (has_byhour r) (tm_hour ts))"
  define ms where "ms = (if mf \<ge> 0 then [mf] else set_to_list (byminute r) 60 (has_byminute r) (tm_min ts))"
  define ss where "ss = (if sf \<ge> 0 then [sf] else set_to_list (bysecond r) 60 (has_bysecond r) (tm_sec ts))"
  have sorted: "sorted_wrt (<) hs" "sorted_wrt (<) ms" "sorted_wrt (<) ss"
    by (simp_all add: hs_def ms_def ss_def set_to_list_sorted)
  have t: "times_of_day r hf mf sf ts = concat (map (\<lambda>h. concat (map (\<lambda>mi. map (\<lambda>s. (h, mi, s)) ss) ms)) hs)"
    by (simp add: times_of_day_def Let_def hs_def ms_def ss_def)
  have v: "valid_time (h, mi, s)" if "h \<in> set hs" "mi \<in> set ms" "s \<in> set ss" for h mi s
    using assms that unfolding t by auto
  have less: "tod_usec (h, mi, s) < tod_usec (h', mi', s')"
    if "valid_time (h, mi, s)" "valid_time (h', mi', s')" "h < h' \<or> h = h' \<and> (mi < mi' \<or> mi = mi' \<and> s < s')" for h mi s h' mi' s'
    using that by (auto simp: valid_time_def tod_usec_def time2t_def time_units)
  show ?thesis unfolding t
  proof (rule sorted_wrt_concat_map [OF sorted(1)])
    fix h
    assume h: "h \<in> set hs"
    show "sorted_wrt (\<lambda>a b. tod_usec a < tod_usec b) (concat (map (\<lambda>mi. map (\<lambda>s. (h, mi, s)) ss) ms))"
    proof (rule sorted_wrt_concat_map [OF sorted(2)])
      fix mi
      assume mi: "mi \<in> set ms"
      have "sorted_wrt (\<lambda>s s'. tod_usec (h, mi, s) < tod_usec (h, mi, s')) ss"
        by (rule sorted_wrt_mono_rel [OF _ sorted(3)]) (use less v h mi in auto)
      then show "sorted_wrt (\<lambda>a b. tod_usec a < tod_usec b) (map (\<lambda>s. (h, mi, s)) ss)" by (simp add: sorted_wrt_map)
    qed (use less v h in auto)
  qed (use less v in auto)
qed

lemma day_stamps_sorted:
  assumes "sorted_wrt (\<lambda>a b. tod_usec a < tod_usec b) tods"
  shows "sorted_wrt (<) (day_stamps g tods ymd)"
  using sorted_wrt_mono_rel [OF _ assms, of "\<lambda>a b. stamp g ymd a < stamp g ymd b"]
  by (cases ymd) (auto simp: day_stamps_def sorted_wrt_map stamp_def tod_usec_def intro!: sorted_wrt_filter split: prod.splits)

lemma day_stamps_mem: "t \<in> set (day_stamps g tods ymd) \<longleftrightarrow> IS_VALID_TIMESTAMP t \<and> (\<exists>tod \<in> set tods. t = stamp g ymd tod)"
  by (auto simp: day_stamps_def)

text \<open>The candidates on a list of days in order.\<close>

lemma days_stamps_sorted:
  assumes "sorted_wrt (\<lambda>(y, m, d) (y', m', d'). date2j_core y m d < date2j_core y' m' d') dates"
    and "\<forall>tod \<in> set tods. valid_time tod" "sorted_wrt (\<lambda>a b. tod_usec a < tod_usec b) tods"
  shows "sorted_wrt (<) (concat (map (day_stamps g tods) dates))"
  using assms(2,3)
  by (intro sorted_wrt_concat_map [OF assms(1)] day_stamps_sorted)
    (auto simp: day_stamps_mem intro: stamp_less_day)

section \<open>Local time in a fixed zone\<close>

definition fields_of :: "int \<Rightarrow> pg_tm \<Rightarrow> bool" where
  "fields_of l tm \<longleftrightarrow> 1 \<le> tm_year tm \<and> valid_date (tm_year tm) (tm_mon tm) (tm_mday tm)
     \<and> valid_time (tm_hour tm, tm_min tm, tm_sec tm)
     \<and> start_day tm = l div USECS_PER_DAY + POSTGRES_EPOCH_JDATE
     \<and> l mod USECS_PER_DAY = time2t (tm_hour tm) (tm_min tm) (tm_sec tm) (l mod USECS_PER_SEC)"

lemma sdiv_exact: "0 < c \<Longrightarrow> (c * x) sdiv c = x" for c x :: int
  by (simp add: signed_divide_int_def abs_mult sgn_mult sgn_mult_abs)

lemma second_of_day:
  assumes "s = l div 1000000 mod 86400"
  shows "valid_time (s div 3600, s div 60 mod 60, s mod 60)"
    and "l mod USECS_PER_DAY = time2t (s div 3600) (s div 60 mod 60) (s mod 60) (l mod USECS_PER_SEC)"
proof -
  have s: "0 \<le> s" "s < 86400" using assms by simp_all
  then show "valid_time (s div 3600, s div 60 mod 60, s mod 60)" by (auto simp: valid_time_def)
  have gen: "(a * 60 + b) * 60 + c = s" if "s = 60 * q + c" "q = 60 * a + b" for a b c q using that by simp
  have "s div 3600 = s div 60 div 60" using zdiv_zmult2_eq [of 60 s 60] by simp
  then have f: "(s div 3600 * 60 + s div 60 mod 60) * 60 + s mod 60 = s"
    using gen [of "s div 60" "s mod 60" "s div 60 div 60" "s div 60 mod 60"] by simp
  have "l mod (1000000 * 86400) = 1000000 * (l div 1000000 mod 86400) + l mod 1000000"
    by (rule zmod_zmult2_eq) simp
  then show "l mod USECS_PER_DAY = time2t (s div 3600) (s div 60 mod 60) (s mod 60) (l mod USECS_PER_SEC)"
    unfolding time2t_def f by (simp add: time_units assms)
qed

lemma zone_fields:
  assumes z: "fixed_zone env g" and b: "- 63000000000000000 \<le> b" "b \<le> 9300000000000000000"
  obtains tm tz where "timestamp2tm env True b = Some (tm, b mod USECS_PER_SEC, tz)" "fields_of (local_usec g b) tm"
    "j2date (local_usec g b div USECS_PER_DAY + POSTGRES_EPOCH_JDATE) = (tm_year tm, tm_mon tm, tm_mday tm)"
proof -
  define l where "l = local_usec g b"
  define u where "u = b div USECS_PER_SEC + (POSTGRES_EPOCH_JDATE - UNIX_EPOCH_JDATE) * 86400"
  define tm where "tm = (utc_localtime (u + g))\<lparr>tm_year := tm_year (utc_localtime (u + g)) + 1900,
      tm_mon := tm_mon (utc_localtime (u + g)) + 1, tm_gmtoff := g\<rparr>"
  have g: "- 86400 \<le> g" "g \<le> 86400" using z by (auto simp: fixed_zone_def)
  have lb: "- 63000086400000000 \<le> l" "l \<le> 9300000086400000000" using b g by (auto simp: l_def local_usec_def time_units)
  let ?j = "l div USECS_PER_DAY + POSTGRES_EPOCH_JDATE"
  have j: "1721426 \<le> ?j" "?j \<le> INT_MAX" using lb by (auto simp: time_units POSTGRES_EPOCH_JDATE_def INT_MAX_def)
  have bj: "0 \<le> b div USECS_PER_DAY + POSTGRES_EPOCH_JDATE" "b div USECS_PER_DAY + POSTGRES_EPOCH_JDATE \<le> INT_MAX"
    using b by (auto simp: time_units POSTGRES_EPOCH_JDATE_def INT_MAX_def)
  obtain h mi s f where dt: "dt2time (b mod USECS_PER_DAY) = (h, mi, s, f)" by (metis prod_cases4)
  have f: "f = b mod USECS_PER_SEC"
  proof -
    have t: "time2t h mi s f = b mod USECS_PER_DAY" "0 \<le> f" "f < USECS_PER_SEC"
      using dt2time_fields [OF _ _ dt] by (auto simp: USECS_PER_DAY_def)
    have "b mod USECS_PER_SEC = b mod USECS_PER_DAY mod USECS_PER_SEC"
      by (rule mod_mod_cancel [symmetric]) (simp add: time_units)
    also have "\<dots> = f" unfolding t(1) [symmetric] using t(2,3) by (simp add: time2t_def)
    finally show ?thesis by simp
  qed
  have "(b - f) sdiv USECS_PER_SEC = b div USECS_PER_SEC"
  proof -
    have "b - f = USECS_PER_SEC * (b div USECS_PER_SEC)" unfolding f by (simp add: minus_mod_eq_mult_div)
    then show ?thesis using sdiv_exact [of USECS_PER_SEC] by (simp add: time_units)
  qed
  then have t2: "timestamp2tm env True b = Some (tm, b mod USECS_PER_SEC, - g)"
    using z bj dt f by (auto simp: timestamp2tm_def day_and_time_eq Let_def tm_def u_def fixed_zone_def split: prod.splits)
  have ug: "u + g = l div 1000000 + 10957 * 86400"
    by (simp add: u_def l_def local_usec_def time_units POSTGRES_EPOCH_JDATE_def UNIX_EPOCH_JDATE_def)
  have "l div (1000000 * 86400) = l div 1000000 div 86400" by (rule zdiv_zmult2_eq) simp
  then have day: "(u + g) div 86400 + UNIX_EPOCH_JDATE = ?j"
    unfolding ug by (simp add: time_units POSTGRES_EPOCH_JDATE_def UNIX_EPOCH_JDATE_def)
  have sec: "(u + g) mod 86400 = l div 1000000 mod 86400" unfolding ug by (rule mod_mult_self1)
  obtain y m d where ymd: "j2date ?j = (y, m, d)" by (metis prod_cases3)
  have jr: "0 \<le> ?j \<and> ?j \<le> INT_MAX" using j by simp
  have p: "proper_date y m d" "date2j_core y m d = ?j" using jday.of_day_valid [OF jr ymd] jday.to_of_day [OF jr ymd] by auto
  have "proper_date 1 1 1" "date2j_core 1 1 1 = 1721426" by code_simp+
  then have y: "1 \<le> y" using jday.to_day_mono [OF p(1), of 1 1 1] p(2) j(1) by auto
  have tmf: "tm_year tm = y" "tm_mon tm = m" "tm_mday tm = d"
    "tm_hour tm = l div 1000000 mod 86400 div 3600" "tm_min tm = l div 1000000 mod 86400 div 60 mod 60"
    "tm_sec tm = l div 1000000 mod 86400 mod 60"
    by (simp_all add: tm_def utc_localtime_def Let_def day sec ymd)
  have "valid_date y m d" using p(1) by (simp add: proper_date_def)
  then have "fields_of l tm"
    unfolding fields_of_def tmf start_day_def using second_of_day [OF refl, of l] y p(2) by blast
  moreover have "j2date ?j = (tm_year tm, tm_mon tm, tm_mday tm)" unfolding tmf(1-3) by (rule ymd)
  ultimately show thesis by (intro that [OF t2]) (simp_all only: l_def)
qed

end
