(* ===== verification/Sched_Next.thy ===== *)
theory Sched_Next
  imports Sched_Eval
begin

text \<open>
  The search for the next run time returns the least run time: each frequency's branch
  of \<open>eval_calendar\<close> enumerates exactly the run times of its period in order, the periods
  are in order, and the periods skipped at the start have no run time that is late enough.
\<close>

section \<open>A search\<close>

record run_search =
  q_env :: dt_env
  q_rule :: CalendarRule
  q_zone :: int
  q_tm :: pg_tm
  q_start :: int
  q_after :: int

definition search_rule_ok :: "CalendarRule \<Rightarrow> bool" where
  "search_rule_ok r \<longleftrightarrow> rule_ok r
     \<and> ((\<exists>bd \<in> set (byday r). ord bd \<noteq> 0) \<longrightarrow> freq r = FREQ_YEARLY \<or> freq r = FREQ_MONTHLY)
     \<and> (freq r = FREQ_WEEKLY \<longrightarrow> bymonthday r = [] \<and> bydate r = [])"

definition search_ok :: "run_search \<Rightarrow> bool" where
  "search_ok c \<longleftrightarrow> search_rule_ok (q_rule c) \<and> fixed_zone (q_env c) (q_zone c) \<and> plain_time (q_start c)
     \<and> q_after c \<le> 9223370000000000000 \<and> fields_of (local_usec (q_zone c) (q_start c)) (q_tm c)"

definition search_first :: "run_search \<Rightarrow> int" where
  "search_first c = skip_periods (q_rule c) (q_start c) (q_after c)"

definition search_period :: "run_search \<Rightarrow> int \<Rightarrow> int option sched" where
  "search_period c = eval_period (q_env c) (q_rule c) (q_tm c) (q_start c) (q_after c)"

definition search_runs :: "run_search \<Rightarrow> int \<Rightarrow> int set" where
  "search_runs c k = {t. run_time (q_rule c) (q_tm c) (q_zone c) (q_start c) k t}"

definition search_late :: "run_search \<Rightarrow> int \<Rightarrow> bool" where
  "search_late c = late (q_start c) (q_after c)"

lemmas search_defs = search_first_def search_period_def search_runs_def search_late_def

section \<open>Skipped periods\<close>

text \<open>A length no period of the rule exceeds, per unit of the interval; it is the divisor of the estimate in the code.\<close>

definition period_usec :: "CalendarRule \<Rightarrow> int" where
  "period_usec r = (case freq r of
       FREQ_YEARLY \<Rightarrow> 366 * USECS_PER_DAY | FREQ_MONTHLY \<Rightarrow> 32 * USECS_PER_DAY | FREQ_WEEKLY \<Rightarrow> 7 * USECS_PER_DAY
     | FREQ_DAILY \<Rightarrow> USECS_PER_DAY | FREQ_HOURLY \<Rightarrow> USECS_PER_HOUR | FREQ_MINUTELY \<Rightarrow> USECS_PER_MINUTE
     | FREQ_SECONDLY \<Rightarrow> USECS_PER_SEC)"

lemma period_usec_pos: "0 < period_usec r"
  by (simp add: period_usec_def time_units split: SchedFreq.splits)

lemma sdiv_twice:
  fixes a b c i :: int
  assumes "0 \<le> a" "0 < b" "0 < c" "0 < i"
  shows "(a div b sdiv c) sdiv i = a div (i * (c * b))"
proof -
  have "0 \<le> a div b" "0 \<le> a div b div c" using assms by (simp_all add: pos_imp_zdiv_nonneg_iff)
  then have "(a div b sdiv c) sdiv i = a div b div c div i" using assms by (simp add: sdiv_nonneg)
  also have "\<dots> = a div (b * c * i)" using assms by (simp add: zdiv_zmult2_eq)
  also have "b * c * i = i * (c * b)" by simp
  finally show ?thesis .
qed

lemma skip_periods_div:
  assumes "1 \<le> interval r" "start < after"
  shows "skip_periods r start after =
    (if (after - start) div (interval r * period_usec r) > 2 then (after - start) div (interval r * period_usec r) - 2 else 0)"
proof -
  have d: "0 \<le> after - start" "0 < interval r" using assms by auto
  have u: "0 < USECS_PER_DAY" "0 < USECS_PER_HOUR" "0 < USECS_PER_MINUTE" "0 < USECS_PER_SEC" by (simp_all add: time_units)
  show ?thesis using assms d u
    by (cases "freq r") (simp_all add: skip_periods_def period_usec_def Let_def sdiv_twice sdiv_nonneg mult.assoc)
qed

lemma skip_periods_nonneg: "0 \<le> skip_periods r start after"
  by (auto simp: skip_periods_def Let_def)

lemma skip_periods_bounds:
  assumes r: "1 \<le> interval r"
  shows "skip_periods r start after * interval r * period_usec r \<le> max 0 (after - start)"
    and "0 \<le> k \<Longrightarrow> k < skip_periods r start after \<Longrightarrow> (k + 3) * interval r * period_usec r \<le> after - start"
proof -
  let ?u = "interval r * period_usec r" and ?n = "(after - start) div (interval r * period_usec r)"
  have u: "0 < ?u" using r period_usec_pos [of r] by simp
  then have n: "?n * ?u \<le> after - start" by (rule div_window)
  have mono: "a * ?u \<le> b * ?u" if "a \<le> b" for a b using that u by (simp add: mult_right_mono)
  show "skip_periods r start after * interval r * period_usec r \<le> max 0 (after - start)"
  proof (cases "start < after")
    case True
    then show ?thesis using skip_periods_div [OF r True] n mono [of "?n - 2" ?n] by (simp add: mult.assoc)
  next
    case False
    then show ?thesis by (simp add: skip_periods_def)
  qed
  assume k: "0 \<le> k" "k < skip_periods r start after"
  then have "start < after" by (auto simp: skip_periods_def split: if_splits)
  with k have "k + 3 \<le> ?n" by (simp add: skip_periods_div [OF r] split: if_splits)
  then show "(k + 3) * interval r * period_usec r \<le> after - start" using n mono [of "k + 3" ?n] by (simp add: mult.assoc)
qed

section \<open>Periods made of days\<close>

abbreviation free_times :: "CalendarRule \<Rightarrow> pg_tm \<Rightarrow> (int \<times> int \<times> int) list" where
  "free_times r ts \<equiv> times_of_day r (- 1) (- 1) (- 1) ts"

abbreviation day_less :: "int \<times> int \<times> int \<Rightarrow> int \<times> int \<times> int \<Rightarrow> bool" where
  "day_less \<equiv> \<lambda>(y, m, d) (y', m', d'). date2j_core y m d < date2j_core y' m' d'"

definition period_dates :: "CalendarRule \<Rightarrow> pg_tm \<Rightarrow> int \<Rightarrow> (int \<times> int \<times> int) set" where
  "period_dates r ts k = {(y, m, d). 1 \<le> y \<and> valid_date y m d \<and> in_period r ts k (y, m, d) \<and> date_fits r ts (y, m, d)}"

definition by_days :: "CalendarRule \<Rightarrow> bool" where
  "by_days r \<longleftrightarrow> freq r \<noteq> FREQ_HOURLY \<and> freq r \<noteq> FREQ_MINUTELY \<and> freq r \<noteq> FREQ_SECONDLY"

lemma free_times_fit:
  assumes "by_days r" "valid_time tod"
  shows "tod \<in> set (free_times r ts) \<longleftrightarrow> time_fits r ts tod"
  using assms
  by (cases tod) (auto simp: times_of_day_mem field_fits_def time_fits_def valid_time_def by_days_def)

lemma enumerate_dates:
  assumes r: "by_days r" and ts: "valid_time (tm_hour ts, tm_min ts, tm_sec ts)"
    and dates: "sorted_wrt day_less dates" "set dates = period_dates r ts k"
  shows "sorted_wrt (<) (concat (map (day_stamps g (free_times r ts)) dates))"
    and "set (concat (map (day_stamps g (free_times r ts)) dates)) = {t. run_time r ts g start k t}"
proof -
  have v: "\<forall>tod \<in> set (free_times r ts). valid_time tod" by (rule times_of_day_valid [OF ts]) simp_all
  show "sorted_wrt (<) (concat (map (day_stamps g (free_times r ts)) dates))"
    by (rule days_stamps_sorted [OF dates(1) v times_of_day_sorted [OF v]])
  have u: "in_unit r k l0 l" for l0 l using r by (auto simp: in_unit_def by_days_def split: SchedFreq.splits)
  have "t \<in> set (concat (map (day_stamps g (free_times r ts)) dates)) \<longleftrightarrow> run_time r ts g start k t" for t
  proof -
    have "t \<in> set (concat (map (day_stamps g (free_times r ts)) dates)) \<longleftrightarrow>
      (\<exists>(y, m, d) \<in> period_dates r ts k. IS_VALID_TIMESTAMP t \<and> (\<exists>tod. valid_time tod \<and> time_fits r ts tod \<and> t = stamp g (y, m, d) tod))"
      using v free_times_fit [OF r] unfolding dates(2) [symmetric] by (auto simp: day_stamps_mem; blast)
    also have "\<dots> \<longleftrightarrow> run_time r ts g start k t"
      unfolding run_time_def period_dates_def using u by blast
    finally show ?thesis .
  qed
  then show "set (concat (map (day_stamps g (free_times r ts)) dates)) = {t. run_time r ts g start k t}" by blast
qed

text \<open>The loop over days, with the times of each day, is a search through the candidates in order.\<close>

lemma scan_dates_find:
  assumes "fixed_zone env g" "1 \<le> y" "\<forall>d \<in> set ds. valid_date y m d" "valid_time (tm_hour ts, tm_min ts, tm_sec ts)"
  shows "scan_days (\<lambda>mday. scan_times_on_date env r y m mday (- 1) (- 1) (- 1) ts start after) ds None =
    Inr (find (late start after) (concat (map (day_stamps g (free_times r ts)) (map (\<lambda>d. (y, m, d)) ds))))"
proof -
  have v: "\<forall>tod \<in> set (free_times r ts). valid_time tod" by (rule times_of_day_valid [OF assms(4)]) simp_all
  have "scan_days (\<lambda>mday. scan_times_on_date env r y m mday (- 1) (- 1) (- 1) ts start after) ds None =
    Inr (find (late start after) (concat (map (\<lambda>d. day_stamps g (free_times r ts) (y, m, d)) ds)))"
    by (rule scan_days_find) (use assms(3) scan_times_find [OF assms(1,2) _ v] in \<open>auto simp: scan_times_on_date_def\<close>)
  then show ?thesis by (simp add: comp_def)
qed

definition fields_ok :: "pg_tm \<Rightarrow> bool" where
  "fields_ok ts \<longleftrightarrow> 1 \<le> tm_year ts \<and> tm_year ts < 300000 \<and> valid_date (tm_year ts) (tm_mon ts) (tm_mday ts)
     \<and> valid_time (tm_hour ts, tm_min ts, tm_sec ts)"

text \<open>A period is enumerated: its search goes through exactly its run times, in order.\<close>

definition enumerates :: "int option sched \<Rightarrow> int \<Rightarrow> int \<Rightarrow> int set \<Rightarrow> bool" where
  "enumerates p start after runs \<longleftrightarrow> (\<exists>ts. p = Inr (find (late start after) ts) \<and> sorted_wrt (<) ts \<and> set ts = runs)"

lemma enumerates_dates:
  assumes "by_days r" "fields_ok ts" "sorted_wrt day_less dates" "set dates = period_dates r ts k"
    and "p = Inr (find (late start after) (concat (map (day_stamps g (free_times r ts)) dates)))"
  shows "enumerates p start after {t. run_time r ts g start k t}"
  using enumerate_dates [OF assms(1) _ assms(3,4)] assms(2,5) unfolding enumerates_def fields_ok_def by blast

definition month_dates :: "CalendarRule \<Rightarrow> pg_tm \<Rightarrow> int \<Rightarrow> int \<Rightarrow> (int \<times> int \<times> int) list" where
  "month_dates r ts y m = map (\<lambda>d. (y, m, d)) (filter (day_selected r y m (tm_mday ts)) [1..month_len y m])"

lemma month_dates_sorted: "sorted_wrt day_less (month_dates r ts y m)"
proof -
  have "date2j_core y m d < date2j_core y m d' \<longleftrightarrow> d < d'" for d d'
    using date2j_core_day [of y m d] date2j_core_day [of y m d'] by simp
  then show ?thesis by (simp add: month_dates_def sorted_wrt_map sorted_wrt_filter)
qed

lemma month_dates_mem:
  "(y', m', d) \<in> set (month_dates r ts y m) \<longleftrightarrow> y' = y \<and> m' = m \<and> 1 \<le> d \<and> d \<le> month_len y m \<and> day_selected r y m (tm_mday ts) d"
  by (auto simp: month_dates_def)

lemma months_dates_sorted:
  assumes "1 \<le> y" "sorted_wrt (<) ms" "set ms \<subseteq> {1..12}"
  shows "sorted_wrt day_less (concat (map (month_dates r ts y) ms))"
proof (rule sorted_wrt_concat_map [OF assms(2) month_dates_sorted])
  fix m m' a b
  assume *: "m \<in> set ms" "m' \<in> set ms" "m < m'" "a \<in> set (month_dates r ts y m)" "b \<in> set (month_dates r ts y m')"
  obtain d d' where d: "a = (y, m, d)" "b = (y, m', d')" "1 \<le> d" "d \<le> month_len y m" "1 \<le> d'" "d' \<le> month_len y m'"
    using *(4,5) by (auto simp: month_dates_def)
  have "proper_date y m d" "proper_date y m' d'" using d * assms(1,3) by (auto simp: proper_date_def valid_date_def)
  then show "day_less a b" using month_of_date2j_core [of y m d m' d'] *(3) d by simp
qed

lemma scan_month:
  assumes "fixed_zone env g" "rule_ok r" "fields_ok ts" "1 \<le> y" "1 \<le> m" "m \<le> 12"
  shows "bindR (month_day_list env r y m (tm_mday ts)) (\<lambda>days.
      scan_days (\<lambda>mday. scan_times_on_date env r y m mday (- 1) (- 1) (- 1) ts start after) days None) =
    Inr (find (late start after) (concat (map (day_stamps g (free_times r ts)) (month_dates r ts y m))))"
proof -
  let ?ds = "filter (day_selected r y m (tm_mday ts)) [1..month_len y m]"
  have "month_day_list env r y m (tm_mday ts) = Inr ?ds"
    using assms by (intro month_day_list_core) (auto simp: fields_ok_def valid_date_def)
  moreover have "\<forall>d \<in> set ?ds. valid_date y m d" using assms by (auto simp: valid_date_def)
  ultimately show ?thesis
    using scan_dates_find [OF assms(1,4), of ?ds m ts r start after] assms(3) by (simp add: month_dates_def fields_ok_def)
qed

lemma concat_map_concat: "concat (map f (concat (map h xs))) = concat (map (\<lambda>x. concat (map f (h x))) xs)"
  by (induction xs) auto

lemma enumerates_yearly:
  assumes z: "fixed_zone env g" and r: "rule_ok r" "freq r = FREQ_YEARLY" and ts: "fields_ok ts"
    and k: "0 \<le> k * interval r" "k * interval r < 1000000000"
  shows "enumerates (eval_yearly env r ts start after k) start after {t. run_time r ts g start k t}"
proof -
  define y where "y = tm_year ts + k * interval r"
  define ms where "ms = (if has_bymonth r then set_to_list (bymonth r) 13 True (tm_mon ts)
      else if bydate r \<noteq> [] then [1..12] else [tm_mon ts])"
  have y: "1 \<le> y" using ts k by (simp add: y_def fields_ok_def)
  have tm: "1 \<le> tm_mon ts" "tm_mon ts \<le> 12" using ts by (auto simp: fields_ok_def valid_date_def)
  have m0: "\<not> bymonth r ! 0" using r(1) by (simp add: rule_ok_def sets_ok_def)
  have ms_mem: "m \<in> set ms \<longleftrightarrow> 1 \<le> m \<and> m \<le> 12 \<and> (has_bymonth r \<longrightarrow> bymonth r ! nat m)
      \<and> (\<not> has_bymonth r \<and> bydate r = [] \<longrightarrow> m = tm_mon ts)" for m
    using tm m0 by (cases "m = 0") (auto simp: ms_def set_to_list_mem)
  have ms_sorted: "sorted_wrt (<) ms" using sorted_wrt_upto [of 1 12] by (simp add: ms_def set_to_list_sorted)
  have ms_range: "set ms \<subseteq> {1..12}" using ms_mem by auto
  have dates: "set (concat (map (month_dates r ts y) ms)) = period_dates r ts k"
  proof -
    have "a \<in> set (concat (map (month_dates r ts y) ms)) \<longleftrightarrow> a \<in> period_dates r ts k" for a
      using y r(2) by (cases a) (auto simp: month_dates_mem ms_mem period_dates_def in_period_def date_fits_def y_def
          valid_date_def day_selected_def)
    then show ?thesis by blast
  qed
  have w: "tm_year ts + wrap32 (k * interval r) = y" using k by (simp add: wrap32_id y_def)
  have "eval_yearly env r ts start after k =
    Inr (find (late start after) (concat (map (\<lambda>m. concat (map (day_stamps g (free_times r ts)) (month_dates r ts y m))) ms)))"
    unfolding eval_yearly_def Let_def w ms_def [symmetric]
    by (rule scan_days_find) (use scan_month [OF z r(1) ts y] ms_mem in auto)
  then show ?thesis
    using r(2) by (intro enumerates_dates [OF _ ts months_dates_sorted [OF y ms_sorted ms_range] dates])
      (simp_all add: by_days_def concat_map_concat)
qed

lemma enumerates_monthly:
  assumes z: "fixed_zone env g" and r: "rule_ok r" "freq r = FREQ_MONTHLY" and ts: "fields_ok ts"
    and k: "0 \<le> k * interval r" "k * interval r < 1000000000"
  shows "enumerates (eval_monthly env r ts start after k) start after {t. run_time r ts g start k t}"
proof -
  define i where "i = tm_year ts * 12 + (tm_mon ts - 1) + k * interval r"
  define y where "y = i div 12"
  define m where "m = i mod 12 + 1"
  have tm: "1 \<le> tm_mon ts" "tm_mon ts \<le> 12" "1 \<le> tm_year ts" "tm_year ts < 300000" using ts by (auto simp: fields_ok_def valid_date_def)
  have i: "12 \<le> i" "i < 1010000000" using tm k by (auto simp: i_def)
  have ym: "1 \<le> y" "y < 1010000000" "1 \<le> m" "m \<le> 12" using i by (auto simp: y_def m_def)
  have eq: "12 * y' + m' = 12 * tm_year ts + tm_mon ts + k * interval r \<longleftrightarrow> y' = y \<and> m' = m" if "1 \<le> m'" "m' \<le> 12" for y' m'
  proof -
    have "12 * y' + m' = 12 * tm_year ts + tm_mon ts + k * interval r \<longleftrightarrow> i = 12 * y' + (m' - 1)" by (auto simp: i_def)
    also have "\<dots> \<longleftrightarrow> y' = y \<and> m' = m"
      using int_div_pos_eq [of i 12 y' "m' - 1"] int_mod_pos_eq [of i 12 y' "m' - 1"] mult_div_mod_eq [of 12 i] that
      by (auto simp: y_def m_def)
    finally show ?thesis .
  qed
  define dates where "dates = (if has_bymonth r \<longrightarrow> bymonth r ! nat m then month_dates r ts y m else [])"
  have "sorted_wrt day_less dates" by (simp add: dates_def month_dates_sorted)
  moreover have "set dates = period_dates r ts k"
  proof -
    have "a \<in> set dates \<longleftrightarrow> a \<in> period_dates r ts k" for a
      using ym r(2) eq by (cases a) (auto simp: month_dates_mem dates_def period_dates_def in_period_def date_fits_def
          valid_date_def day_selected_def)
    then show ?thesis by blast
  qed
  moreover have "eval_monthly env r ts start after k =
    Inr (find (late start after) (concat (map (day_stamps g (free_times r ts)) dates)))"
  proof -
    have w: "wrap32 (i sdiv 12) = y" "wrap32 (i smod 12) + 1 = m"
      using i ym by (simp_all add: sdiv_nonneg smod_nonneg y_def m_def wrap32_id)
    have "length (bymonth r) = 13" using r(1) by (simp add: rule_ok_def sets_ok_def)
    then have "array_get (bymonth r) m = Inr (bymonth r ! nat m)" using ym by (simp add: array_get_def)
    then show ?thesis
      using scan_month [OF z r(1) ts ym(1,3,4), of start after]
      unfolding eval_monthly_def Let_def i_def [symmetric] w by (simp add: dates_def)
  qed
  ultimately show ?thesis using r(2) by (intro enumerates_dates [OF _ ts]) (simp_all add: by_days_def)
qed

lemma start_day_bounds:
  assumes "fields_ok ts"
  shows "1721426 \<le> start_day ts" "start_day ts < 112000000"
proof -
  have ts: "1 \<le> tm_year ts" "tm_year ts < 300000" "valid_date (tm_year ts) (tm_mon ts) (tm_mday ts)"
    using assms by (auto simp: fields_ok_def)
  have p: "proper_date (tm_year ts) (tm_mon ts) (tm_mday ts)" "proper_date 1 1 1" "proper_date 300000 1 1"
    using ts by (simp_all add: proper_date_def valid_date_def month_len_def)
  have v: "date2j_core 1 1 1 = 1721426" "date2j_core 300000 1 1 < 112000000" by code_simp+
  show "1721426 \<le> start_day ts" "start_day ts < 112000000"
    using jday.to_day_mono [OF p(1,2)] jday.to_day_mono [OF p(1,3)] ts v by (auto simp: start_day_def valid_date_def)
qed

lemma day_of_number:
  assumes "1721426 \<le> jd" "jd \<le> INT_MAX" "j2date jd = (y, m, d)"
  shows "1 \<le> y" "valid_date y m d" "date2j_core y m d = jd"
proof -
  have p: "proper_date y m d" "date2j_core y m d = jd"
    using jday.of_day_valid [OF _ assms(3)] jday.to_of_day [OF _ assms(3)] assms(1,2) by auto
  then show "valid_date y m d" "date2j_core y m d = jd" by (simp_all add: proper_date_def)
  have "proper_date 1 1 1" "date2j_core 1 1 1 = 1721426" by code_simp+
  then show "1 \<le> y" using jday.to_day_mono [OF p(1), of 1 1 1] p(2) assms(1) by auto
qed

text \<open>The days of a period given by their numbers.\<close>

lemma number_of_day:
  assumes "1721426 \<le> jd" "jd \<le> INT_MAX" "1 \<le> y" "valid_date y m d"
  shows "date2j_core y m d = jd \<longleftrightarrow> j2date jd = (y, m, d)"
proof
  assume j: "date2j_core y m d = jd"
  have "proper_date y m d" using assms by (simp add: proper_date_def)
  from jday.of_to_day [OF this] j assms show "j2date jd = (y, m, d)" by simp
qed (use day_of_number [OF assms(1,2)] in auto)

lemma weekday_list_ex:
  assumes "\<forall>bd \<in> set bds. ord bd = 0" "j2day (date2j_core y m d) = w"
  shows "list_ex (byday_selects y m d) bds = list_ex (\<lambda>bd. dow bd = w) bds"
  using assms by (auto simp: list_ex_iff byday_selects_def) (metis)

lemma date_matches_eq:
  assumes r: "rule_ok r" "\<forall>bd \<in> set (byday r). ord bd = 0" and d: "1 \<le> y" "valid_date y m d"
  shows "date_matches env r y m d = Inr ((has_bymonth r \<longrightarrow> bymonth r ! nat m) \<and> clauses_hold r y m d)"
proof -
  have m: "1 \<le> m" "m \<le> 12" using d by (auto simp: valid_date_def)
  have "length (bymonth r) = 13" using r(1) by (simp add: rule_ok_def sets_ok_def)
  then have a: "array_get (bymonth r) m = Inr (bymonth r ! nat m)" using m by (simp add: array_get_def)
  have w: "weekday_of env y m d = Inr (j2day (date2j_core y m d))" using d m by (simp add: weekday_of_core)
  have md: "list_ex (\<lambda>v. (if v < 0 then month_len y m + v + 1 else v) = d) (bymonthday r) =
      list_ex (monthday_selects y m d) (bymonthday r)" by (auto simp: list_ex_iff monthday_selects_def)
  note wd = weekday_list_ex [OF r(2) refl, symmetric]
  show ?thesis
    by (auto simp: date_matches_def a w md wd days_in_month_len [OF m] clauses_hold_def)
qed

lemma enumerates_daily:
  assumes z: "fixed_zone env g" and r: "rule_ok r" "freq r = FREQ_DAILY" "\<forall>bd \<in> set (byday r). ord bd = 0" and ts: "fields_ok ts"
    and k: "0 \<le> k * interval r" "k * interval r < 1000000000"
  shows "enumerates (eval_daily env r ts start after k) start after {t. run_time r ts g start k t}"
proof -
  define jd where "jd = start_day ts + k * interval r"
  have jd: "1721426 \<le> jd" "jd \<le> INT_MAX" using start_day_bounds [OF ts] k by (auto simp: jd_def INT_MAX_def)
  obtain y m d where ymd: "j2date jd = (y, m, d)" by (metis prod_cases3)
  note d = day_of_number [OF jd ymd]
  define ok where "ok \<longleftrightarrow> (has_bymonth r \<longrightarrow> bymonth r ! nat m) \<and> clauses_hold r y m d"
  define dates where "dates = (if ok then map (\<lambda>d. (y, m, d)) [d] else [])"
  have "sorted_wrt day_less dates" by (simp add: dates_def)
  moreover have "set dates = period_dates r ts k"
  proof -
    have "a \<in> set dates \<longleftrightarrow> a \<in> period_dates r ts k" for a
      using d r(2) number_of_day [OF jd] ymd
      by (cases a) (auto simp: dates_def ok_def period_dates_def in_period_def date_fits_def jd_def)
    then show ?thesis by blast
  qed
  moreover have "eval_daily env r ts start after k =
    Inr (find (late start after) (concat (map (day_stamps g (free_times r ts)) dates)))"
  proof -
    have "date2j env (tm_year ts) (tm_mon ts) (tm_mday ts) = Inr (start_day ts)"
      using ts by (auto simp: date2j_pure start_day_def fields_ok_def valid_date_def)
    moreover have "start_day ts + wrap32 (k * interval r) = jd" using k by (simp add: jd_def wrap32_id)
    moreover have "scan_times_on_date env r y m d (- 1) (- 1) (- 1) ts start after None =
      Inr (find (late start after) (day_stamps g (free_times r ts) (y, m, d)))"
      unfolding scan_times_on_date_def using ts
      by (intro scan_times_find [OF z d(1,2)] times_of_day_valid) (simp_all add: fields_ok_def)
    ultimately show ?thesis
      by (simp add: eval_daily_def dt_lift_def Let_def ymd date_matches_eq [OF r(1,3) d(1,2)] ok_def [symmetric] dates_def)
  qed
  ultimately show ?thesis using r(2) by (intro enumerates_dates [OF _ ts]) (simp_all add: by_days_def)
qed

lemma concat_map_if: "concat (map (\<lambda>x. if c x then f x else []) xs) = concat (map f (filter c xs))"
  by (induction xs) auto

lemma j2day_week: "j2day (j + 7 * n) = j2day j"
proof -
  have "j + 7 * n + 1 = (j + 1) + n * 7" by simp
  then show ?thesis unfolding j2day_mod by (metis mod_mult_self1)
qed

lemma j2day_same:
  assumes "0 \<le> d" "d < 7"
  shows "j2day (j + d) = j2day j \<longleftrightarrow> d = 0"
proof
  assume "j2day (j + d) = j2day j"
  then have "(j + 1 + d) mod 7 = (j + 1) mod 7" by (simp add: j2day_mod algebra_simps)
  then have "7 dvd d" by (simp add: mod_eq_dvd_iff)
  then show "d = 0" using assms zdvd_imp_le [of 7 d] by (cases "d = 0") auto
qed simp

lemma week_dates_sorted:
  assumes "1721426 \<le> j0" "j0 + 7 \<le> INT_MAX"
  shows "sorted_wrt day_less (map (\<lambda>d. j2date (j0 + d)) (filter c [0..6]))"
proof -
  have "day_less (j2date (j0 + d)) (j2date (j0 + d'))" if "d < d'" "0 \<le> d" "d' \<le> 6" for d d'
    using day_of_number(3) [of "j0 + d"] day_of_number(3) [of "j0 + d'"] that assms by (auto split: prod.splits)
  then have "sorted_wrt (\<lambda>d d'. day_less (j2date (j0 + d)) (j2date (j0 + d'))) (filter c [0..6])"
    by (intro sorted_wrt_mono_rel [OF _ sorted_wrt_filter [OF sorted_wrt_upto]]) (auto simp del: upto_rec_numeral)
  then show ?thesis by (simp add: sorted_wrt_map del: upto_rec_numeral)
qed

text \<open>A day of the week window that starts on day \<open>j0\<close>.\<close>

definition week_day_ok :: "CalendarRule \<Rightarrow> int \<Rightarrow> int \<Rightarrow> bool" where
  "week_day_ok r j0 d \<longleftrightarrow> (byday r \<noteq> [] \<longrightarrow> list_ex (\<lambda>bd. dow bd = j2day (j0 + d)) (byday r)) \<and> (byday r = [] \<longrightarrow> d = 0)
     \<and> (has_bymonth r \<longrightarrow> bymonth r ! nat (fst (snd (j2date (j0 + d)))))"

lemma week_dates_set:
  assumes r: "rule_ok r" "freq r = FREQ_WEEKLY" "\<forall>bd \<in> set (byday r). ord bd = 0" "bymonthday r = []" "bydate r = []"
    and j0: "j0 = start_day ts + 7 * (k * interval r)" "1721426 \<le> j0" "j0 + 7 \<le> INT_MAX"
  shows "set (map (\<lambda>d. j2date (j0 + d)) (filter (week_day_ok r j0) [0..6])) = period_dates r ts k"
proof -
  have fits: "(y, m, d) \<in> period_dates r ts k \<longleftrightarrow> week_day_ok r j0 e" if e: "0 \<le> e" "e < 7" "j2date (j0 + e) = (y, m, d)" for e y m d
  proof -
    have d: "1 \<le> y" "valid_date y m d" "date2j_core y m d = j0 + e" using day_of_number [OF _ _ e(3)] e j0 by auto
    have "list_ex (byday_selects y m d) (byday r) = list_ex (\<lambda>bd. dow bd = j2day (j0 + e)) (byday r)"
      using d(3) by (intro weekday_list_ex [OF r(3)]) simp
    moreover have "j2day (j0 + e) = j2day (start_day ts) \<longleftrightarrow> e = 0"
      using j2day_same [OF e(1,2), of j0] j2day_week [of "start_day ts" "k * interval r"] j0(1) by simp
    ultimately show ?thesis
      using d e j0(1) r(2,4,5) by (auto simp: period_dates_def in_period_def date_fits_def clauses_hold_def week_day_ok_def)
  qed
  have mem: "a \<in> period_dates r ts k \<longleftrightarrow> (\<exists>e. 0 \<le> e \<and> e < 7 \<and> week_day_ok r j0 e \<and> a = j2date (j0 + e))" for a
  proof
    assume a: "a \<in> period_dates r ts k"
    obtain y m d where ymd: "a = (y, m, d)" by (rule prod_cases3)
    let ?e = "date2j_core y m d - j0"
    have d: "1 \<le> y" "valid_date y m d" "0 \<le> ?e" "?e < 7"
      using a r(2) j0(1) by (auto simp: ymd period_dates_def in_period_def)
    then have "j2date (j0 + ?e) = (y, m, d)" using number_of_day [of "j0 + ?e" y m d] j0 by simp
    with fits [OF d(3,4) this] a ymd d show "\<exists>e. 0 \<le> e \<and> e < 7 \<and> week_day_ok r j0 e \<and> a = j2date (j0 + e)" by metis
  next
    assume "\<exists>e. 0 \<le> e \<and> e < 7 \<and> week_day_ok r j0 e \<and> a = j2date (j0 + e)"
    then show "a \<in> period_dates r ts k" using fits by (metis prod_cases3)
  qed
  have seven: "e < 7 \<longleftrightarrow> e \<le> 6" for e :: int by auto
  show ?thesis unfolding set_eq_iff mem seven by (auto simp del: upto_rec_numeral)
qed

lemma enumerates_weekly:
  assumes z: "fixed_zone env g" and r: "rule_ok r" "freq r = FREQ_WEEKLY" "\<forall>bd \<in> set (byday r). ord bd = 0" "bymonthday r = []" "bydate r = []"
    and ts: "fields_ok ts" and k: "0 \<le> 7 * (k * interval r)" "7 * (k * interval r) < 1000000000"
  shows "enumerates (eval_weekly env r ts start after k) start after {t. run_time r ts g start k t}"
proof -
  define j0 where "j0 = start_day ts + 7 * (k * interval r)"
  have j0: "1721426 \<le> j0" "j0 + 7 \<le> INT_MAX" using start_day_bounds [OF ts] k by (auto simp: j0_def INT_MAX_def)
  let ?f = "\<lambda>d. day_stamps g (free_times r ts) (j2date (j0 + d))"
  have j: "date2j env (tm_year ts) (tm_mon ts) (tm_mday ts) = Inr (start_day ts)"
    using ts by (auto simp: date2j_pure start_day_def fields_ok_def valid_date_def)
  have w: "start_day ts + wrap32 (k * interval r * 7) = j0" using k by (simp add: j0_def wrap32_id)
  have "eval_weekly env r ts start after k =
    Inr (find (late start after) (concat (map (\<lambda>d. if week_day_ok r j0 d then ?f d else []) [0..6])))"
    unfolding eval_weekly_def j dt_lift_def sum.case bindR_Inr w Let_def
  proof (rule scan_days_find)
    fix d :: int
    assume "d \<in> set [0..6]"
    then have d: "0 \<le> d" "d \<le> 6" by (simp_all del: upto_rec_numeral)
    obtain y m e where ymd: "j2date (j0 + d) = (y, m, e)" by (metis prod_cases3)
    have v: "1 \<le> y" "valid_date y m e" using day_of_number [OF _ _ ymd] d j0 by auto
    have "array_get (bymonth r) m = Inr (bymonth r ! nat m)"
      using r(1) v by (simp add: rule_ok_def sets_ok_def array_get_def valid_date_def)
    moreover have "scan_times_on_date env r y m e (- 1) (- 1) (- 1) ts start after None =
      Inr (find (late start after) (day_stamps g (free_times r ts) (y, m, e)))"
      unfolding scan_times_on_date_def using ts
      by (intro scan_times_find [OF z v] times_of_day_valid) (simp_all add: fields_ok_def)
    ultimately show "(if byday r \<noteq> [] \<and> \<not> list_ex (\<lambda>bd. dow bd = j2day (j0 + d)) (byday r) then Inr None
        else if byday r = [] \<and> d \<noteq> 0 then Inr None
        else case j2date (j0 + d) of (year, mon, mday) \<Rightarrow>
          bindR (if has_bymonth r then array_get (bymonth r) mon else Inr True) (\<lambda>ok. if \<not> ok then Inr None
            else scan_times_on_date env r year mon mday (- 1) (- 1) (- 1) ts start after None)) =
      Inr (find (late start after) (if week_day_ok r j0 d then ?f d else []))"
      unfolding week_day_ok_def ymd prod.case fst_conv snd_conv by auto
  qed
  then have "eval_weekly env r ts start after k = Inr (find (late start after)
      (concat (map (day_stamps g (free_times r ts)) (map (\<lambda>d. j2date (j0 + d)) (filter (week_day_ok r j0) [0..6])))))"
    unfolding concat_map_if by (simp add: comp_def del: upto_rec_numeral)
  then show ?thesis
    using r(2) by (intro enumerates_dates [OF _ ts week_dates_sorted [OF j0] week_dates_set [OF r j0_def j0]]) (simp_all add: by_days_def)
qed

section \<open>Periods below a day\<close>

lemma digits_eq:
  fixes a b n J J' :: int
  assumes "0 \<le> a" "a < n" "0 \<le> b" "b < n"
  shows "J * n + a = J' * n + b \<longleftrightarrow> J = J' \<and> a = b"
proof
  assume e: "J * n + a = J' * n + b"
  have "(J * n + a) div n = J" "(J' * n + b) div n = J'" using assms by (auto simp: div_pos_pos_trivial)
  then show "J = J' \<and> a = b" using e by simp
qed simp

lemma unit_fields:
  assumes t: "valid_time (h, mi, s)" and f: "0 \<le> f" "f < USECS_PER_SEC" and x: "x = J * USECS_PER_DAY + time2t h mi s f"
  shows "x div USECS_PER_HOUR = J * 24 + h" "x div USECS_PER_MINUTE = (J * 24 + h) * 60 + mi"
    "x div USECS_PER_SEC = ((J * 24 + h) * 60 + mi) * 60 + s"
proof -
  have b: "0 \<le> mi" "mi < 60" "0 \<le> s" "s < 60" "0 \<le> f" "f < 1000000" using t f by (auto simp: valid_time_def time_units)
  show "x div USECS_PER_HOUR = J * 24 + h"
    by (rule int_div_pos_eq [of _ _ _ "(mi * 60 + s) * 1000000 + f"]) (use b in \<open>auto simp: x time2t_def time_units\<close>)
  show "x div USECS_PER_MINUTE = (J * 24 + h) * 60 + mi"
    by (rule int_div_pos_eq [of _ _ _ "s * 1000000 + f"]) (use b in \<open>auto simp: x time2t_def time_units\<close>)
  show "x div USECS_PER_SEC = ((J * 24 + h) * 60 + mi) * 60 + s"
    by (rule int_div_pos_eq [of _ _ _ f]) (use b in \<open>auto simp: x time2t_def time_units\<close>)
qed

text \<open>The time fields two local times share when they lie in the same hour, minute or second.\<close>

lemma same_unit:
  fixes g :: int
  assumes l: "fields_of l tm" and d: "1 \<le> y" "valid_date y m d" and t: "valid_time (h, mi, s)"
  defines "x \<equiv> local_usec g (stamp g (y, m, d) (h, mi, s))"
  shows "x div USECS_PER_HOUR = l div USECS_PER_HOUR \<longleftrightarrow> (y, m, d) = (tm_year tm, tm_mon tm, tm_mday tm) \<and> h = tm_hour tm"
    and "x div USECS_PER_MINUTE = l div USECS_PER_MINUTE \<longleftrightarrow>
      (y, m, d) = (tm_year tm, tm_mon tm, tm_mday tm) \<and> h = tm_hour tm \<and> mi = tm_min tm"
    and "x div USECS_PER_SEC = l div USECS_PER_SEC \<longleftrightarrow>
      (y, m, d) = (tm_year tm, tm_mon tm, tm_mday tm) \<and> h = tm_hour tm \<and> mi = tm_min tm \<and> s = tm_sec tm"
proof -
  let ?J = "date2j_core y m d - POSTGRES_EPOCH_JDATE" and ?K = "l div USECS_PER_DAY"
  have tm: "valid_time (tm_hour tm, tm_min tm, tm_sec tm)" using l by (simp add: fields_of_def)
  have f: "0 \<le> l mod USECS_PER_SEC" "l mod USECS_PER_SEC < USECS_PER_SEC" by (simp_all add: time_units)
  have le: "l = ?K * USECS_PER_DAY + time2t (tm_hour tm) (tm_min tm) (tm_sec tm) (l mod USECS_PER_SEC)"
    using l div_mult_mod_eq [of l USECS_PER_DAY] unfolding fields_of_def by metis
  note ul = unit_fields [OF tm f le]
  have xe: "x = ?J * USECS_PER_DAY + time2t h mi s 0" by (simp add: x_def stamp_def local_usec_def)
  have ux: "x div USECS_PER_HOUR = ?J * 24 + h" "x div USECS_PER_MINUTE = (?J * 24 + h) * 60 + mi"
    "x div USECS_PER_SEC = ((?J * 24 + h) * 60 + mi) * 60 + s"
    using unit_fields [OF t _ _ xe] by (simp_all add: time_units)
  have p: "proper_date y m d" "proper_date (tm_year tm) (tm_mon tm) (tm_mday tm)"
    using d l by (auto simp: proper_date_def fields_of_def)
  have "?J = ?K \<longleftrightarrow> date2j_core y m d = date2j_core (tm_year tm) (tm_mon tm) (tm_mday tm)"
    using l by (auto simp: fields_of_def start_day_def)
  also have "\<dots> \<longleftrightarrow> (y, m, d) = (tm_year tm, tm_mon tm, tm_mday tm)" using jday.to_day_inj [OF p] by auto
  finally have J: "?J = ?K \<longleftrightarrow> (y, m, d) = (tm_year tm, tm_mon tm, tm_mday tm)" .
  have b: "0 \<le> h" "h < 24" "0 \<le> mi" "mi < 60" "0 \<le> s" "s < 60" "0 \<le> tm_hour tm" "tm_hour tm < 24"
    "0 \<le> tm_min tm" "tm_min tm < 60" "0 \<le> tm_sec tm" "tm_sec tm < 60" using t tm by (auto simp: valid_time_def)
  have e: "?J * 24 + h = ?K * 24 + tm_hour tm \<longleftrightarrow> ?J = ?K \<and> h = tm_hour tm" by (rule digits_eq [OF b(1,2,7,8)])
  have e2: "(?J * 24 + h) * 60 + mi = (?K * 24 + tm_hour tm) * 60 + tm_min tm \<longleftrightarrow> ?J * 24 + h = ?K * 24 + tm_hour tm \<and> mi = tm_min tm"
    by (rule digits_eq [OF b(3,4,9,10)])
  have e3: "((?J * 24 + h) * 60 + mi) * 60 + s = ((?K * 24 + tm_hour tm) * 60 + tm_min tm) * 60 + tm_sec tm
      \<longleftrightarrow> (?J * 24 + h) * 60 + mi = (?K * 24 + tm_hour tm) * 60 + tm_min tm \<and> s = tm_sec tm"
    by (rule digits_eq [OF b(5,6,11,12)])
  show "x div USECS_PER_HOUR = l div USECS_PER_HOUR \<longleftrightarrow> (y, m, d) = (tm_year tm, tm_mon tm, tm_mday tm) \<and> h = tm_hour tm"
    unfolding ul ux e J ..
  show "x div USECS_PER_MINUTE = l div USECS_PER_MINUTE \<longleftrightarrow>
      (y, m, d) = (tm_year tm, tm_mon tm, tm_mday tm) \<and> h = tm_hour tm \<and> mi = tm_min tm"
    unfolding ul ux e2 e J conj_assoc ..
  show "x div USECS_PER_SEC = l div USECS_PER_SEC \<longleftrightarrow>
      (y, m, d) = (tm_year tm, tm_mon tm, tm_mday tm) \<and> h = tm_hour tm \<and> mi = tm_min tm \<and> s = tm_sec tm"
    unfolding ul ux e3 e2 e J conj_assoc ..
qed

definition same_time_unit :: "CalendarRule \<Rightarrow> pg_tm \<Rightarrow> int \<times> int \<times> int \<Rightarrow> bool" where
  "same_time_unit r tm = (\<lambda>(h, mi, s). h = tm_hour tm \<and> (freq r \<noteq> FREQ_HOURLY \<longrightarrow> mi = tm_min tm)
     \<and> (freq r = FREQ_SECONDLY \<longrightarrow> s = tm_sec tm))"

definition tm_date_ok :: "CalendarRule \<Rightarrow> pg_tm \<Rightarrow> bool" where
  "tm_date_ok r tm \<longleftrightarrow> (has_bymonth r \<longrightarrow> bymonth r ! nat (tm_mon tm)) \<and> clauses_hold r (tm_year tm) (tm_mon tm) (tm_mday tm)"

lemma run_time_timed:
  assumes r: "\<not> by_days r" and tm: "fields_of (local_usec g start + k * interval r * period_usec r) tm"
  shows "run_time r ts g start k t \<longleftrightarrow> IS_VALID_TIMESTAMP t \<and> tm_date_ok r tm \<and>
    (\<exists>tod. valid_time tod \<and> t = stamp g (tm_year tm, tm_mon tm, tm_mday tm) tod \<and> time_fits r ts tod \<and> same_time_unit r tm tod)"
proof -
  let ?st = "local_usec g start" and ?ymd = "(tm_year tm, tm_mon tm, tm_mday tm)"
  have u: "in_unit r k ?st (local_usec g (stamp g (y, m, d) tod)) \<longleftrightarrow> (y, m, d) = ?ymd \<and> same_time_unit r tm tod"
    if "1 \<le> y" "valid_date y m d" "valid_time tod" for y m d tod
  proof -
    obtain h mi s where tod: "tod = (h, mi, s)" by (rule prod_cases3)
    let ?x = "local_usec g (stamp g (y, m, d) tod)" and ?l = "?st + k * interval r * period_usec r"
    have "?l div period_usec r = k * interval r + ?st div period_usec r"
      by (rule div_mult_self1) (use period_usec_pos [of r] in simp)
    then have sh: "?l div period_usec r = ?st div period_usec r + k * interval r" by linarith
    have x: "in_unit r k ?st ?x \<longleftrightarrow> ?x div period_usec r = ?l div period_usec r"
      unfolding sh using r by (auto simp: in_unit_def period_usec_def by_days_def split: SchedFreq.splits)
    note e = same_unit [OF tm that(1,2) that(3) [unfolded tod], of g, folded tod]
    consider "freq r = FREQ_HOURLY" | "freq r = FREQ_MINUTELY" | "freq r = FREQ_SECONDLY" using r by (auto simp: by_days_def)
    then show ?thesis
    proof cases
      case 1
      then have "period_usec r = USECS_PER_HOUR" by (simp add: period_usec_def)
      then show ?thesis using x e(1) 1 by (simp add: same_time_unit_def tod)
    next
      case 2
      then have "period_usec r = USECS_PER_MINUTE" by (simp add: period_usec_def)
      then show ?thesis using x e(2) 2 by (simp add: same_time_unit_def tod)
    next
      case 3
      then have "period_usec r = USECS_PER_SEC" by (simp add: period_usec_def)
      then show ?thesis using x e(3) 3 by (simp add: same_time_unit_def tod)
    qed
  qed
  have v: "1 \<le> tm_year tm" "valid_date (tm_year tm) (tm_mon tm) (tm_mday tm)" using tm by (auto simp: fields_of_def)
  have p: "in_period r ts k ymd" for ymd using r by (cases ymd) (auto simp: in_period_def by_days_def split: SchedFreq.splits)
  have d: "date_fits r ts ?ymd = tm_date_ok r tm" using r by (auto simp: date_fits_def tm_date_ok_def by_days_def)
  show ?thesis
  proof
    assume "run_time r ts g start k t"
    then obtain y m e tod where "1 \<le> y" "valid_date y m e" "valid_time tod" "t = stamp g (y, m, e) tod" "IS_VALID_TIMESTAMP t"
      "date_fits r ts (y, m, e)" "time_fits r ts tod" "in_unit r k ?st (local_usec g t)" unfolding run_time_def by blast
    with u [of y m e tod] d show "IS_VALID_TIMESTAMP t \<and> tm_date_ok r tm \<and>
      (\<exists>tod. valid_time tod \<and> t = stamp g ?ymd tod \<and> time_fits r ts tod \<and> same_time_unit r tm tod)"
      by (intro conjI exI [of _ tod]) auto
  next
    assume "IS_VALID_TIMESTAMP t \<and> tm_date_ok r tm \<and>
      (\<exists>tod. valid_time tod \<and> t = stamp g ?ymd tod \<and> time_fits r ts tod \<and> same_time_unit r tm tod)"
    then show "run_time r ts g start k t" unfolding run_time_def using u [OF v] v p d by blast
  qed
qed

lemma fields_stamp:
  assumes "fields_of l tm"
  shows "stamp g (tm_year tm, tm_mon tm, tm_mday tm) (tm_hour tm, tm_min tm, tm_sec tm) = l - l mod USECS_PER_SEC - g * USECS_PER_SEC"
proof -
  have "l = (start_day tm - POSTGRES_EPOCH_JDATE) * USECS_PER_DAY + time2t (tm_hour tm) (tm_min tm) (tm_sec tm) (l mod USECS_PER_SEC)"
    using assms div_mult_mod_eq [of l USECS_PER_DAY] by (simp add: fields_of_def)
  then show ?thesis by (simp add: stamp_def start_day_def time2t_def)
qed

text \<open>The part the three frequencies share: the local time of the period and the filters on it.\<close>

lemma eval_timed_filters:
  assumes z: "fixed_zone env g" and r: "rule_ok r" "\<not> by_days r" "\<forall>bd \<in> set (byday r). ord bd = 0"
    and b: "- 63000000000000000 \<le> start + k * interval r * period_usec r" "start + k * interval r * period_usec r \<le> 9300000000000000000"
  obtains tm where "fields_of (local_usec g start + k * interval r * period_usec r) tm"
    "eval_timed env r ts start after k =
      (if \<not> tm_date_ok r tm \<or> (has_byhour r \<and> \<not> byhour r ! nat (tm_hour tm)) then Inr None
       else if freq r = FREQ_HOURLY then scan_times_on_date env r (tm_year tm) (tm_mon tm) (tm_mday tm) (tm_hour tm) (- 1) (- 1) ts start after None
       else if has_byminute r \<and> \<not> byminute r ! nat (tm_min tm) then Inr None
       else if freq r = FREQ_MINUTELY then
         scan_times_on_date env r (tm_year tm) (tm_mon tm) (tm_mday tm) (tm_hour tm) (tm_min tm) (- 1) ts start after None
       else if has_bysecond r \<and> \<not> bysecond r ! nat (tm_sec tm) then Inr None
       else Inr (find (late start after) [stamp g (tm_year tm, tm_mon tm, tm_mday tm) (tm_hour tm, tm_min tm, tm_sec tm)]))"
proof -
  define base where "base = start + k * (interval r * period_usec r)"
  have base: "base = start + k * interval r * period_usec r" by (simp add: base_def)
  obtain tm tz where tm: "timestamp2tm env True base = Some (tm, base mod USECS_PER_SEC, tz)" "fields_of (local_usec g base) tm"
    using zone_fields [OF z] b unfolding base [symmetric] by metis
  have step: "(if freq r = FREQ_HOURLY then interval r * USECS_PER_HOUR else if freq r = FREQ_MINUTELY then interval r * USECS_PER_MINUTE
      else interval r * USECS_PER_SEC) = interval r * period_usec r"
    using r(2) by (auto simp: period_usec_def by_days_def)
  have f: "1 \<le> tm_year tm" "valid_date (tm_year tm) (tm_mon tm) (tm_mday tm)" "valid_time (tm_hour tm, tm_min tm, tm_sec tm)"
    using tm(2) by (auto simp: fields_of_def)
  have dm: "date_matches env r (tm_year tm) (tm_mon tm) (tm_mday tm) = Inr (tm_date_ok r tm)"
    using date_matches_eq [OF r(1,3) f(1,2)] by (simp add: tm_date_ok_def)
  have a: "array_get (byhour r) (tm_hour tm) = Inr (byhour r ! nat (tm_hour tm))"
    "array_get (byminute r) (tm_min tm) = Inr (byminute r ! nat (tm_min tm))"
    "array_get (bysecond r) (tm_sec tm) = Inr (bysecond r ! nat (tm_sec tm))"
    using r(1) f(3) by (auto simp: rule_ok_def sets_ok_def array_get_def valid_time_def)
  have s: "base - base mod USECS_PER_SEC = stamp g (tm_year tm, tm_mon tm, tm_mday tm) (tm_hour tm, tm_min tm, tm_sec tm)"
    unfolding fields_stamp [OF tm(2)] by (simp add: local_usec_def)
  have "local_usec g base = local_usec g start + k * interval r * period_usec r" by (simp add: local_usec_def base)
  with tm(2) have "fields_of (local_usec g start + k * interval r * period_usec r) tm" by simp
  then show thesis
    by (rule that) (simp add: eval_timed_def Let_def step base_def [symmetric] tm(1) dm a s consider_candidate_None)
qed

lemma fixed_times_fit:
  assumes "valid_time (tm_hour tm, tm_min tm, tm_sec tm)" "valid_time (tm_hour ts, tm_min ts, tm_sec ts)"
  shows "freq r = FREQ_HOURLY \<Longrightarrow> (has_byhour r \<longrightarrow> byhour r ! nat (tm_hour tm)) \<and> tod \<in> set (times_of_day r (tm_hour tm) (- 1) (- 1) ts)
      \<longleftrightarrow> valid_time tod \<and> time_fits r ts tod \<and> same_time_unit r tm tod"
    and "freq r = FREQ_MINUTELY \<Longrightarrow> (has_byhour r \<longrightarrow> byhour r ! nat (tm_hour tm)) \<and> (has_byminute r \<longrightarrow> byminute r ! nat (tm_min tm))
        \<and> tod \<in> set (times_of_day r (tm_hour tm) (tm_min tm) (- 1) ts)
      \<longleftrightarrow> valid_time tod \<and> time_fits r ts tod \<and> same_time_unit r tm tod"
  using assms
  by (cases tod; auto simp: times_of_day_mem field_fits_def time_fits_def same_time_unit_def valid_time_def)+

lemma scan_fixed_times:
  assumes "fixed_zone env g" "fields_of l tm" "fields_ok ts" "hf < 24" "mf < 60"
  shows "scan_times_on_date env r (tm_year tm) (tm_mon tm) (tm_mday tm) hf mf (- 1) ts start after None =
      Inr (find (late start after) (day_stamps g (times_of_day r hf mf (- 1) ts) (tm_year tm, tm_mon tm, tm_mday tm)))"
    and "sorted_wrt (<) (day_stamps g (times_of_day r hf mf (- 1) ts) ymd)"
proof -
  have v: "\<forall>tod \<in> set (times_of_day r hf mf (- 1) ts). valid_time tod"
    using assms by (intro times_of_day_valid) (auto simp: fields_ok_def)
  show "scan_times_on_date env r (tm_year tm) (tm_mon tm) (tm_mday tm) hf mf (- 1) ts start after None =
      Inr (find (late start after) (day_stamps g (times_of_day r hf mf (- 1) ts) (tm_year tm, tm_mon tm, tm_mday tm)))"
    unfolding scan_times_on_date_def using assms by (intro scan_times_find [OF _ _ _ v]) (auto simp: fields_of_def)
  show "sorted_wrt (<) (day_stamps g (times_of_day r hf mf (- 1) ts) ymd)"
    by (rule day_stamps_sorted [OF times_of_day_sorted [OF v]])
qed

lemma enumerates_timed:
  assumes z: "fixed_zone env g" and r: "rule_ok r" "\<not> by_days r" "\<forall>bd \<in> set (byday r). ord bd = 0" and ts: "fields_ok ts"
    and b: "- 63000000000000000 \<le> start + k * interval r * period_usec r" "start + k * interval r * period_usec r \<le> 9300000000000000000"
    "freq r = FREQ_SECONDLY \<Longrightarrow> start + k * interval r * period_usec r \<le> 9223371000000000000"
  shows "enumerates (eval_timed env r ts start after k) start after {t. run_time r ts g start k t}"
proof -
  obtain tm where tm: "fields_of (local_usec g start + k * interval r * period_usec r) tm"
    and ev: "eval_timed env r ts start after k =
      (if \<not> tm_date_ok r tm \<or> (has_byhour r \<and> \<not> byhour r ! nat (tm_hour tm)) then Inr None
       else if freq r = FREQ_HOURLY then scan_times_on_date env r (tm_year tm) (tm_mon tm) (tm_mday tm) (tm_hour tm) (- 1) (- 1) ts start after None
       else if has_byminute r \<and> \<not> byminute r ! nat (tm_min tm) then Inr None
       else if freq r = FREQ_MINUTELY then
         scan_times_on_date env r (tm_year tm) (tm_mon tm) (tm_mday tm) (tm_hour tm) (tm_min tm) (- 1) ts start after None
       else if has_bysecond r \<and> \<not> bysecond r ! nat (tm_sec tm) then Inr None
       else Inr (find (late start after) [stamp g (tm_year tm, tm_mon tm, tm_mday tm) (tm_hour tm, tm_min tm, tm_sec tm)]))"
    by (rule eval_timed_filters [OF z r b(1,2)])
  let ?ymd = "(tm_year tm, tm_mon tm, tm_mday tm)"
  note runs = run_time_timed [OF r(2) tm]
  have v: "valid_time (tm_hour tm, tm_min tm, tm_sec tm)" "valid_time (tm_hour ts, tm_min ts, tm_sec ts)"
    using tm ts by (auto simp: fields_of_def fields_ok_def)
  have lt: "tm_hour tm < 24" "tm_min tm < 60" "(- 1 :: int) < 60" using v by (auto simp: valid_time_def)
  define hok where "hok \<longleftrightarrow> tm_date_ok r tm \<and> (has_byhour r \<longrightarrow> byhour r ! nat (tm_hour tm))"
  define mok where "mok \<longleftrightarrow> hok \<and> (has_byminute r \<longrightarrow> byminute r ! nat (tm_min tm))"
  consider "freq r = FREQ_HOURLY" | "freq r = FREQ_MINUTELY" | "freq r = FREQ_SECONDLY" using r(2) by (auto simp: by_days_def)
  then show ?thesis
  proof cases
    case 1
    let ?cs = "if hok then day_stamps g (times_of_day r (tm_hour tm) (- 1) (- 1) ts) ?ymd else []"
    have "set ?cs = {t. run_time r ts g start k t}"
      unfolding runs set_eq_iff using fixed_times_fit(1) [OF v 1] by (auto simp: hok_def day_stamps_mem; blast)
    moreover have "eval_timed env r ts start after k = Inr (find (late start after) ?cs)"
      unfolding ev using 1 scan_fixed_times(1) [OF z tm ts lt(1,3)] by (auto simp: hok_def)
    moreover have "sorted_wrt (<) ?cs" using scan_fixed_times(2) [OF z tm ts lt(1,3)] by simp
    ultimately show ?thesis unfolding enumerates_def by blast
  next
    case 2
    let ?cs = "if mok then day_stamps g (times_of_day r (tm_hour tm) (tm_min tm) (- 1) ts) ?ymd else []"
    have "set ?cs = {t. run_time r ts g start k t}"
      unfolding runs set_eq_iff using fixed_times_fit(2) [OF v 2] by (auto simp: mok_def hok_def day_stamps_mem; blast)
    moreover have "eval_timed env r ts start after k = Inr (find (late start after) ?cs)"
      unfolding ev using 2 scan_fixed_times(1) [OF z tm ts lt(1,2)] by (auto simp: mok_def hok_def)
    moreover have "sorted_wrt (<) ?cs" using scan_fixed_times(2) [OF z tm ts lt(1,2)] by simp
    ultimately show ?thesis unfolding enumerates_def by blast
  next
    case 3
    let ?t = "stamp g ?ymd (tm_hour tm, tm_min tm, tm_sec tm)"
    define sok where "sok \<longleftrightarrow> mok \<and> (has_bysecond r \<longrightarrow> bysecond r ! nat (tm_sec tm))"
    let ?cs = "if sok then [?t] else []"
    let ?b = "local_usec g start + k * interval r * period_usec r"
    have f: "0 \<le> ?b mod USECS_PER_SEC" "?b mod USECS_PER_SEC < 1000000" by (simp_all add: time_units)
    have "IS_VALID_TIMESTAMP (?b - ?b mod USECS_PER_SEC - g * USECS_PER_SEC)"
      using b(1) b(3) [OF 3] f by (simp add: IS_VALID_TIMESTAMP_def MIN_TIMESTAMP_def END_TIMESTAMP_def local_usec_def)
    then have "IS_VALID_TIMESTAMP ?t" unfolding fields_stamp [OF tm] .
    then have "set ?cs = {t. run_time r ts g start k t}"
      unfolding runs set_eq_iff using v(1) 3 by (auto simp: sok_def mok_def hok_def time_fits_def same_time_unit_def)
    moreover have "eval_timed env r ts start after k = Inr (find (late start after) ?cs)"
      unfolding ev using 3 by (auto simp: sok_def mok_def hok_def)
    moreover have "sorted_wrt (<) ?cs" by simp
    ultimately show ?thesis unfolding enumerates_def by blast
  qed
qed

end
