(* ===== verification/Sched_Search.thy ===== *)
theory Sched_Search
  imports Sched_Next
begin

text \<open>
  The periods of a calendar rule are in chronological order and those the search skips
  lie before the time it searches from; with the enumeration of each period this makes the
  search an instance of \<open>period_search\<close>.
\<close>

section \<open>Distances between dates\<close>

lemma month_distance:
  assumes "1 \<le> y0" "1 \<le> m0" "m0 \<le> 12" "1 \<le> y" "1 \<le> m" "m \<le> 12" "12 * y + m = 12 * y0 + m0 + int n"
  shows "date2j_core y m 1 \<le> date2j_core y0 m0 1 + 31 * int n"
  using assms(4-)
proof (induction n arbitrary: y m)
  case 0
  then have "y = y0" "m = m0" using assms(2,3) by presburger+
  then show ?case by simp
next
  case (Suc n)
  show ?case
  proof (cases "m = 1")
    case True
    then have "y0 < y" using Suc.prems assms(1-3) by simp
    then have "date2j_core (y - 1) 12 1 \<le> date2j_core y0 m0 1 + 31 * int n"
      using Suc.IH [of "y - 1" 12] Suc.prems True assms(1) by simp
    then show ?thesis using date2j_core_year_step [of "y - 1"] Suc.prems(1) True by simp
  next
    case False
    then have "date2j_core y (m - 1) 1 \<le> date2j_core y0 m0 1 + 31 * int n"
      using Suc.IH [of y "m - 1"] Suc.prems by simp
    moreover have "month_len y (m - 1) \<le> 31" using month_len_bounds [of "m - 1" y] Suc.prems False by simp
    ultimately show ?thesis using date2j_core_month_step [of y "m - 1"] Suc.prems False by simp
  qed
qed

lemma year_step:
  assumes "1 \<le> z"
  shows "date2j_core (z + 1) 1 1 \<le> date2j_core z 1 1 + 366"
proof -
  have e: "z + 1 + 4799 = z + 4800" by simp
  have "date2j_core (z + 1) 1 1 = year_days (z + 4800) + month_off 14 + 1"
    using date2j_core_year_days [of "z + 1" 1 1, unfolded e] assms by simp
  moreover have "date2j_core z 1 1 = year_days (z + 4799) + month_off 14 + 1"
    using date2j_core_year_days [of z 1 1] assms by simp
  ultimately show ?thesis using year_days_leap [of z] by (simp split: if_splits)
qed

lemma year_distance:
  assumes "1 \<le> y"
  shows "date2j_core (y + int n) 1 1 \<le> date2j_core y 1 1 + 366 * int n"
proof (induction n)
  case (Suc n)
  have e: "y + int (Suc n) = y + int n + 1" by simp
  show ?case unfolding e using Suc year_step [of "y + int n"] assms by simp
qed simp

section \<open>Extent of a period\<close>

lemma interval_steps:
  fixes k k' i :: int
  assumes "1 \<le> i" "k < k'"
  shows "k * i + 1 \<le> k' * i"
proof -
  have "(k + 1) * i \<le> k' * i" using assms by (intro mult_right_mono) auto
  then show ?thesis using assms by (simp add: algebra_simps)
qed

text \<open>Every run time of period \<open>k\<close> is less than \<open>k + 1\<close> period lengths after the start.\<close>

lemma period_day_extent:
  assumes r: "by_days r" "1 \<le> interval r" and ts: "fields_ok ts" and k: "0 \<le> k"
    and d: "1 \<le> y" "valid_date y m d" "in_period r ts k (y, m, d)"
  shows "(date2j_core y m d + 1 - start_day ts) * USECS_PER_DAY \<le> (k * interval r + 1) * period_usec r"
proof -
  let ?n = "k * interval r" and ?u = "\<lambda>x. x * USECS_PER_DAY"
  have n: "0 \<le> ?n" using k r(2) by simp
  have t: "1 \<le> tm_year ts" "1 \<le> tm_mon ts" "tm_mon ts \<le> 12" "1 \<le> tm_mday ts" "proper_date (tm_year ts) (tm_mon ts) (tm_mday ts)"
    using ts by (auto simp: fields_ok_def valid_date_def proper_date_def)
  have e: "1 \<le> m" "m \<le> 12" "1 \<le> d" "d \<le> 31" "proper_date y m d"
    using d month_len_bounds [of m y] by (auto simp: valid_date_def proper_date_def)
  have day: "date2j_core y m d = date2j_core y m 1 + (d - 1)" "start_day ts = date2j_core (tm_year ts) (tm_mon ts) 1 + (tm_mday ts - 1)"
    unfolding start_day_def by (rule date2j_core_day)+
  obtain w where w: "period_usec r = ?u w" "date2j_core y m d + 1 - start_day ts \<le> (?n + 1) * w"
  proof (cases "freq r")
    case FREQ_YEARLY
    then have "y = tm_year ts + int (nat ?n)" using d(3) n by (simp add: in_period_def)
    moreover have "date2j_core y m d < date2j_core (tm_year ts + int (nat (?n + 1))) 1 1"
      using date2j_core_year_bounds(2) [OF e(5)] calculation n by (simp add: nat_add_distrib algebra_simps)
    moreover have "date2j_core (tm_year ts + int (nat (?n + 1))) 1 1 \<le> date2j_core (tm_year ts) 1 1 + 366 * int (nat (?n + 1))"
      by (rule year_distance [OF t(1)])
    moreover have "date2j_core (tm_year ts) 1 1 \<le> start_day ts"
      unfolding start_day_def by (rule date2j_core_year_bounds(1) [OF t(5)])
    ultimately show thesis using that [of 366] FREQ_YEARLY n by (simp add: period_usec_def)
  next
    case FREQ_MONTHLY
    then have "12 * y + m = 12 * tm_year ts + tm_mon ts + int (nat ?n)" using d(3) n by (simp add: in_period_def)
    from month_distance [OF t(1-3) d(1) e(1,2) this] show thesis
      using that [of 32] FREQ_MONTHLY n day t(4) e(4) by (simp add: period_usec_def)
  next
    case FREQ_WEEKLY
    then show thesis using that [of 7] d(3) by (simp add: in_period_def period_usec_def)
  next
    case FREQ_DAILY
    then show thesis using that [of 1] d(3) by (simp add: in_period_def period_usec_def)
  qed (use r(1) in \<open>simp_all add: by_days_def\<close>)
  have "(date2j_core y m d + 1 - start_day ts) * USECS_PER_DAY \<le> ((?n + 1) * w) * USECS_PER_DAY"
    using w(2) by (intro mult_right_mono) (simp_all add: time_units)
  then show ?thesis unfolding w(1) by (simp add: mult.assoc)
qed

lemma unit_extent:
  assumes "\<not> by_days r" "in_unit r k l0 l"
  shows "l div period_usec r = l0 div period_usec r + k * interval r"
  using assms by (auto simp: in_unit_def period_usec_def by_days_def split: SchedFreq.splits)

lemma period_extent:
  assumes r: "1 \<le> interval r" and ts: "fields_ok ts" "fields_of (local_usec g start) ts" and k: "0 \<le> k"
    and t: "run_time r ts g start k t"
  shows "t \<le> start + (k * interval r + 1) * period_usec r"
proof -
  let ?s = "local_usec g start" and ?x = "local_usec g t" and ?n = "k * interval r" and ?u = "period_usec r"
  have "?x \<le> ?s + (?n + 1) * ?u"
  proof (cases "by_days r")
    case True
    obtain y m d tod where d: "1 \<le> y" "valid_date y m d" "in_period r ts k (y, m, d)" "valid_time tod" "t = stamp g (y, m, d) tod"
      using t unfolding run_time_def by blast
    have "?x < (date2j_core y m d - POSTGRES_EPOCH_JDATE + 1) * USECS_PER_DAY"
      unfolding d(5) by (rule stamp_day(2) [OF d(4)])
    moreover have "(start_day ts - POSTGRES_EPOCH_JDATE) * USECS_PER_DAY \<le> ?s"
      using ts(2) div_window(1) [OF USECS_PER_DAY_pos, of ?s] by (simp add: fields_of_def)
    ultimately show ?thesis
      using period_day_extent [OF True r ts(1) k d(1-3)] by (simp add: algebra_simps)
  next
    case False
    have e: "?x div ?u = ?s div ?u + ?n" using t False unit_extent unfolding run_time_def by blast
    have u: "0 < ?u" by (rule period_usec_pos)
    have "?x = (?s div ?u + ?n) * ?u + ?x mod ?u" using div_mult_mod_eq [of ?x ?u] e by simp
    moreover have "?x mod ?u < ?u" "?s div ?u * ?u \<le> ?s" using u div_window(1) [OF u] by simp_all
    ultimately show ?thesis by (simp add: algebra_simps)
  qed
  then show ?thesis by (simp add: local_usec_def)
qed

lemma periods_chronological:
  assumes r: "1 \<le> interval r" and k: "k < k'"
    and t: "run_time r ts g start k t" "run_time r ts g start k' t'"
  shows "t < t'"
proof -
  let ?n = "k * interval r" and ?n' = "k' * interval r"
  have n: "?n + 1 \<le> ?n'" by (rule interval_steps [OF r k])
  obtain y m d tod where d: "1 \<le> y" "valid_date y m d" "in_period r ts k (y, m, d)" "valid_time tod" "t = stamp g (y, m, d) tod"
    "in_unit r k (local_usec g start) (local_usec g t)" using t(1) unfolding run_time_def by blast
  obtain y' m' d' tod' where d': "1 \<le> y'" "valid_date y' m' d'" "in_period r ts k' (y', m', d')" "valid_time tod'"
    "t' = stamp g (y', m', d') tod'" "in_unit r k' (local_usec g start) (local_usec g t')" using t(2) unfolding run_time_def by blast
  have p: "proper_date y m d" "proper_date y' m' d'" using d d' by (auto simp: proper_date_def)
  show ?thesis
  proof (cases "by_days r")
    case True
    have "date2j_core y m d < date2j_core y' m' d'"
    proof (cases "freq r")
      case FREQ_MONTHLY
      then have "12 * y + m < 12 * y' + m'" using d(3) d'(3) n by (simp add: in_period_def)
      then have "y < y' \<or> y = y' \<and> m < m'" using d(2) d'(2) by (auto simp: valid_date_def)
      then show ?thesis using jday.to_day_mono [OF p] by blast
    qed (use True d(3) d'(3) n date2j_core_less_year [OF p] in \<open>simp_all add: in_period_def by_days_def\<close>)
    then show ?thesis unfolding d(5) d'(5) by (rule stamp_less_day [OF d(4) d'(4)])
  next
    case False
    have "local_usec g t div period_usec r < local_usec g t' div period_usec r"
      using unit_extent [OF False d(6)] unit_extent [OF False d'(6)] n by simp
    then have "local_usec g t < local_usec g t'"
      using zdiv_mono1 [OF _ period_usec_pos [of r], of "local_usec g t'" "local_usec g t"] by (meson leD leI)
    then show ?thesis by (simp add: local_usec_def)
  qed
qed

section \<open>The search\<close>

lemma search_fields:
  assumes "search_ok c"
  shows "fields_ok (q_tm c)"
proof -
  let ?l = "local_usec (q_zone c) (q_start c)" and ?tm = "q_tm c"
  have f: "fields_of ?l ?tm" and s: "plain_time (q_start c)" "- 86400 \<le> q_zone c" "q_zone c \<le> 86400"
    using assms by (auto simp: search_ok_def fixed_zone_def)
  have v: "1 \<le> tm_year ?tm" "valid_date (tm_year ?tm) (tm_mon ?tm) (tm_mday ?tm)" "start_day ?tm = ?l div USECS_PER_DAY + POSTGRES_EPOCH_JDATE"
    "valid_time (tm_hour ?tm, tm_min ?tm, tm_sec ?tm)"
    using f by (auto simp: fields_of_def)
  have "?l \<le> 9223370086400000000" using s by (simp add: local_usec_def plain_time_def time_units)
  then have "start_day ?tm < 109500000" unfolding v(3) by (auto simp: time_units POSTGRES_EPOCH_JDATE_def)
  moreover have "date2j_core 300000 1 1 > 109500000" by code_simp
  moreover have "proper_date (tm_year ?tm) (tm_mon ?tm) (tm_mday ?tm)" "proper_date 300000 1 1"
    using v by (simp_all add: proper_date_def valid_date_def month_len_def)
  ultimately have "tm_year ?tm < 300000"
    using jday.to_day_mono [of "tm_year ?tm" "tm_mon ?tm" "tm_mday ?tm" 300000 1 1] v(2)
    by (auto simp: start_day_def valid_date_def)
  with v show ?thesis by (simp add: fields_ok_def)
qed

lemma search_period_bound:
  assumes c: "search_ok c" and k: "0 \<le> k" "k < search_first c + 4000"
  shows "q_start c + k * interval (q_rule c) * period_usec (q_rule c) \<le> 9223370000000000000 + 396000 * period_usec (q_rule c)"
    and "0 \<le> k * interval (q_rule c) * period_usec (q_rule c)"
proof -
  let ?r = "q_rule c"
  have i: "1 \<le> interval ?r" "interval ?r \<le> 99" using c by (auto simp: search_ok_def search_rule_ok_def rule_ok_def entries_ok_def)
  have u: "0 < period_usec ?r" by (rule period_usec_pos)
  have m: "k * interval ?r \<le> search_first c * interval ?r + 396000"
  proof -
    have "k * interval ?r \<le> (search_first c + 4000) * interval ?r" using k i by (intro mult_right_mono) auto
    then show ?thesis using i by (simp add: algebra_simps)
  qed
  then have "k * interval ?r * period_usec ?r \<le> (search_first c * interval ?r + 396000) * period_usec ?r"
    using u by (intro mult_right_mono) auto
  also have "\<dots> \<le> max 0 (q_after c - q_start c) + 396000 * period_usec ?r"
    using skip_periods_bounds(1) [OF i(1), of "q_start c" "q_after c"] by (simp add: search_first_def algebra_simps)
  finally show "q_start c + k * interval ?r * period_usec ?r \<le> 9223370000000000000 + 396000 * period_usec ?r"
    using c by (auto simp: search_ok_def plain_time_def)
  show "0 \<le> k * interval ?r * period_usec ?r" using k i u by simp
qed

lemma search_enumerates:
  assumes c: "search_ok c" and k: "0 \<le> k" "k < search_first c + 4000"
  shows "enumerates (search_period c k) (q_start c) (q_after c) (search_runs c k)"
proof -
  let ?r = "q_rule c" and ?s = "q_start c"
  have r: "rule_ok ?r" "freq ?r = FREQ_WEEKLY \<Longrightarrow> bymonthday ?r = [] \<and> bydate ?r = []"
    "freq ?r \<noteq> FREQ_YEARLY \<Longrightarrow> freq ?r \<noteq> FREQ_MONTHLY \<Longrightarrow> \<forall>bd \<in> set (byday ?r). ord bd = 0"
    using c by (auto simp: search_ok_def search_rule_ok_def)
  have z: "fixed_zone (q_env c) (q_zone c)" and s: "- 63000000000000000 \<le> ?s" using c by (auto simp: search_ok_def plain_time_def)
  note ts = search_fields [OF c]
  note b = search_period_bound [OF c k]
  have days: "0 \<le> k * interval ?r" "k * interval ?r < 1000000000" if "USECS_PER_DAY \<le> period_usec ?r" "period_usec ?r \<le> 366 * USECS_PER_DAY"
  proof -
    have "0 < period_usec ?r" by (rule period_usec_pos)
    then show "0 \<le> k * interval ?r" using b(2) by (simp add: zero_le_mult_iff)
    then have "k * interval ?r * USECS_PER_DAY \<le> k * interval ?r * period_usec ?r" using that by (intro mult_left_mono)
    then have "k * interval ?r * USECS_PER_DAY \<le> 9286370000000000000 + 396000 * (366 * USECS_PER_DAY)"
      using b(1) s that(2) by linarith
    then show "k * interval ?r < 1000000000" by (simp add: time_units)
  qed
  show ?thesis
  proof (cases "freq ?r")
    case FREQ_YEARLY
    with enumerates_yearly [OF z r(1) FREQ_YEARLY ts] days show ?thesis
      by (simp add: search_defs eval_period_def period_usec_def time_units)
  next
    case FREQ_MONTHLY
    with enumerates_monthly [OF z r(1) FREQ_MONTHLY ts] days show ?thesis
      by (simp add: search_defs eval_period_def period_usec_def time_units)
  next
    case FREQ_WEEKLY
    then have "0 \<le> 7 * (k * interval ?r)" "7 * (k * interval ?r) < 1000000000"
      using b s by (simp_all add: period_usec_def time_units)
    with enumerates_weekly [OF z r(1) FREQ_WEEKLY] r(2,3) FREQ_WEEKLY ts show ?thesis
      by (simp add: search_defs eval_period_def)
  next
    case FREQ_DAILY
    with enumerates_daily [OF z r(1) FREQ_DAILY _ ts] days r(3) show ?thesis
      by (simp add: search_defs eval_period_def period_usec_def time_units)
  qed (use enumerates_timed [OF z r(1) _ _ ts] r(3) b s in \<open>simp_all add: search_defs eval_period_def period_usec_def by_days_def time_units\<close>)
qed

lemma enumerates_least:
  assumes "enumerates p start after runs"
  shows "\<exists>res. p = Inr res \<and> (case res of None \<Rightarrow> \<forall>t \<in> runs. \<not> late start after t
    | Some t \<Rightarrow> t \<in> runs \<and> late start after t \<and> (\<forall>t' \<in> runs. late start after t' \<longrightarrow> t \<le> t'))"
  using assms find_least unfolding enumerates_def by blast

interpretation cal: period_search search_ok search_period search_runs search_late search_first "\<lambda>c. search_first c + 4000"
proof
  fix c :: run_search and k k' t t' :: int
  show "0 \<le> search_first c" by (simp add: search_first_def skip_periods_nonneg)
  assume c: "search_ok c"
  have i: "1 \<le> interval (q_rule c)" using c by (auto simp: search_ok_def search_rule_ok_def rule_ok_def entries_ok_def)
  assume k: "0 \<le> k"
  show "\<exists>res. search_period c k = Inr res \<and> (case res of None \<Rightarrow> \<forall>t \<in> search_runs c k. \<not> search_late c t
      | Some t \<Rightarrow> t \<in> search_runs c k \<and> search_late c t \<and> (\<forall>t' \<in> search_runs c k. search_late c t' \<longrightarrow> t \<le> t'))"
    if "k < search_first c + 4000"
    unfolding search_late_def by (rule enumerates_least [OF search_enumerates [OF c k that]])
  show "t < t'" if "k < k'" "t \<in> search_runs c k" "t' \<in> search_runs c k'"
    using periods_chronological [OF i that(1)] that(2,3) by (auto simp: search_runs_def)
  show "\<not> search_late c t" if sk: "k < search_first c" and t: "t \<in> search_runs c k"
  proof -
    let ?u = "period_usec (q_rule c)" and ?n = "k * interval (q_rule c)"
    have "?n + 1 \<le> (k + 3) * interval (q_rule c)" using i by (simp add: algebra_simps)
    then have "(?n + 1) * ?u \<le> (k + 3) * interval (q_rule c) * ?u"
      by (rule mult_right_mono) (rule less_imp_le [OF period_usec_pos])
    also have "\<dots> \<le> q_after c - q_start c" using skip_periods_bounds(2) [OF i k] sk by (simp add: search_first_def)
    finally have "t \<le> q_after c"
      using period_extent [OF i search_fields [OF c] _ k, of "q_zone c" "q_start c" t] c t
      by (simp add: search_ok_def search_runs_def)
    then show ?thesis by (simp add: search_late_def late_def)
  qed
qed

lemma next_run_core:
  assumes p: "parse_calendar env cal = Inr r" and w: "freq r = FREQ_WEEKLY \<longrightarrow> bymonthday r = [] \<and> bydate r = []"
    and z: "fixed_zone env g" and s: "plain_time start" "after \<le> 9223370000000000000"
    and ts: "timestamp2tm env True start = Some (ts, f, z)"
  shows "\<exists>res. sched_calendar_next env cal start after = Inr res \<and> (case res of
      None \<Rightarrow> \<forall>k t. 0 \<le> k \<longrightarrow> k < skip_periods r start after + int SCHED_MAX_PERIODS \<longrightarrow>
        run_time r ts g start k t \<longrightarrow> \<not> late start after t
    | Some t \<Rightarrow> late start after t
        \<and> (\<exists>k. 0 \<le> k \<and> k < skip_periods r start after + int SCHED_MAX_PERIODS \<and> run_time r ts g start k t)
        \<and> (\<forall>k \<ge> 0. \<forall>t'. run_time r ts g start k t' \<longrightarrow> late start after t' \<longrightarrow> t \<le> t'))"
    and "rule_ok r" "fields_of (local_usec g start) ts" "fields_ok ts"
proof -
  define c where "c = \<lparr>q_env = env, q_rule = r, q_zone = g, q_tm = ts, q_start = start, q_after = after\<rparr>"
  show fs: "fields_of (local_usec g start) ts"
    using zone_fields [OF z, of start] s ts by (auto simp: plain_time_def)
  show "rule_ok r" using parse_calendar_rule_ok [OF p] by simp
  have ok: "search_ok c"
    using w z s fs parse_calendar_rule_ok [OF p] by (simp add: search_ok_def search_rule_ok_def c_def)
  show "fields_ok ts" using search_fields [OF ok] by (simp add: c_def)
  obtain res where "eval_periods (search_period c) SCHED_MAX_PERIODS (search_first c) = Inr res"
    "case res of None \<Rightarrow> \<forall>k t. 0 \<le> k \<longrightarrow> k < search_first c + int SCHED_MAX_PERIODS \<longrightarrow> t \<in> search_runs c k \<longrightarrow> \<not> search_late c t
    | Some t \<Rightarrow> search_late c t \<and> (\<exists>k. 0 \<le> k \<and> k < search_first c + int SCHED_MAX_PERIODS \<and> t \<in> search_runs c k)
      \<and> (\<forall>k \<ge> 0. \<forall>t' \<in> search_runs c k. search_late c t' \<longrightarrow> t \<le> t')"
    using cal.search_least [OF ok, of SCHED_MAX_PERIODS] by (auto simp: SCHED_MAX_PERIODS_def)
  then show "\<exists>res. sched_calendar_next env cal start after = Inr res \<and> (case res of
      None \<Rightarrow> \<forall>k t. 0 \<le> k \<longrightarrow> k < skip_periods r start after + int SCHED_MAX_PERIODS \<longrightarrow>
        run_time r ts g start k t \<longrightarrow> \<not> late start after t
    | Some t \<Rightarrow> late start after t
        \<and> (\<exists>k. 0 \<le> k \<and> k < skip_periods r start after + int SCHED_MAX_PERIODS \<and> run_time r ts g start k t)
        \<and> (\<forall>k \<ge> 0. \<forall>t'. run_time r ts g start k t' \<longrightarrow> late start after t' \<longrightarrow> t \<le> t'))"
    using p ts by (intro exI [of _ res]) (cases res; simp add: sched_calendar_next_def eval_calendar_def c_def search_defs)
qed

section \<open>Daily rules\<close>





lemma utc_fixed_zone: "fixed_zone utc_session 0"
  by (simp add: fixed_zone_def utc_session_def utc_localtime_def Let_def split: prod.splits)

section \<open>Properties\<close>

text \<open>
  C1 (next run): in a time zone with a fixed offset and for start dates between the years 3 and 294276 the
  evaluation of a calendar string raises no error. If it returns a time, that time is a
  run time of the rule after the given one and not before the start date, and no run
  time in between is missed. If it returns nothing, the periods the search went through
  have no such run time. Weekly rules must not have BYMONTHDAY or BYDATE.
\<close>

theorem next_run_correct:
  assumes "parse_calendar env cal = Inr r" "freq r = FREQ_WEEKLY \<longrightarrow> bymonthday r = [] \<and> bydate r = []"
    and "fixed_zone env g" "plain_time start" "after \<le> 9223370000000000000"
    and "timestamp2tm env True start = Some (ts, f, z)"
  shows "\<exists>res. sched_calendar_next env cal start after = Inr res \<and> (case res of
      None \<Rightarrow> \<forall>k t. 0 \<le> k \<longrightarrow> k < skip_periods r start after + int SCHED_MAX_PERIODS \<longrightarrow>
        run_time r ts g start k t \<longrightarrow> \<not> late start after t
    | Some t \<Rightarrow> late start after t
        \<and> (\<exists>k. 0 \<le> k \<and> k < skip_periods r start after + int SCHED_MAX_PERIODS \<and> run_time r ts g start k t)
        \<and> (\<forall>k \<ge> 0. \<forall>t'. run_time r ts g start k t' \<longrightarrow> late start after t' \<longrightarrow> t \<le> t'))"
  using assms by (rule next_run_core)

theorem next_run_correct_witness:
  "\<exists>r ts. parse_calendar utc_session (Some ''FREQ=DAILY;INTERVAL=2;BYHOUR=6,18'') = Inr r
    \<and> sched_calendar_next utc_session (Some ''FREQ=DAILY;INTERVAL=2;BYHOUR=6,18'') 0 70000000000 = Inr (Some 194400000000)
    \<and> (\<forall>k \<ge> 0. \<forall>t. run_time r ts 0 0 k t \<longrightarrow> late 0 70000000000 t \<longrightarrow> 194400000000 \<le> t)"
proof -
  let ?cal = "Some ''FREQ=DAILY;INTERVAL=2;BYHOUR=6,18''"
  define r where "r = empty_rule\<lparr>freq := FREQ_DAILY, interval := 2, byhour := (replicate 24 False)[6 := True, 18 := True], has_byhour := True\<rparr>"
  define ts where "ts = \<lparr>tm_sec = 0, tm_min = 0, tm_hour = 0, tm_mday = 1, tm_mon = 1, tm_year = 2000, tm_isdst = 0, tm_gmtoff = 0\<rparr>"
  have p: "parse_calendar utc_session ?cal = Inr r" unfolding r_def by code_simp
  have t: "timestamp2tm utc_session True 0 = Some (ts, 0, 0)" unfolding ts_def by code_simp
  have e: "sched_calendar_next utc_session ?cal 0 70000000000 = Inr (Some 194400000000)" by code_simp
  have "freq r = FREQ_DAILY" by (simp add: r_def)
  with next_run_correct [OF p _ utc_fixed_zone _ _ t, of 70000000000] e p show ?thesis
    by (intro exI [of _ r] exI [of _ ts]) (simp add: plain_time_def)
qed



text \<open>
  C36 (weekly rules): the weekly branch ignores BYMONTHDAY and BYDATE: changing them does not
  change the result, although a run time should satisfy every clause given.
\<close>

theorem weekly_ignores_dates:
  assumes "freq r = FREQ_WEEKLY"
  shows "eval_calendar env (r\<lparr>bymonthday := ds, bydate := bs\<rparr>) start after = eval_calendar env r start after"
proof -
  let ?r = "r\<lparr>bymonthday := ds, bydate := bs\<rparr>"
  have "scan_times_on_date env ?r = scan_times_on_date env r"
    by (intro ext) (simp add: scan_times_on_date_def times_of_day_def)
  moreover have "byday ?r = byday r" "has_bymonth ?r = has_bymonth r" "bymonth ?r = bymonth r" "interval ?r = interval r" "freq ?r = freq r"
    by simp_all
  ultimately have "eval_weekly env ?r ts start after k = eval_weekly env r ts start after k" for ts k
    unfolding eval_weekly_def by (simp only:)
  then have "eval_period env ?r ts start after = eval_period env r ts start after" for ts
    using assms by (intro ext) (simp add: eval_period_def)
  moreover have "skip_periods ?r start after = skip_periods r start after" using assms by (simp add: skip_periods_def)
  ultimately show ?thesis by (simp only: eval_calendar_def)
qed

theorem weekly_ignores_dates_witness:
  "\<exists>r. parse_calendar utc_session (Some ''FREQ=WEEKLY;BYMONTHDAY=13'') = Inr r \<and> eval_calendar utc_session r 0 0 = Inr (Some 604800000000)"
proof -
  let ?w = "empty_rule\<lparr>freq := FREQ_WEEKLY\<rparr>"
  have "parse_calendar utc_session (Some ''FREQ=WEEKLY;BYMONTHDAY=13'') = Inr (?w\<lparr>bymonthday := [13], bydate := []\<rparr>)" by code_simp
  moreover have "eval_calendar utc_session ?w 0 0 = Inr (Some 604800000000)" by code_simp
  moreover have "eval_calendar utc_session (?w\<lparr>bymonthday := [13], bydate := []\<rparr>) 0 0 = eval_calendar utc_session ?w 0 0"
    by (rule weekly_ignores_dates) simp
  ultimately show ?thesis by (metis (lifting))
qed

text \<open>
  C37 (search window): the search gives up after 4000 periods. A rule for every minute of February, started
  on the first of January, is reported to have no next run, although 31 days later there is one.
\<close>

theorem window_misses_run:
  "\<exists>r ts. parse_calendar utc_session (Some ''FREQ=MINUTELY;BYMONTH=FEB'') = Inr r
    \<and> timestamp2tm utc_session True 0 = Some (ts, 0, 0)
    \<and> sched_calendar_next utc_session (Some ''FREQ=MINUTELY;BYMONTH=FEB'') 0 0 = Inr None
    \<and> run_time r ts 0 0 44640 (31 * USECS_PER_DAY) \<and> late 0 0 (31 * USECS_PER_DAY)"
proof -
  define r where "r = empty_rule\<lparr>freq := FREQ_MINUTELY, bymonth := (replicate 13 False)[2 := True], has_bymonth := True\<rparr>"
  define ts where "ts = \<lparr>tm_sec = 0, tm_min = 0, tm_hour = 0, tm_mday = 1, tm_mon = 1, tm_year = 2000, tm_isdst = 0, tm_gmtoff = 0\<rparr>"
  have p: "parse_calendar utc_session (Some ''FREQ=MINUTELY;BYMONTH=FEB'') = Inr r" unfolding r_def by code_simp
  have t: "timestamp2tm utc_session True 0 = Some (ts, 0, 0)" unfolding ts_def by code_simp
  have none: "\<not> run_time r ts 0 0 k x" if k: "0 \<le> k" "k < 4000" for k x
  proof
    assume "run_time r ts 0 0 k x"
    then obtain y m d tod where d: "1 \<le> y" "valid_date y m d" "valid_time tod" "x = stamp 0 (y, m, d) tod"
      "x div USECS_PER_MINUTE = k" "bymonth r ! nat m"
      unfolding run_time_def by (auto simp: in_unit_def local_usec_def date_fits_def r_def empty_rule_def)
    define e where "e = date2j_core y m d - POSTGRES_EPOCH_JDATE"
    have x: "0 \<le> x" "x < 240000000000"
      using d(5) k div_window [of USECS_PER_MINUTE x] by (auto simp: time_units)
    have "e * USECS_PER_DAY \<le> x" "x < (e + 1) * USECS_PER_DAY"
      using stamp_day(1) [OF d(3), of y m d 0] stamp_day(2) [OF d(3), of 0 y m d] by (simp_all add: d(4) e_def local_usec_def)
    with x have e: "0 \<le> e" "e \<le> 2" by (simp_all add: time_units)
    then have "1721426 \<le> date2j_core y m d" "date2j_core y m d \<le> INT_MAX"
      by (simp_all add: e_def POSTGRES_EPOCH_JDATE_def INT_MAX_def)
    then have j: "j2date (date2j_core y m d) = (y, m, d)" using number_of_day [OF _ _ d(1,2)] by blast
    have v: "j2date 2451545 = (2000, 1, 1)" "j2date 2451546 = (2000, 1, 2)" "j2date 2451547 = (2000, 1, 3)" by code_simp+
    consider "date2j_core y m d = 2451545" | "date2j_core y m d = 2451546" | "date2j_core y m d = 2451547"
      using e unfolding e_def POSTGRES_EPOCH_JDATE_def by linarith
    then have "m = 1" using j v by cases simp_all
    with d(6) show False by (simp add: r_def)
  qed
  have pre: "freq r = FREQ_WEEKLY \<longrightarrow> bymonthday r = [] \<and> bydate r = []" "plain_time 0" "(0 :: int) \<le> 9223370000000000000"
    and sk: "skip_periods r 0 0 = 0" by (simp_all add: r_def plain_time_def skip_periods_def)
  obtain res where res: "sched_calendar_next utc_session (Some ''FREQ=MINUTELY;BYMONTH=FEB'') 0 0 = Inr res"
    "res = Some x \<Longrightarrow> \<exists>k. 0 \<le> k \<and> k < 4000 \<and> run_time r ts 0 0 k x" for x
    using next_run_core(1) [OF p pre(1) utc_fixed_zone pre(2,3) t] unfolding sk SCHED_MAX_PERIODS_def
    by (fastforce split: option.splits)
  have "res = None"
  proof (cases res)
    case (Some x)
    then show ?thesis using res(2) [OF Some] none by blast
  qed
  moreover have "run_time r ts 0 0 44640 (31 * USECS_PER_DAY)"
  proof -
    have "date2j_core 2000 2 1 = 2451576" by code_simp
    then show ?thesis unfolding run_time_def
      by (intro exI [of _ 2000] exI [of _ 2] exI [of _ 1] exI [of _ "(0, 0, 0)"])
        (simp add: r_def empty_rule_def ts_def valid_date_def month_len_def valid_time_def stamp_def time2t_def time_units
          POSTGRES_EPOCH_JDATE_def IS_VALID_TIMESTAMP_def MIN_TIMESTAMP_def END_TIMESTAMP_def in_period_def date_fits_def
          clauses_hold_def time_fits_def in_unit_def local_usec_def)
  qed
  ultimately show ?thesis using p t res(1) by (auto simp: late_def time_units)
qed

end
