(* ===== verification/Edit_Distance.thy ===== *)
theory Edit_Distance
  imports Ora_Prelude
begin

text \<open>
  The edit distance as a specification: the least number of insertions, deletions and substitutions
  of single elements that turn one list into another, and the recursion \<open>lev\<close> that computes it. The
  table algorithm of UTL\_MATCH is compared with it in theory Utl\_Match.
\<close>

inductive edit :: "'a list \<Rightarrow> 'a list \<Rightarrow> bool" where
  edit_insert: "edit (a @ b) (a @ x # b)"
| edit_delete: "edit (a @ x # b) (a @ b)"
| edit_replace: "edit (a @ x # b) (a @ y # b)"

definition edits :: "'a list \<Rightarrow> 'a list \<Rightarrow> nat" where
  "edits xs ys = (LEAST n. (edit ^^ n) xs ys)"

fun lev :: "'a list \<Rightarrow> 'a list \<Rightarrow> nat" where
  "lev [] ys = length ys"
| "lev (x # xs) [] = Suc (length xs)"
| "lev (x # xs) (y # ys) =
     min (min (lev xs (y # ys) + 1) (lev (x # xs) ys + 1)) (lev xs ys + (if x = y then 0 else 1))"

lemma lev_Nil2 [simp]: "lev xs [] = length xs"
  by (cases xs) simp_all

lemma lev_Cons_le: "lev (x # xs) ys \<le> lev xs ys + 1" "lev xs (y # ys) \<le> lev xs ys + 1"
  by (cases ys; simp) (cases xs; simp)

lemma lev_le_Cons: "lev xs ys \<le> lev (x # xs) ys + 1"
proof (induction ys)
  case (Cons y ys)
  then show ?case using lev_Cons_le(2) [of xs y ys] by simp
qed simp

lemma lev_replace: "lev (x # xs) ys \<le> lev (z # xs) ys + 1"
proof (induction ys)
  case (Cons y ys)
  then show ?case using lev_Cons_le(1) [of x xs "y # ys"] by (auto simp: min_def)
qed simp

lemma lev_context:
  assumes "\<And>ys. lev b ys \<le> lev c ys + 1"
  shows "lev (a @ b) ys \<le> lev (a @ c) ys + 1"
proof (induction a arbitrary: ys)
  case (Cons x a)
  show ?case
  proof (induction ys)
    case Nil
    then show ?case using Cons [of "[]"] by simp
  next
    case (Cons y ys)
    then show ?case using Cons.IH \<open>\<And>ys. lev (a @ b) ys \<le> lev (a @ c) ys + 1\<close> [of ys]
        \<open>\<And>ys. lev (a @ b) ys \<le> lev (a @ c) ys + 1\<close> [of "y # ys"] by simp
  qed
qed (use assms in simp)

lemma lev_edit: "edit xs zs \<Longrightarrow> lev xs ys \<le> lev zs ys + 1"
  by (induction rule: edit.induct) (rule lev_context, rule lev_le_Cons lev_Cons_le lev_replace)+

lemma lev_same [simp]: "lev xs xs = 0"
  by (induction xs) simp_all

lemma lev_least: "(edit ^^ n) xs ys \<Longrightarrow> lev xs ys \<le> n"
proof (induction n arbitrary: xs)
  case (Suc n)
  then obtain zs where "edit xs zs" "(edit ^^ n) zs ys" using relpowp_Suc_D2 by metis
  then show ?case using lev_edit [of xs zs ys] Suc.IH [of zs] by simp
qed simp

lemma edit_Cons: "edit xs ys \<Longrightarrow> edit (x # xs) (x # ys)"
  by (induction rule: edit.induct) (metis append_Cons edit.intros)+

lemma edit_rev: "edit xs ys \<Longrightarrow> edit (rev xs) (rev ys)"
  by (induction rule: edit.induct) (simp_all add: edit.intros)

lemma edits_map:
  assumes "\<And>xs ys. edit xs ys \<Longrightarrow> edit (f xs) (f ys)" "(edit ^^ n) xs ys"
  shows "(edit ^^ n) (f xs) (f ys)"
  using assms(2)
proof (induction n arbitrary: ys)
  case (Suc n)
  then obtain zs where "(edit ^^ n) xs zs" "edit zs ys" by auto
  then show ?case using Suc.IH assms(1) by auto
qed simp

lemma edit_head: "edit xs (x # xs)" "edit (x # xs) xs" "edit (x # xs) (y # xs)"
  using edit_insert [of "[]"] edit_delete [of "[]"] edit_replace [of "[]"] by simp_all

lemma edits_lev: "(edit ^^ lev xs ys) xs ys"
proof (induction xs ys rule: lev.induct)
  case (1 ys)
  show ?case by (induction ys) (auto intro: edit_head)
next
  case (2 x xs)
  have "(edit ^^ length xs) xs []" for xs :: "'a list"
  proof (induction xs)
    case (Cons x xs)
    show ?case unfolding length_Cons by (rule relpowp_Suc_I2 [OF edit_head(2) Cons.IH])
  qed simp
  from this [of "x # xs"] show ?case by simp
next
  case (3 x xs y ys)
  note 3 = 3(1) relpowp_Suc_I2 [OF edit_head(2) 3(1)] relpowp_Suc_I [OF 3(2) edit_head(1)]
    edits_map [OF edit_Cons 3(3)]
  have "(edit ^^ Suc (lev xs ys)) (x # xs) (y # ys)" by (rule relpowp_Suc_I2 [OF edit_head(3) 3(4)])
  with 3 show ?case by (auto simp: min_def split: if_splits)
qed

lemma edits_eq_lev: "edits xs ys = lev xs ys"
  unfolding edits_def by (rule Least_equality) (rule edits_lev, rule lev_least)

lemma lev_rev: "lev (rev xs) (rev ys) = lev xs ys"
  using lev_least [OF edits_map [of rev, OF edit_rev edits_lev], of xs ys]
    lev_least [OF edits_map [of rev, OF edit_rev edits_lev], of "rev xs" "rev ys"] by simp

lemma lev_commute: "lev xs ys = lev ys xs"
  by (induction xs ys rule: lev.induct) (auto simp: min.commute min.left_commute)

lemma lev_max: "lev xs ys \<le> max (length xs) (length ys)"
  by (induction xs ys rule: lev.induct) (auto simp: min_def max_def)

lemma lev_0_iff: "lev xs ys = 0 \<longleftrightarrow> xs = ys"
  by (induction xs ys rule: lev.induct) (auto simp: min_def split: if_splits)

end
