(* ===== verification/Utl_Match.thy ===== *)
theory Utl_Match
  imports Edit_Distance Complex_Main "HOL-Library.Multiset"
begin

text \<open>
  The package UTL\_MATCH
  (src/contrib/ivorysql\_ora/src/builtin\_packages/utl\_match/utl\_match.c): the edit distance by a
  table of two rows and the Jaro-Winkler similarity, on byte strings, with the treatment of NULL.

  Arrays are lists with indexed updates; \<open>mem\<close> gives the contents of a fresh allocation.
  \<open>palloc\<close> raises for sizes above 1 GB. A read behind the end of the match array is
  \<open>MatchOutOfBounds\<close>. \<open>double\<close> values are rationals; \<open>rnd\<close> is the rounding the hardware applies to the
  exact result of each operation. The checks for interrupts do not change the state.
\<close>

datatype utl_match_error = MatchAllocSize | MatchOutOfBounds

definition match_palloc :: "nat \<Rightarrow> (utl_match_error, unit) res" where
  "match_palloc n = (if n \<le> 0x3fffffff then Inr () else Inl MatchAllocSize)"

section \<open>Code\<close>

definition round_to_int :: "(rat \<Rightarrow> rat) \<Rightarrow> rat \<Rightarrow> int" where
  "round_to_int rnd v = \<lfloor>rnd (v + 1 / 2)\<rfloor>"

text \<open>The inner loop fills the row \<open>cur\<close> (\<open>curr\<close> in the code), the outer loop swaps the rows.\<close>

function ed_cols :: "bytes \<Rightarrow> bytes \<Rightarrow> nat \<Rightarrow> int list \<Rightarrow> int list \<Rightarrow> nat \<Rightarrow> int list" where
  "ed_cols s1 s2 i prev cur j =
     (if j \<le> length s2 then
        (let cost = (if s1 ! (i - 1) = s2 ! (j - 1) then 0 else 1);
             del = prev ! j + 1;
             ins = cur ! (j - 1) + 1;
             sub = prev ! (j - 1) + cost;
             cur = cur[j := min del ins];
             cur = cur[j := min (cur ! j) sub]
         in ed_cols s1 s2 i prev cur (j + 1))
      else cur)"
  by pat_completeness auto
termination
  by (relation "measure (\<lambda>(s1, s2, i, prev, cur, j). Suc (length s2) - j)") auto

function ed_rows :: "bytes \<Rightarrow> bytes \<Rightarrow> int list \<Rightarrow> int list \<Rightarrow> nat \<Rightarrow> int list" where
  "ed_rows s1 s2 prev cur i =
     (if i \<le> length s1 then
        (let cur = ed_cols s1 s2 i prev (cur[0 := int i]) 1
         in ed_rows s1 s2 cur prev (i + 1))
      else prev)"
  by pat_completeness auto
termination
  by (relation "measure (\<lambda>(s1, s2, prev, cur, i). Suc (length s1) - i)") auto

definition edit_distance :: "(nat \<Rightarrow> int) \<Rightarrow> bytes \<Rightarrow> bytes \<Rightarrow> (utl_match_error, int) res" where
  "edit_distance mem s1 s2 =
     (if length s1 = 0 then Inr (int (length s2))
      else if length s2 = 0 then Inr (int (length s1))
      else if length s1 = length s2 \<and> s1 = s2 then Inr 0
      else
        (let (s1, s2) = (if length s1 < length s2 then (s2, s1) else (s1, s2));
             n2 = length s2
         in bindR (match_palloc ((n2 + 1) * 4)) (\<lambda>_.
            bindR (match_palloc ((n2 + 1) * 4)) (\<lambda>_.
            let prev = map int [0..<n2 + 1];
                cur = map mem [0..<n2 + 1]
            in Inr (ed_rows s1 s2 prev cur 1 ! n2)))))"

definition edit_distance_similarity :: "(rat \<Rightarrow> rat) \<Rightarrow> (nat \<Rightarrow> int) \<Rightarrow> bytes \<Rightarrow> bytes \<Rightarrow> (utl_match_error, int) res" where
  "edit_distance_similarity rnd mem s1 s2 =
     bindR (edit_distance mem s1 s2) (\<lambda>ed.
       let max = (if length s1 > length s2 then length s1 else length s2)
       in if max = 0 then Inr 100
          else (let sim = rnd (rnd (1 - rnd (of_int ed / of_nat max)) * 100);
                    sim = (if sim < 0 then 0 else sim)
                in Inr (round_to_int rnd sim)))"

text \<open>The search for an unused equal byte in the window, and the loop over the first string.\<close>

function jaro_find :: "byte \<Rightarrow> bytes \<Rightarrow> bool list \<Rightarrow> nat \<Rightarrow> nat \<Rightarrow> nat option" where
  "jaro_find c s2 s2match j hi =
     (if j < hi then if \<not> s2match ! j \<and> c = s2 ! j then Some j else jaro_find c s2 s2match (j + 1) hi
      else None)"
  by pat_completeness auto
termination
  by (relation "measure (\<lambda>(c, s2, s2match, j, hi). hi - j)") auto

function jaro_matches ::
  "bytes \<Rightarrow> bytes \<Rightarrow> nat \<Rightarrow> nat \<Rightarrow> bool list \<Rightarrow> bool list \<Rightarrow> nat \<Rightarrow> bool list \<times> bool list \<times> nat" where
  "jaro_matches s1 s2 window i s1match s2match m =
     (if i < length s1 then
        (let lo = (if i > window then i - window else 0);
             hi = i + window + 1;
             hi = (if hi > length s2 then length s2 else hi)
         in case jaro_find (s1 ! i) s2 s2match lo hi of
              Some j \<Rightarrow> jaro_matches s1 s2 window (i + 1) (s1match[i := True]) (s2match[j := True]) (m + 1)
            | None \<Rightarrow> jaro_matches s1 s2 window (i + 1) s1match s2match m)
      else (s1match, s2match, m))"
  by pat_completeness auto
termination
  by (relation "measure (\<lambda>(s1, s2, window, i, s1match, s2match, m). length s1 - i)") auto

text \<open>\<open>while (!s2match[j]) j++\<close> has no bound of its own.\<close>

function jaro_skip :: "bool list \<Rightarrow> nat \<Rightarrow> (utl_match_error, nat) res" where
  "jaro_skip s2match j =
     (if j \<ge> length s2match then Inl MatchOutOfBounds
      else if \<not> s2match ! j then jaro_skip s2match (j + 1) else Inr j)"
  by pat_completeness auto
termination
  by (relation "measure (\<lambda>(s2match, j). length s2match - j)") auto

function jaro_transpositions ::
  "bytes \<Rightarrow> bytes \<Rightarrow> bool list \<Rightarrow> bool list \<Rightarrow> nat \<Rightarrow> nat \<Rightarrow> nat \<Rightarrow> (utl_match_error, nat) res" where
  "jaro_transpositions s1 s2 s1match s2match i j t =
     (if i < length s1 then
        if s1match ! i then
          bindR (jaro_skip s2match j) (\<lambda>j.
            jaro_transpositions s1 s2 s1match s2match (i + 1) (j + 1) (if s1 ! i \<noteq> s2 ! j then t + 1 else t))
        else jaro_transpositions s1 s2 s1match s2match (i + 1) j t
      else Inr t)"
  by pat_completeness auto
termination
  by (relation "measure (\<lambda>(s1, s2, s1match, s2match, i, j, t). length s1 - i)") auto

definition jaro :: "(rat \<Rightarrow> rat) \<Rightarrow> bytes \<Rightarrow> bytes \<Rightarrow> (utl_match_error, rat) res" where
  "jaro rnd s1 s2 =
     (let n1 = length s1; n2 = length s2
      in if n1 = 0 \<or> n2 = 0 then Inr 0
         else if n1 = n2 \<and> s1 = s2 then Inr 1
         else
           (let window = (if n1 > n2 then n1 else n2) div 2;
                window = (if window > 0 then window - 1 else window)
            in bindR (match_palloc (n1 * 4)) (\<lambda>_.
               bindR (match_palloc (n2 * 4)) (\<lambda>_.
               let (s1match, s2match, m) =
                     jaro_matches s1 s2 window 0 (replicate n1 False) (replicate n2 False) 0
               in bindR (jaro_transpositions s1 s2 s1match s2match 0 0 0) (\<lambda>t.
                  if m = 0 then Inr 0
                  else Inr (rnd (rnd (rnd (rnd (of_nat m / of_nat n1) + rnd (of_nat m / of_nat n2))
                         + rnd (of_int (int m - int t div 2) / of_nat m)) / 3)))))))"

function common_prefix :: "bytes \<Rightarrow> bytes \<Rightarrow> nat \<Rightarrow> nat \<Rightarrow> nat" where
  "common_prefix s1 s2 n p =
     (if p < n \<and> p < 4 \<and> s1 ! p = s2 ! p then common_prefix s1 s2 n (p + 1) else p)"
  by pat_completeness auto
termination
  by (relation "measure (\<lambda>(s1, s2, n, p). 4 - p)") auto

definition jaro_winkler :: "(rat \<Rightarrow> rat) \<Rightarrow> bytes \<Rightarrow> bytes \<Rightarrow> (utl_match_error, rat) res" where
  "jaro_winkler rnd s1 s2 =
     bindR (jaro rnd s1 s2) (\<lambda>j.
       let max = (if length s1 < length s2 then length s1 else length s2);
           p = common_prefix s1 s2 max 0
       in Inr (rnd (j + rnd (rnd (of_nat p * rnd (1 / 10)) * rnd (1 - j)))))"

text \<open>The SQL functions; NULL is \<open>None\<close>.\<close>

definition ora_utl_match_edit_distance :: "(nat \<Rightarrow> int) \<Rightarrow> bytes option \<Rightarrow> bytes option \<Rightarrow> (utl_match_error, int) res" where
  "ora_utl_match_edit_distance mem a b =
     (case (a, b) of (Some t1, Some t2) \<Rightarrow> edit_distance mem t1 t2 | _ \<Rightarrow> Inr (- 1))"

definition ora_utl_match_edit_distance_similarity ::
  "(rat \<Rightarrow> rat) \<Rightarrow> (nat \<Rightarrow> int) \<Rightarrow> bytes option \<Rightarrow> bytes option \<Rightarrow> (utl_match_error, int) res" where
  "ora_utl_match_edit_distance_similarity rnd mem a b =
     (case (a, b) of
        (None, None) \<Rightarrow> Inr 100
      | (Some t1, Some t2) \<Rightarrow> edit_distance_similarity rnd mem t1 t2
      | _ \<Rightarrow> Inr 0)"

definition ora_utl_match_jaro_winkler :: "(rat \<Rightarrow> rat) \<Rightarrow> bytes option \<Rightarrow> bytes option \<Rightarrow> (utl_match_error, rat) res" where
  "ora_utl_match_jaro_winkler rnd a b =
     (case (a, b) of (Some t1, Some t2) \<Rightarrow> jaro_winkler rnd t1 t2 | _ \<Rightarrow> Inr 0)"

definition ora_utl_match_jaro_winkler_similarity ::
  "(rat \<Rightarrow> rat) \<Rightarrow> bytes option \<Rightarrow> bytes option \<Rightarrow> (utl_match_error, int) res" where
  "ora_utl_match_jaro_winkler_similarity rnd a b =
     (case (a, b) of
        (Some t1, Some t2) \<Rightarrow> bindR (jaro_winkler rnd t1 t2) (\<lambda>jw. Inr (round_to_int rnd (rnd (jw * 100))))
      | _ \<Rightarrow> Inr 0)"

declare ed_cols.simps [simp del] ed_rows.simps [simp del] jaro_find.simps [simp del] jaro_matches.simps [simp del]
  jaro_skip.simps [simp del] jaro_transpositions.simps [simp del] common_prefix.simps [simp del]

section \<open>The two rows of the table\<close>

definition ed_cell :: "bytes \<Rightarrow> bytes \<Rightarrow> nat \<Rightarrow> nat \<Rightarrow> int" where
  "ed_cell s1 s2 i j = int (lev (rev (take i s1)) (rev (take j s2)))"

lemma ed_cell_border: "j \<le> length s2 \<Longrightarrow> ed_cell s1 s2 0 j = int j" "i \<le> length s1 \<Longrightarrow> ed_cell s1 s2 i 0 = int i"
  by (simp_all add: ed_cell_def)

lemma ed_cell_step:
  assumes "i < length s1" "j < length s2"
  shows "ed_cell s1 s2 (Suc i) (Suc j) =
    min (min (ed_cell s1 s2 i (Suc j) + 1) (ed_cell s1 s2 (Suc i) j + 1))
      (ed_cell s1 s2 i j + (if s1 ! i = s2 ! j then 0 else 1))"
  using assms by (auto simp: ed_cell_def take_Suc_conv_app_nth min_def)

lemma ed_cols_row:
  assumes "0 < i" "i \<le> length s1" "0 < j" "j \<le> Suc (length s2)" "length cur = Suc (length s2)"
    and "\<forall>k \<le> length s2. prev ! k = ed_cell s1 s2 (i - 1) k" "\<forall>k < j. cur ! k = ed_cell s1 s2 i k"
  shows "length (ed_cols s1 s2 i prev cur j) = Suc (length s2)
    \<and> (\<forall>k \<le> length s2. ed_cols s1 s2 i prev cur j ! k = ed_cell s1 s2 i k)"
  using assms(3-5,7)
proof (induction "Suc (length s2) - j" arbitrary: cur j)
  case (Suc n)
  define x where "x = min (min (prev ! j + 1) (cur ! (j - 1) + 1)) (prev ! (j - 1) + (if s1 ! (i - 1) = s2 ! (j - 1) then 0 else 1))"
  have j: "j \<le> length s2" using Suc.hyps(2) by simp
  have "x = ed_cell s1 s2 i j"
    using ed_cell_step [of "i - 1" s1 "j - 1" s2] assms(1,2,6) Suc.prems j unfolding x_def by simp
  then have "\<forall>k < j + 1. cur[j := x] ! k = ed_cell s1 s2 i k"
    using Suc.prems j by (simp add: nth_list_update less_Suc_eq_le)
  moreover have "ed_cols s1 s2 i prev cur j = ed_cols s1 s2 i prev (cur[j := x]) (j + 1)"
    using j Suc.prems(3) by (subst ed_cols.simps) (simp add: Let_def x_def)
  ultimately show ?case using Suc.hyps Suc.prems by (simp only:) (rule Suc.hyps(1), auto)
qed (use assms in \<open>simp add: ed_cols.simps\<close>)

lemma ed_rows_table:
  assumes "0 < i" "i \<le> Suc (length s1)" "length prev = Suc (length s2)" "length cur = Suc (length s2)"
    and "\<forall>k \<le> length s2. prev ! k = ed_cell s1 s2 (i - 1) k"
  shows "ed_rows s1 s2 prev cur i ! length s2 = ed_cell s1 s2 (length s1) (length s2)"
  using assms
proof (induction s1 s2 prev cur i rule: ed_rows.induct)
  case (1 s1 s2 prev cur i)
  show ?case
  proof (cases "i \<le> length s1")
    case True
    let ?cur = "ed_cols s1 s2 i prev (cur[0 := int i]) 1"
    have c: "length ?cur = Suc (length s2) \<and> (\<forall>k \<le> length s2. ?cur ! k = ed_cell s1 s2 i k)"
      using "1.prems" True by (intro ed_cols_row) (simp_all add: ed_cell_border)
    show ?thesis unfolding ed_rows.simps [of s1 s2 prev cur i] Let_def
      using "1.IH" [OF True refl] "1.prems" True c by simp
  next
    case False
    then have "i = Suc (length s1)" using "1.prems" by simp
    then show ?thesis using "1.prems" by (simp add: ed_rows.simps [of s1 s2 prev cur])
  qed
qed

lemma ed_table:
  "ed_rows s1 s2 (map int [0..<length s2 + 1]) (map mem [0..<length s2 + 1]) 1 ! length s2 = int (lev s1 s2)"
proof -
  have "map int [0..<length s2 + 1] ! k = ed_cell s1 s2 (1 - 1) k" if "k \<le> length s2" for k
    using that by (simp add: ed_cell_border del: upt_Suc)
  then have "ed_rows s1 s2 (map int [0..<length s2 + 1]) (map mem [0..<length s2 + 1]) 1 ! length s2
      = ed_cell s1 s2 (length s1) (length s2)" by (intro ed_rows_table) (simp_all del: upt_Suc)
  then show ?thesis by (simp add: ed_cell_def lev_rev)
qed

lemma edit_distance_lev:
  assumes "min (length s1) (length s2) < 0xfffffff"
  shows "edit_distance mem s1 s2 = Inr (int (lev s1 s2))"
proof (cases "length s1 < length s2")
  case True
  then show ?thesis using assms ed_table [of s2 s1 mem] lev_commute [of s1 s2]
    by (cases "s1 = []") (auto simp: edit_distance_def match_palloc_def Let_def simp del: upt_Suc)
next
  case False
  then show ?thesis using assms ed_table [of s1 s2 mem]
    by (cases "s2 = []") (auto simp: edit_distance_def match_palloc_def Let_def simp del: upt_Suc)
qed

section \<open>Matching bytes and transpositions\<close>

definition matched :: "bool list \<Rightarrow> bytes \<Rightarrow> bytes" where
  "matched ms s = map snd (filter fst (zip ms s))"

lemma matched_simps [simp]:
  "matched [] s = []" "matched (b # ms) (c # s) = (if b then c # matched ms s else matched ms s)"
  by (simp_all add: matched_def)

lemma length_matched_le: "length (matched ms s) \<le> length s"
  using length_filter_le [of fst "zip ms s"] by (simp add: matched_def)

lemma matched_replicate: "matched (replicate n False) s = []"
  by (auto simp: matched_def filter_empty_conv dest: set_zip_leftD)

lemma matched_update:
  assumes "length ms = length s" "i < length s" "\<not> ms ! i"
  shows "mset (matched (ms[i := True]) s) = add_mset (s ! i) (mset (matched ms s))"
  using assms by (induction ms s arbitrary: i rule: list_induct2) (auto simp: less_Suc_eq_0_disj)

lemma matched_drop:
  assumes "length ms = length s" "i < length s"
  shows "matched (drop i ms) (drop i s) =
    (if ms ! i then s ! i # matched (drop (Suc i) ms) (drop (Suc i) s) else matched (drop (Suc i) ms) (drop (Suc i) s))"
  using assms by (simp flip: Cons_nth_drop_Suc)

lemma jaro_find_Some:
  "jaro_find c s2 s2match j hi = Some k \<Longrightarrow> k < hi \<and> \<not> s2match ! k \<and> c = s2 ! k"
proof (induction c s2 s2match j hi rule: jaro_find.induct)
  case (1 c s2 s2match j hi)
  then show ?case using jaro_find.simps [of c s2 s2match j hi] by (auto split: if_splits)
qed

lemma jaro_matches_inv:
  assumes "jaro_matches s1 s2 window i m1 m2 m = (m1', m2', m')"
    and "length m1 = length s1" "length m2 = length s2" "\<forall>k \<ge> i. k < length s1 \<longrightarrow> \<not> m1 ! k"
    and "mset (matched m1 s1) = mset (matched m2 s2)" "length (matched m1 s1) = m"
  shows "length m1' = length s1 \<and> length m2' = length s2 \<and> mset (matched m1' s1) = mset (matched m2' s2)
    \<and> length (matched m1' s1) = m'"
  using assms
proof (induction s1 s2 window i m1 m2 m rule: jaro_matches.induct)
  case (1 s1 s2 window i m1 m2 m)
  define lo where "lo = (if i > window then i - window else 0)"
  define h where "h = i + window + 1"
  define hi where "hi = (if h > length s2 then length s2 else h)"
  have eq: "jaro_matches s1 s2 window i m1 m2 m = (case jaro_find (s1 ! i) s2 m2 lo hi of
      Some j \<Rightarrow> jaro_matches s1 s2 window (i + 1) (m1[i := True]) (m2[j := True]) (m + 1)
    | None \<Rightarrow> jaro_matches s1 s2 window (i + 1) m1 m2 m)" if "i < length s1"
    unfolding jaro_matches.simps [of s1 s2 window i m1 m2 m] lo_def hi_def h_def using that by (simp only: Let_def if_True)
  show ?case
  proof (cases "i < length s1")
    case True
    show ?thesis
    proof (cases "jaro_find (s1 ! i) s2 m2 lo hi")
      case None
      then show ?thesis using "1.IH"(1) [OF True lo_def h_def hi_def None] "1.prems" True
        unfolding eq [OF True] by simp
    next
      case (Some j)
      then have j: "j < length s2" "\<not> m2 ! j" "s1 ! i = s2 ! j"
        using jaro_find_Some [OF Some] by (auto simp: hi_def split: if_splits)
      have u: "mset (matched (m1[i := True]) s1) = add_mset (s1 ! i) (mset (matched m1 s1))"
        "mset (matched (m2[j := True]) s2) = add_mset (s2 ! j) (mset (matched m2 s2))"
        using "1.prems" True j by (simp_all add: matched_update)
      from arg_cong [OF u(1), of size] have l: "length (matched (m1[i := True]) s1) = m + 1" using "1.prems"(6) by simp
      have "jaro_matches s1 s2 window (i + 1) (m1[i := True]) (m2[j := True]) (m + 1) = (m1', m2', m')"
        using "1.prems"(1) unfolding eq [OF True] Some by simp
      from "1.IH"(2) [OF True lo_def h_def hi_def Some this] show ?thesis using "1.prems" u l j by simp
    qed
  next
    case False
    then show ?thesis using "1.prems" by (simp add: jaro_matches.simps [of s1 s2 window i m1 m2 m])
  qed
qed

lemma jaro_skip_next:
  assumes "length m2 = length s2" "matched (drop j m2) (drop j s2) = c # cs"
  shows "\<exists>k. jaro_skip m2 j = Inr k \<and> k < length s2 \<and> s2 ! k = c \<and> matched (drop (Suc k) m2) (drop (Suc k) s2) = cs"
  using assms
proof (induction m2 j rule: jaro_skip.induct)
  case (1 m2 j)
  have j: "j < length s2" using "1.prems" by (cases "j < length s2") (simp_all add: matched_def)
  show ?case
  proof (cases "m2 ! j")
    case True
    then show ?thesis using matched_drop [of m2 s2 j] "1.prems" j by (simp add: jaro_skip.simps [of m2 j])
  next
    case False
    then show ?thesis using "1.IH" matched_drop [of m2 s2 j] "1.prems" j by (simp add: jaro_skip.simps [of m2 j])
  qed
qed

definition displaced :: "bytes \<Rightarrow> bytes \<Rightarrow> nat" where
  "displaced as bs = length (filter (\<lambda>(a, b). a \<noteq> b) (zip as bs))"

lemma jaro_transpositions_count:
  assumes "length m1 = length s1" "length m2 = length s2"
    and "length (matched (drop i m1) (drop i s1)) = length (matched (drop j m2) (drop j s2))"
  shows "jaro_transpositions s1 s2 m1 m2 i j t
    = Inr (t + displaced (matched (drop i m1) (drop i s1)) (matched (drop j m2) (drop j s2)))"
  using assms
proof (induction "length s1 - i" arbitrary: i j t)
  case 0
  then show ?case by (simp add: jaro_transpositions.simps [of s1 s2 m1 m2 i] displaced_def matched_def)
next
  case (Suc n)
  then have i: "i < length s1" by simp
  show ?case
  proof (cases "m1 ! i")
    case True
    then have d: "matched (drop i m1) (drop i s1) = s1 ! i # matched (drop (Suc i) m1) (drop (Suc i) s1)"
      using matched_drop [OF Suc.prems(1) i] by simp
    then obtain c cs where c: "matched (drop j m2) (drop j s2) = c # cs"
      using Suc.prems(3) by (cases "matched (drop j m2) (drop j s2)") auto
    obtain k where k: "jaro_skip m2 j = Inr k" "s2 ! k = c" "matched (drop (Suc k) m2) (drop (Suc k) s2) = cs"
      using jaro_skip_next [OF Suc.prems(2) c] by blast
    show ?thesis using Suc.hyps(1) [of "Suc i" "Suc k"] Suc.hyps(2) Suc.prems True i d c k
      by (simp add: jaro_transpositions.simps [of s1 s2 m1 m2 i] displaced_def)
  next
    case False
    then show ?thesis using Suc.hyps(1) [of "Suc i" j t] Suc.hyps(2) Suc.prems i matched_drop [OF Suc.prems(1) i]
      by (simp add: jaro_transpositions.simps [of s1 s2 m1 m2 i])
  qed
qed

lemma displaced_le: "displaced as bs \<le> length as"
  using length_filter_le [of "\<lambda>(a, b). a \<noteq> b" "zip as bs"] by (simp add: displaced_def)

lemma jaro_loops:
  assumes "jaro_matches s1 s2 window 0 (replicate (length s1) False) (replicate (length s2) False) 0 = (m1, m2, m)"
  shows "mset (matched m1 s1) = mset (matched m2 s2)" "length (matched m1 s1) = m" "length (matched m2 s2) = m"
    "jaro_transpositions s1 s2 m1 m2 0 0 0 = Inr (displaced (matched m1 s1) (matched m2 s2))"
proof -
  have i: "length m1 = length s1" "length m2 = length s2" "mset (matched m1 s1) = mset (matched m2 s2)"
      "length (matched m1 s1) = m"
    using jaro_matches_inv [OF assms] by (simp_all add: matched_replicate)
  then show "mset (matched m1 s1) = mset (matched m2 s2)" "length (matched m1 s1) = m" by simp_all
  show l: "length (matched m2 s2) = m" using i mset_eq_length by metis
  show "jaro_transpositions s1 s2 m1 m2 0 0 0 = Inr (displaced (matched m1 s1) (matched m2 s2))"
    using jaro_transpositions_count [of m1 s1 m2 s2 0 0 0] i l by simp
qed

section \<open>Ranges of the similarities\<close>

text \<open>
  What the functions need of IEEE 754 double arithmetic: rounding is monotone and leaves representable
  numbers alone, the multiples of 1/8 up to \<open>2\<^sup>5\<^sup>0\<close> are representable, and \<open>1 - x\<close> is exact when \<open>x\<close> is a
  representable number between 1/2 and 1.
\<close>

definition ieee_rounding :: "(rat \<Rightarrow> rat) \<Rightarrow> bool" where
  "ieee_rounding rnd \<longleftrightarrow> mono rnd \<and> (\<forall>x. rnd (rnd x) = rnd x)
     \<and> (\<forall>k :: int. \<bar>k\<bar> \<le> 2 ^ 53 \<longrightarrow> rnd (of_int k / 8) = of_int k / 8)
     \<and> (\<forall>x. rnd x = x \<and> 1 / 2 \<le> x \<and> x \<le> 1 \<longrightarrow> rnd (1 - x) = 1 - x)"

lemma rounding_exact:
  assumes "ieee_rounding rnd"
  shows "rnd 0 = 0" "rnd 1 = 1" "rnd 2 = 2" "rnd 3 = 3" "rnd 100 = 100" "rnd (1 / 2) = 1 / 2" "rnd (1 / 8) = 1 / 8"
    "rnd (201 / 2) = 201 / 2"
proof -
  have e: "rnd (of_int k / 8) = of_int k / 8" if "\<bar>k\<bar> \<le> 2 ^ 53" for k using assms that by (simp add: ieee_rounding_def)
  show "rnd 0 = 0" "rnd 1 = 1" "rnd 2 = 2" "rnd 3 = 3" "rnd 100 = 100" "rnd (1 / 2) = 1 / 2" "rnd (1 / 8) = 1 / 8"
    "rnd (201 / 2) = 201 / 2"
    using e [of 0] e [of 8] e [of 16] e [of 24] e [of 800] e [of 4] e [of 1] e [of 804] by simp_all
qed

lemma rounding_mono: "ieee_rounding rnd \<Longrightarrow> x \<le> y \<Longrightarrow> rnd x \<le> rnd y"
  by (simp add: ieee_rounding_def monoD)

lemma rounding_between:
  assumes "ieee_rounding rnd" "rnd a = a" "rnd b = b" "a \<le> x" "x \<le> b"
  shows "a \<le> rnd x" "rnd x \<le> b"
  using rounding_mono [OF assms(1,4)] rounding_mono [OF assms(1,5)] assms(2,3) by simp_all

text \<open>An example of such a rounding: truncation to 53 binary places.\<close>

definition binary_places :: "rat \<Rightarrow> rat" where
  "binary_places x = of_int \<lfloor>x * 2 ^ 53\<rfloor> / 2 ^ 53"

lemma binary_places_rounding: "ieee_rounding binary_places"
proof -
  have "mono binary_places" by (intro monoI) (simp add: binary_places_def divide_right_mono floor_mono)
  moreover have "binary_places (of_int k / 8) = of_int k / 8" for k
  proof -
    have "(of_int k / 8 :: rat) * 2 ^ 53 = of_int (k * 2 ^ 50)" by simp
    then show ?thesis by (simp only: binary_places_def floor_of_int) simp
  qed
  moreover have "binary_places (1 - x) = 1 - x" if "binary_places x = x" for x
  proof -
    define k where "k = \<lfloor>x * 2 ^ 53\<rfloor>"
    have k: "x = of_int k / 2 ^ 53" unfolding k_def using that [unfolded binary_places_def] by (rule sym)
    then have e: "(1 - x) * 2 ^ 53 = of_int (2 ^ 53 - k)" by (simp add: field_simps)
    show ?thesis unfolding binary_places_def e floor_of_int unfolding e [symmetric] by simp
  qed
  moreover have "binary_places (binary_places x) = binary_places x" for x by (simp add: binary_places_def)
  ultimately show ?thesis by (simp add: ieee_rounding_def)
qed

lemma jaro_range:
  assumes r: "ieee_rounding rnd" and "length s1 \<le> 0xfffffff" "length s2 \<le> 0xfffffff"
  shows "\<exists>x. jaro rnd s1 s2 = Inr x \<and> rnd x = x \<and> 0 \<le> x \<and> x \<le> 1"
proof (cases "s1 = [] \<or> s2 = [] \<or> s1 = s2")
  case True
  then show ?thesis using rounding_exact [OF r] by (auto simp: jaro_def Let_def)
next
  case False
  define window where "window = (if (if length s1 > length s2 then length s1 else length s2) div 2 > 0
    then (if length s1 > length s2 then length s1 else length s2) div 2 - 1
    else (if length s1 > length s2 then length s1 else length s2) div 2)"
  obtain m1 m2 m where
    m: "jaro_matches s1 s2 window 0 (replicate (length s1) False) (replicate (length s2) False) 0 = (m1, m2, m)"
    using prod_cases3 by blast
  define t where "t = displaced (matched m1 s1) (matched m2 s2)"
  have le: "m \<le> length s1" "m \<le> length s2" "t \<le> m"
    using jaro_loops(2,3) [OF m] length_matched_le [of m1 s1] length_matched_le [of m2 s2]
      displaced_le [of "matched m1 s1" "matched m2 s2"] by (simp_all add: t_def)
  let ?a = "rnd (of_nat m / of_nat (length s1))" and ?b = "rnd (of_nat m / of_nat (length s2))"
    and ?c = "rnd (of_int (int m - int t div 2) / of_nat m)"
  have j: "jaro rnd s1 s2 = (if m = 0 then Inr 0 else Inr (rnd (rnd (rnd (?a + ?b) + ?c) / 3)))"
    using False assms(2,3) m jaro_loops(4) [OF m]
    by (simp add: jaro_def match_palloc_def Let_def t_def flip: window_def)
  show ?thesis
  proof (cases "m = 0")
    case True
    then show ?thesis using j rounding_exact [OF r] by simp
  next
    case m0: False
    have c: "0 \<le> int m - int t div 2" "int m - int t div 2 \<le> int m" using le(3) by linarith+
    have f: "of_int (int m - int t div 2) \<le> (of_nat m :: rat)" "0 \<le> (of_int (int m - int t div 2) :: rat)"
      using c by (metis of_int_le_iff of_int_of_nat_eq) (metis c(1) of_int_0_le_iff)
    note e = rounding_exact [OF r] and b = rounding_between [OF r]
    have abc: "0 \<le> ?a" "?a \<le> 1" "0 \<le> ?b" "?b \<le> 1" "0 \<le> ?c" "?c \<le> 1"
      using m0 le f by (auto intro!: b [OF e(1,2)] simp: divide_le_eq_1)
    then have "0 \<le> rnd (?a + ?b)" "rnd (?a + ?b) \<le> 2" by (auto intro!: b [OF e(1,3)])
    then have "0 \<le> rnd (rnd (?a + ?b) + ?c)" "rnd (rnd (?a + ?b) + ?c) \<le> 3" using abc by (auto intro!: b [OF e(1,4)])
    then have "0 \<le> rnd (rnd (rnd (?a + ?b) + ?c) / 3)" "rnd (rnd (rnd (?a + ?b) + ?c) / 3) \<le> 1"
      by (auto intro!: b [OF e(1,2)])
    then show ?thesis using j m0 r by (simp add: ieee_rounding_def)
  qed
qed

lemma common_prefix_le: "p \<le> 4 \<Longrightarrow> common_prefix s1 s2 n p \<le> 4"
  by (induction s1 s2 n p rule: common_prefix.induct) (simp add: common_prefix.simps)

lemma winkler_boost:
  assumes r: "ieee_rounding rnd" and j: "rnd j = j" "0 \<le> j" "j \<le> 1" and p: "p \<le> 4"
  shows "0 \<le> rnd (j + rnd (rnd (of_nat p * rnd (1 / 10)) * rnd (1 - j)))"
    "rnd (j + rnd (rnd (of_nat p * rnd (1 / 10)) * rnd (1 - j))) \<le> 1"
proof -
  note e = rounding_exact [OF r] and b = rounding_between [OF r]
  let ?q = "rnd (of_nat p * rnd (1 / 10))" and ?u = "rnd (1 - j)"
  have t: "0 \<le> rnd (1 / 10)" "rnd (1 / 10) \<le> 1 / 8" using b [OF e(1,7), of "1 / 10"] by simp_all
  have "(of_nat p :: rat) \<le> 4" using p by (metis of_nat_le_iff of_nat_numeral)
  with t have "of_nat p * rnd (1 / 10) \<le> 4 * (1 / 8)" by (intro mult_mono) simp_all
  then have q: "0 \<le> ?q" "?q \<le> 1 / 2" using t b [OF e(1,6), of "of_nat p * rnd (1 / 10)"] by simp_all
  have u: "0 \<le> ?u" "?u \<le> 1" using j by (auto intro!: b [OF e(1,2)])
  have qu: "?q * ?u \<le> 1 / 2 * ?u" using q u by (intro mult_right_mono)
  have v: "0 \<le> rnd (?q * ?u)" using rounding_mono [OF r, of 0 "?q * ?u"] q u e(1) by simp
  have "j + rnd (?q * ?u) \<le> 1"
  proof (cases "1 / 2 \<le> j")
    case True
    then have "?u = 1 - j" using r j by (simp add: ieee_rounding_def)
    moreover have "rnd ?u = ?u" using r by (simp add: ieee_rounding_def)
    moreover have "rnd (?q * ?u) \<le> rnd ?u" using qu u by (intro rounding_mono [OF r]) linarith
    ultimately show ?thesis by simp
  next
    case False
    have "rnd (?q * ?u) \<le> rnd (1 / 2)" using qu u by (intro rounding_mono [OF r]) linarith
    then show ?thesis using False e(6) by simp
  qed
  then show "0 \<le> rnd (j + rnd (?q * ?u))" "rnd (j + rnd (?q * ?u)) \<le> 1"
    using v j by (auto intro!: b [OF e(1,2)])
qed

lemma percent_range:
  assumes "ieee_rounding rnd" "0 \<le> x" "x \<le> 100"
  shows "0 \<le> round_to_int rnd x" "round_to_int rnd x \<le> 100"
proof -
  have "1 / 2 \<le> rnd (x + 1 / 2)" "rnd (x + 1 / 2) \<le> 201 / 2"
    using assms(2,3) rounding_between [OF assms(1) rounding_exact(6,8) [OF assms(1)], of "x + 1 / 2"] by simp_all
  then show "0 \<le> round_to_int rnd x" "round_to_int rnd x \<le> 100"
    unfolding round_to_int_def by (simp_all add: floor_le_iff)
qed

lemma jaro_winkler_range:
  assumes "ieee_rounding rnd" "length s < 0xfffffff" "length t < 0xfffffff"
  shows "\<exists>x. jaro_winkler rnd s t = Inr x \<and> 0 \<le> x \<and> x \<le> 1"
proof -
  obtain j where j: "jaro rnd s t = Inr j" "rnd j = j" "0 \<le> j" "j \<le> 1"
    using jaro_range [OF assms(1), of s t] assms(2,3) by auto
  show ?thesis using winkler_boost [OF assms(1) j(2-4) common_prefix_le] j(1)
    by (simp add: jaro_winkler_def Let_def)
qed

lemma similarity_range:
  assumes r: "ieee_rounding rnd" and "length s < 0xfffffff" "length t < 0xfffffff"
  shows "\<exists>z. edit_distance_similarity rnd mem s t = Inr z \<and> 0 \<le> z \<and> z \<le> 100"
proof -
  note e = rounding_exact [OF r] and b = rounding_between [OF r]
  let ?n = "if length s > length t then length s else length t"
  let ?f = "rnd (of_int (int (lev s t)) / of_nat ?n)"
  have ed: "edit_distance mem s t = Inr (int (lev s t))" using assms by (intro edit_distance_lev) simp
  show ?thesis
  proof (cases "?n = 0")
    case True
    then show ?thesis using ed by (simp add: edit_distance_similarity_def Let_def)
  next
    case False
    have "lev s t \<le> ?n" using lev_max [of s t] by (simp add: max_def split: if_splits)
    then have "0 \<le> ?f" "?f \<le> 1" using False by (auto intro!: b [OF e(1,2)] simp: divide_le_eq_1)
    then have "0 \<le> rnd (1 - ?f)" "rnd (1 - ?f) \<le> 1" by (auto intro!: b [OF e(1,2)])
    then have "0 \<le> rnd (rnd (1 - ?f) * 100)" "rnd (rnd (1 - ?f) * 100) \<le> 100" by (auto intro!: b [OF e(1,5)])
    then show ?thesis using False ed percent_range [OF r] by (auto simp: edit_distance_similarity_def Let_def)
  qed
qed

section \<open>Properties\<close>

text \<open>
  C7 (edit distance): whatever the fresh memory holds, EDIT\_DISTANCE returns the least number of
  insertions, deletions and substitutions of single bytes that turn the first string into the second;
  the only exception is that the rows of the table cannot be allocated, for different strings of
  268435455 bytes or more each.
\<close>

theorem edit_distance_correct:
  "ora_utl_match_edit_distance mem (Some s1) (Some s2) =
     (if s1 = s2 \<or> length s1 < 0xfffffff \<or> length s2 < 0xfffffff then Inr (int (edits s1 s2)) else Inl MatchAllocSize)"
proof (cases "length s1 < 0xfffffff \<or> length s2 < 0xfffffff")
  case True
  then show ?thesis using edit_distance_lev [of s1 s2 mem]
    by (auto simp: ora_utl_match_edit_distance_def edits_eq_lev min_less_iff_disj)
next
  case False
  then have "s1 \<noteq> []" "s2 \<noteq> []" by auto
  then show ?thesis using False
    by (auto simp: ora_utl_match_edit_distance_def edit_distance_def match_palloc_def edits_eq_lev Let_def)
qed

text \<open>
  C8 (Jaro matching): for every pair of strings and every window, the two match arrays select
  permutations of the same bytes, as many as were counted; the loop that counts transpositions, whose
  inner search for the next matched byte has no bound of its own, ends inside the array and returns the
  number of positions at which the two selections differ.
\<close>

theorem jaro_loops_end:
  "\<exists>m1 m2 m. jaro_matches s1 s2 window 0 (replicate (length s1) False) (replicate (length s2) False) 0 = (m1, m2, m)
     \<and> mset (matched m1 s1) = mset (matched m2 s2) \<and> m = length (matched m1 s1)
     \<and> jaro_transpositions s1 s2 m1 m2 0 0 0 = Inr (displaced (matched m1 s1) (matched m2 s2))"
proof -
  obtain m1 m2 m where
    m: "jaro_matches s1 s2 window 0 (replicate (length s1) False) (replicate (length s2) False) 0 = (m1, m2, m)"
    using prod_cases3 by blast
  then show ?thesis using jaro_loops [OF m] by blast
qed

text \<open>
  C32 (similarities): with IEEE rounding and arguments of at most 268435454 bytes, NULL included, the
  functions of UTL\_MATCH never raise, JARO\_WINKLER lies between 0 and 1, and both similarities are
  percentages from 0 to 100, in spite of the rounding of every intermediate result.
\<close>

theorem similarities_in_range:
  assumes "ieee_rounding rnd" "\<forall>s \<in> set_option a. length s < 0xfffffff" "\<forall>s \<in> set_option b. length s < 0xfffffff"
  shows "\<exists>x y z. ora_utl_match_jaro_winkler rnd a b = Inr x \<and> 0 \<le> x \<and> x \<le> 1
    \<and> ora_utl_match_jaro_winkler_similarity rnd a b = Inr y \<and> 0 \<le> y \<and> y \<le> 100
    \<and> ora_utl_match_edit_distance_similarity rnd mem a b = Inr z \<and> 0 \<le> z \<and> z \<le> 100"
proof (cases "a = None \<or> b = None")
  case True
  then show ?thesis
    by (auto simp: ora_utl_match_jaro_winkler_def ora_utl_match_jaro_winkler_similarity_def
        ora_utl_match_edit_distance_similarity_def split: option.splits)
next
  case False
  then obtain s t where st: "a = Some s" "b = Some t" by auto
  then have l: "length s < 0xfffffff" "length t < 0xfffffff" using assms(2,3) by simp_all
  from jaro_winkler_range [OF assms(1) l] obtain x where x: "jaro_winkler rnd s t = Inr x" "0 \<le> x" "x \<le> 1" by blast
  have "0 \<le> rnd (x * 100)" "rnd (x * 100) \<le> 100"
    using x rounding_between [OF assms(1) rounding_exact(1,5) [OF assms(1)], of "x * 100"] by simp_all
  note y = percent_range [OF assms(1) this]
  from similarity_range [OF assms(1) l] obtain z where
    z: "edit_distance_similarity rnd mem s t = Inr z" "0 \<le> z" "z \<le> 100" by blast
  show ?thesis using x y z st
    by (simp add: ora_utl_match_jaro_winkler_def ora_utl_match_jaro_winkler_similarity_def
        ora_utl_match_edit_distance_similarity_def)
qed

theorem similarities_in_range_witness:
  "ieee_rounding binary_places
   \<and> (\<exists>x y z. ora_utl_match_jaro_winkler binary_places (Some [65, 66, 67, 68]) (Some [66, 67, 65]) = Inr x \<and> 0 \<le> x \<and> x \<le> 1
      \<and> ora_utl_match_jaro_winkler_similarity binary_places (Some [65, 66, 67, 68]) (Some [66, 67, 65]) = Inr y \<and> 0 \<le> y \<and> y \<le> 100
      \<and> ora_utl_match_edit_distance_similarity binary_places (\<lambda>_. 7) (Some [65, 66, 67, 68]) (Some [66, 67, 65]) = Inr z
      \<and> 0 \<le> z \<and> z \<le> 100)"
  using similarities_in_range [OF binary_places_rounding, of "Some [65, 66, 67, 68]" "Some [66, 67, 65]" "\<lambda>_. 7"]
    binary_places_rounding by simp

end
