(* ===== verification/Pg_Utf8.thy ===== *)
theory Pg_Utf8
  imports Ora_Prelude
begin

text \<open>
  UTF-8 in the server: the verifier of src/src/common/wchar.c with its fast path, a
  shift-based automaton over chunks of 32 bytes (\<open>utf8_advance\<close>, \<open>pg_utf8_verifystr\<close>) and
  the byte-wise rules of RFC 3629 (\<open>pg_utf8_islegal\<close>, \<open>pg_utf8_verifychar\<close>), and the
  conversion between code points and UTF-8 of src/src/include/mb/pg\_wchar.h.

  A pointer into the string with the remaining length is the remaining list of bytes. \<open>None\<close>
  is the return value -1 of \<open>pg_utf8_verifychar\<close>; in \<open>pg_utf8_verifystr\<close> it is a read before the
  start of the string. The vector registers have 16 bytes (SSE2, Neon).
\<close>

section \<open>Code\<close>

definition pg_utf_mblen :: "byte \<Rightarrow> nat" where
  "pg_utf_mblen s =
     (if s AND 0x80 = 0 then 1
      else if s AND 0xe0 = 0xc0 then 2
      else if s AND 0xf0 = 0xe0 then 3
      else if s AND 0xf8 = 0xf0 then 4
      else 1)"

definition islegal_second :: "byte \<Rightarrow> byte \<Rightarrow> bool" where
  "islegal_second source a =
     (if source = 0xE0 then \<not> (a < 0xA0 \<or> a > 0xBF)
      else if source = 0xED then \<not> (a < 0x80 \<or> a > 0x9F)
      else if source = 0xF0 then \<not> (a < 0x90 \<or> a > 0xBF)
      else if source = 0xF4 then \<not> (a < 0x80 \<or> a > 0x8F)
      else \<not> (a < 0x80 \<or> a > 0xBF))"

definition pg_utf8_islegal :: "bytes \<Rightarrow> nat \<Rightarrow> bool" where
  "pg_utf8_islegal source len =
     (if len = 0 \<or> len > 4 then False
      else if len = 4 \<and> (source ! 3 < 0x80 \<or> source ! 3 > 0xBF) then False
      else if len \<ge> 3 \<and> (source ! 2 < 0x80 \<or> source ! 2 > 0xBF) then False
      else if len \<ge> 2 \<and> \<not> islegal_second (source ! 0) (source ! 1) then False
      else if source ! 0 \<ge> 0x80 \<and> source ! 0 < 0xC2 then False
      else if source ! 0 > 0xF4 then False
      else True)"

definition pg_utf8_verifychar :: "bytes \<Rightarrow> nat option" where
  "pg_utf8_verifychar s =
     (if s ! 0 AND 0x80 = 0 then if s ! 0 = 0 then None else Some 1
      else
        (let l = (if s ! 0 AND 0xe0 = 0xc0 then 2
                  else if s ! 0 AND 0xf0 = 0xe0 then 3
                  else if s ! 0 AND 0xf8 = 0xf0 then 4
                  else 1)
         in if l > length s then None
            else if \<not> pg_utf8_islegal s l then None
            else Some l))"

text \<open>The states of the automaton and the encoded transitions.\<close>

definition U_ERR :: "32 word" where "U_ERR = 0"
definition U_BGN :: "32 word" where "U_BGN = 11"
definition U_CS1 :: "32 word" where "U_CS1 = 16"
definition U_CS2 :: "32 word" where "U_CS2 = 1"
definition U_CS3 :: "32 word" where "U_CS3 = 5"
definition U_P3A :: "32 word" where "U_P3A = 6"
definition U_P3B :: "32 word" where "U_P3B = 20"
definition U_P4A :: "32 word" where "U_P4A = 25"
definition U_P4B :: "32 word" where "U_P4B = 30"
definition U_END :: "32 word" where "U_END = U_BGN"

lemmas utf8_states = U_ERR_def U_BGN_def U_CS1_def U_CS2_def U_CS3_def U_P3A_def U_P3B_def U_P4A_def U_P4B_def U_END_def

definition shl :: "32 word \<Rightarrow> 32 word \<Rightarrow> 32 word" where
  "shl a b = push_bit (unat b) a"

definition U_ASC :: "32 word" where "U_ASC = shl U_END U_BGN"
definition U_L2A :: "32 word" where "U_L2A = shl U_CS1 U_BGN"
definition U_L3A :: "32 word" where "U_L3A = shl U_P3A U_BGN"
definition U_L3B :: "32 word" where "U_L3B = shl U_CS2 U_BGN"
definition U_L3C :: "32 word" where "U_L3C = shl U_P3B U_BGN"
definition U_L4A :: "32 word" where "U_L4A = shl U_P4A U_BGN"
definition U_L4B :: "32 word" where "U_L4B = shl U_CS3 U_BGN"
definition U_L4C :: "32 word" where "U_L4C = shl U_P4B U_BGN"
definition U_CR1 :: "32 word" where
  "U_CR1 = shl U_END U_CS1 OR shl U_CS1 U_CS2 OR shl U_CS2 U_CS3 OR shl U_CS1 U_P3B OR shl U_CS2 U_P4B"
definition U_CR2 :: "32 word" where
  "U_CR2 = shl U_END U_CS1 OR shl U_CS1 U_CS2 OR shl U_CS2 U_CS3 OR shl U_CS1 U_P3B OR shl U_CS2 U_P4A"
definition U_CR3 :: "32 word" where
  "U_CR3 = shl U_END U_CS1 OR shl U_CS1 U_CS2 OR shl U_CS2 U_CS3 OR shl U_CS1 U_P3A OR shl U_CS2 U_P4A"
definition U_ILL :: "32 word" where "U_ILL = U_ERR"

definition Utf8Transition :: "32 word list" where
  "Utf8Transition =
    [U_ILL, U_ASC, U_ASC, U_ASC, U_ASC, U_ASC, U_ASC, U_ASC, U_ASC, U_ASC, U_ASC, U_ASC, U_ASC, U_ASC, U_ASC, U_ASC,
     U_ASC, U_ASC, U_ASC, U_ASC, U_ASC, U_ASC, U_ASC, U_ASC, U_ASC, U_ASC, U_ASC, U_ASC, U_ASC, U_ASC, U_ASC, U_ASC,
     U_ASC, U_ASC, U_ASC, U_ASC, U_ASC, U_ASC, U_ASC, U_ASC, U_ASC, U_ASC, U_ASC, U_ASC, U_ASC, U_ASC, U_ASC, U_ASC,
     U_ASC, U_ASC, U_ASC, U_ASC, U_ASC, U_ASC, U_ASC, U_ASC, U_ASC, U_ASC, U_ASC, U_ASC, U_ASC, U_ASC, U_ASC, U_ASC,
     U_ASC, U_ASC, U_ASC, U_ASC, U_ASC, U_ASC, U_ASC, U_ASC, U_ASC, U_ASC, U_ASC, U_ASC, U_ASC, U_ASC, U_ASC, U_ASC,
     U_ASC, U_ASC, U_ASC, U_ASC, U_ASC, U_ASC, U_ASC, U_ASC, U_ASC, U_ASC, U_ASC, U_ASC, U_ASC, U_ASC, U_ASC, U_ASC,
     U_ASC, U_ASC, U_ASC, U_ASC, U_ASC, U_ASC, U_ASC, U_ASC, U_ASC, U_ASC, U_ASC, U_ASC, U_ASC, U_ASC, U_ASC, U_ASC,
     U_ASC, U_ASC, U_ASC, U_ASC, U_ASC, U_ASC, U_ASC, U_ASC, U_ASC, U_ASC, U_ASC, U_ASC, U_ASC, U_ASC, U_ASC, U_ASC,
     U_CR1, U_CR1, U_CR1, U_CR1, U_CR1, U_CR1, U_CR1, U_CR1, U_CR1, U_CR1, U_CR1, U_CR1, U_CR1, U_CR1, U_CR1, U_CR1,
     U_CR2, U_CR2, U_CR2, U_CR2, U_CR2, U_CR2, U_CR2, U_CR2, U_CR2, U_CR2, U_CR2, U_CR2, U_CR2, U_CR2, U_CR2, U_CR2,
     U_CR3, U_CR3, U_CR3, U_CR3, U_CR3, U_CR3, U_CR3, U_CR3, U_CR3, U_CR3, U_CR3, U_CR3, U_CR3, U_CR3, U_CR3, U_CR3,
     U_CR3, U_CR3, U_CR3, U_CR3, U_CR3, U_CR3, U_CR3, U_CR3, U_CR3, U_CR3, U_CR3, U_CR3, U_CR3, U_CR3, U_CR3, U_CR3,
     U_ILL, U_ILL, U_L2A, U_L2A, U_L2A, U_L2A, U_L2A, U_L2A, U_L2A, U_L2A, U_L2A, U_L2A, U_L2A, U_L2A, U_L2A, U_L2A,
     U_L2A, U_L2A, U_L2A, U_L2A, U_L2A, U_L2A, U_L2A, U_L2A, U_L2A, U_L2A, U_L2A, U_L2A, U_L2A, U_L2A, U_L2A, U_L2A,
     U_L3A, U_L3B, U_L3B, U_L3B, U_L3B, U_L3B, U_L3B, U_L3B, U_L3B, U_L3B, U_L3B, U_L3B, U_L3B, U_L3C, U_L3B, U_L3B,
     U_L4A, U_L4B, U_L4B, U_L4B, U_L4C, U_ILL, U_ILL, U_ILL, U_ILL, U_ILL, U_ILL, U_ILL, U_ILL, U_ILL, U_ILL, U_ILL]"

definition utf8_advance :: "bytes \<Rightarrow> 32 word \<Rightarrow> 32 word" where
  "utf8_advance s state =
     fold (\<lambda>b state. drop_bit (unat (state AND 31)) (Utf8Transition ! unat b)) s state AND 31"

text \<open>
  \<open>is_valid_ascii\<close> on vectors: a vector is the list of its 16 lanes; the accumulator collects
  the bytes and, for zero bytes, all bits.
\<close>

fun ascii_cum :: "bytes \<Rightarrow> bytes list \<Rightarrow> bytes" where
  "ascii_cum highbit_cum [] = highbit_cum"
| "ascii_cum highbit_cum (chunk # cs) =
     (let highbit_cum = map2 (OR) highbit_cum (map (\<lambda>b. if b = 0 then 0xFF else 0) chunk)
      in ascii_cum (map2 (OR) highbit_cum chunk) cs)"

definition is_valid_ascii :: "bytes \<Rightarrow> bool" where
  "is_valid_ascii s =
     (let chunks = map (\<lambda>k. take 16 (drop (16 * k) s)) [0..<length s div 16]
      in \<not> list_ex (\<lambda>b. b AND 0x80 \<noteq> 0) (ascii_cum (replicate 16 0) chunks))"

definition STRIDE_LENGTH :: nat where "STRIDE_LENGTH = 32"

text \<open>The loop over whole strides: the position reached and the state.\<close>

function utf8_strides :: "bytes \<Rightarrow> nat \<Rightarrow> 32 word \<Rightarrow> nat \<times> 32 word" where
  "utf8_strides s i state =
     (if i + STRIDE_LENGTH \<le> length s then
        (let chunk = take STRIDE_LENGTH (drop i s)
         in utf8_strides s (i + STRIDE_LENGTH)
              (if state \<noteq> U_END \<or> \<not> is_valid_ascii chunk then utf8_advance chunk state else state))
      else (i, state))"
  by pat_completeness auto
termination
  by (relation "measure (\<lambda>(s, i, state). length s - i)") (auto simp: STRIDE_LENGTH_def)

fun utf8_backtrack :: "bytes \<Rightarrow> nat \<Rightarrow> nat option" where
  "utf8_backtrack s 0 = None"
| "utf8_backtrack s (Suc i) = (if pg_utf_mblen (s ! i) \<le> 1 then utf8_backtrack s i else Some i)"

text \<open>The byte-wise loop: the number of bytes it accepts.\<close>

function utf8_slow :: "bytes \<Rightarrow> nat" where
  "utf8_slow s =
     (if s = [] then 0
      else if s ! 0 AND 0x80 = 0 then if s ! 0 = 0 then 0 else 1 + utf8_slow (drop 1 s)
      else (case pg_utf8_verifychar s of None \<Rightarrow> 0 | Some l \<Rightarrow> l + utf8_slow (drop l s)))"
  by pat_completeness auto
termination
  by (relation "measure length")
    (auto simp: pg_utf8_verifychar_def Let_def split: if_splits)

definition pg_utf8_verifystr :: "bytes \<Rightarrow> nat option" where
  "pg_utf8_verifystr s =
     (if length s \<ge> STRIDE_LENGTH then
        (let (i, state) = utf8_strides s 0 U_BGN;
             resume = (if state = U_ERR then Some 0
                       else if state \<noteq> U_END then utf8_backtrack s i
                       else Some i)
         in map_option (\<lambda>i. i + utf8_slow (drop i s)) resume)
      else Some (utf8_slow s))"

text \<open>Code points.\<close>

definition unicode_to_utf8 :: "32 word \<Rightarrow> bytes" where
  "unicode_to_utf8 c =
     (if c \<le> 0x7F then [ucast c]
      else if c \<le> 0x7FF then
        [ucast (0xC0 OR (drop_bit 6 c AND 0x1F)), ucast (0x80 OR (c AND 0x3F))]
      else if c \<le> 0xFFFF then
        [ucast (0xE0 OR (drop_bit 12 c AND 0x0F)), ucast (0x80 OR (drop_bit 6 c AND 0x3F)), ucast (0x80 OR (c AND 0x3F))]
      else
        [ucast (0xF0 OR (drop_bit 18 c AND 0x07)), ucast (0x80 OR (drop_bit 12 c AND 0x3F)),
         ucast (0x80 OR (drop_bit 6 c AND 0x3F)), ucast (0x80 OR (c AND 0x3F))])"

definition utf8_to_unicode :: "bytes \<Rightarrow> 32 word" where
  "utf8_to_unicode c =
     (if c ! 0 AND 0x80 = 0 then ucast (c ! 0)
      else if c ! 0 AND 0xe0 = 0xc0 then push_bit 6 (ucast (c ! 0 AND 0x1f)) OR ucast (c ! 1 AND 0x3f)
      else if c ! 0 AND 0xf0 = 0xe0 then
        push_bit 12 (ucast (c ! 0 AND 0x0f)) OR push_bit 6 (ucast (c ! 1 AND 0x3f)) OR ucast (c ! 2 AND 0x3f)
      else if c ! 0 AND 0xf8 = 0xf0 then
        push_bit 18 (ucast (c ! 0 AND 0x07)) OR push_bit 12 (ucast (c ! 1 AND 0x3f))
          OR push_bit 6 (ucast (c ! 2 AND 0x3f)) OR ucast (c ! 3 AND 0x3f)
      else 0xffffffff)"

definition unicode_utf8len :: "32 word \<Rightarrow> nat" where
  "unicode_utf8len c = (if c \<le> 0x7F then 1 else if c \<le> 0x7FF then 2 else if c \<le> 0xFFFF then 3 else 4)"

definition is_valid_unicode_codepoint :: "32 word \<Rightarrow> bool" where
  "is_valid_unicode_codepoint c \<longleftrightarrow> c > 0 \<and> c \<le> 0x10FFFF"

definition is_utf16_surrogate_first :: "32 word \<Rightarrow> bool" where
  "is_utf16_surrogate_first c \<longleftrightarrow> c \<ge> 0xD800 \<and> c \<le> 0xDBFF"

definition is_utf16_surrogate_second :: "32 word \<Rightarrow> bool" where
  "is_utf16_surrogate_second c \<longleftrightarrow> c \<ge> 0xDC00 \<and> c \<le> 0xDFFF"

text \<open>Conversion of whole strings: \<open>pg_utf2wchar_with_len\<close> and \<open>pg_wchar2utf_with_len\<close>, without the final zero.\<close>

function pg_utf2wchar_with_len :: "bytes \<Rightarrow> 32 word list" where
  "pg_utf2wchar_with_len from =
     (if from = [] \<or> from ! 0 = 0 then []
      else if from ! 0 AND 0x80 = 0 then ucast (from ! 0) # pg_utf2wchar_with_len (drop 1 from)
      else if from ! 0 AND 0xe0 = 0xc0 then
        if length from < 2 then []
        else (push_bit 6 (ucast (from ! 0 AND 0x1f)) OR ucast (from ! 1 AND 0x3f)) # pg_utf2wchar_with_len (drop 2 from)
      else if from ! 0 AND 0xf0 = 0xe0 then
        if length from < 3 then []
        else (push_bit 12 (ucast (from ! 0 AND 0x0f)) OR push_bit 6 (ucast (from ! 1 AND 0x3f))
                OR ucast (from ! 2 AND 0x3f)) # pg_utf2wchar_with_len (drop 3 from)
      else if from ! 0 AND 0xf8 = 0xf0 then
        if length from < 4 then []
        else (push_bit 18 (ucast (from ! 0 AND 0x07)) OR push_bit 12 (ucast (from ! 1 AND 0x3f))
                OR push_bit 6 (ucast (from ! 2 AND 0x3f)) OR ucast (from ! 3 AND 0x3f)) # pg_utf2wchar_with_len (drop 4 from)
      else ucast (from ! 0) # pg_utf2wchar_with_len (drop 1 from))"
  by pat_completeness auto
termination
  by (relation "measure length") auto

fun pg_wchar2utf_with_len :: "32 word list \<Rightarrow> bytes" where
  "pg_wchar2utf_with_len [] = []"
| "pg_wchar2utf_with_len (c # cs) =
     (if c = 0 then []
      else (let to = unicode_to_utf8 c in take (pg_utf_mblen (to ! 0)) to @ pg_wchar2utf_with_len cs))"

declare utf8_strides.simps [simp del] utf8_slow.simps [simp del] pg_utf2wchar_with_len.simps [simp del]

section \<open>The automaton\<close>

definition utf8_step :: "32 word \<Rightarrow> nat \<Rightarrow> 32 word" where
  "utf8_step st n = drop_bit (unat st) (Utf8Transition ! n) AND 31"

text \<open>The transitions the table encodes, by the numbers of the bytes.\<close>

definition utf8_next :: "32 word \<Rightarrow> nat \<Rightarrow> 32 word" where
  "utf8_next st n =
     (if st = U_BGN then
        if n = 0 then U_ERR else if n < 128 then U_END else if n < 194 then U_ERR else if n < 224 then U_CS1
        else if n = 224 then U_P3A else if n = 237 then U_P3B else if n < 240 then U_CS2
        else if n = 240 then U_P4A else if n < 244 then U_CS3 else if n = 244 then U_P4B else U_ERR
      else if st = U_CS1 then if 128 \<le> n \<and> n < 192 then U_END else U_ERR
      else if st = U_CS2 then if 128 \<le> n \<and> n < 192 then U_CS1 else U_ERR
      else if st = U_CS3 then if 128 \<le> n \<and> n < 192 then U_CS2 else U_ERR
      else if st = U_P3A then if 160 \<le> n \<and> n < 192 then U_CS1 else U_ERR
      else if st = U_P3B then if 128 \<le> n \<and> n < 160 then U_CS1 else U_ERR
      else if st = U_P4A then if 144 \<le> n \<and> n < 192 then U_CS2 else U_ERR
      else if st = U_P4B then if 128 \<le> n \<and> n < 144 then U_CS2 else U_ERR
      else U_ERR)"

definition utf8_state_list :: "32 word list" where
  "utf8_state_list = [U_ERR, U_BGN, U_CS1, U_CS2, U_CS3, U_P3A, U_P3B, U_P4A, U_P4B]"

text \<open>The table by classes of bytes, and the effect of each class in each state.\<close>

definition byte_class :: "nat \<Rightarrow> 32 word" where
  "byte_class n =
     (if n = 0 then U_ILL else if n < 128 then U_ASC else if n < 144 then U_CR1 else if n < 160 then U_CR2
      else if n < 192 then U_CR3 else if n < 194 then U_ILL else if n < 224 then U_L2A else if n = 224 then U_L3A
      else if n = 237 then U_L3C else if n < 240 then U_L3B else if n = 240 then U_L4A else if n < 244 then U_L4B
      else if n = 244 then U_L4C else U_ILL)"

lemma table_classes: "Utf8Transition = map byte_class [0..<256]"
  by (simp add: Utf8Transition_def byte_class_def upt_rec [of _ 256])

lemma table_nth: "n < 256 \<Longrightarrow> Utf8Transition ! n = byte_class n"
  by (simp add: table_classes)

lemma class_values:
  "U_ILL = 0" "U_ASC = 22528" "U_L2A = 32768" "U_L3A = 12288" "U_L3B = 2048" "U_L3C = 40960" "U_L4A = 51200" "U_L4B = 10240"
  "U_L4C = 61440" "U_CR1 = 1091239968" "U_CR2 = 51052576" "U_CR3 = 34276384"
  by (simp_all add: U_ILL_def U_ASC_def U_L2A_def U_L3A_def U_L3B_def U_L3C_def U_L4A_def U_L4B_def U_L4C_def U_CR1_def U_CR2_def U_CR3_def shl_def utf8_states)


lemma utf8_step_next:
  assumes "st \<in> set utf8_state_list" "n < 256"
  shows "utf8_step st n = utf8_next st n"
proof -
  have "utf8_step st n = drop_bit (unat st) (byte_class n) AND 31" using assms(2) by (simp add: utf8_step_def table_nth)
  also have "\<dots> = utf8_next st n"
    using assms(1) unfolding utf8_state_list_def
    by (auto simp: byte_class_def utf8_next_def class_values utf8_states)
  finally show ?thesis .
qed

text \<open>The masks of the byte-wise code.\<close>

lemma mask_check:
  "list_all (\<lambda>n. let b = (of_nat n :: byte) in (b AND 0x80 = 0 \<longleftrightarrow> n < 128) \<and> (b AND 0xe0 = 0xc0 \<longleftrightarrow> 192 \<le> n \<and> n < 224)
     \<and> (b AND 0xf0 = 0xe0 \<longleftrightarrow> 224 \<le> n \<and> n < 240) \<and> (b AND 0xf8 = 0xf0 \<longleftrightarrow> 240 \<le> n \<and> n < 248)) [0..<256]"
  by (simp add: upt_rec [of _ 256])

lemma byte_masks:
  "b AND 0x80 = 0 \<longleftrightarrow> unat b < 128" "b AND 0xe0 = 0xc0 \<longleftrightarrow> 192 \<le> unat b \<and> unat b < 224"
  "b AND 0xf0 = 0xe0 \<longleftrightarrow> 224 \<le> unat b \<and> unat b < 240" "b AND 0xf8 = 0xf0 \<longleftrightarrow> 240 \<le> unat b \<and> unat b < 248"
  for b :: byte
proof -
  have "unat b \<in> set [0..<256]" using unat_byte [of b] by simp
  moreover have "of_nat (unat b) = b" by simp
  ultimately show "b AND 0x80 = 0 \<longleftrightarrow> unat b < 128" "b AND 0xe0 = 0xc0 \<longleftrightarrow> 192 \<le> unat b \<and> unat b < 224"
    "b AND 0xf0 = 0xe0 \<longleftrightarrow> 224 \<le> unat b \<and> unat b < 240" "b AND 0xf8 = 0xf0 \<longleftrightarrow> 240 \<le> unat b \<and> unat b < 248"
    using mask_check unfolding list_all_iff Let_def by metis+
qed

lemma byte_eq_iff: "b = (numeral k :: byte) \<longleftrightarrow> unat b = unat (numeral k :: byte)" "b = 0 \<longleftrightarrow> unat b = 0" for b :: byte
  by (rule word_unat_eq_iff) (rule unat_eq_0 [symmetric])

section \<open>Characters\<close>

declare U_END_def [simp]

text \<open>What the automaton accepts from a state up to the end of the character, and how many bytes that takes.\<close>

fun utf8_accepts :: "32 word \<Rightarrow> nat list \<Rightarrow> bool" where
  "utf8_accepts st [] \<longleftrightarrow> st = U_BGN"
| "utf8_accepts st (n # ns) \<longleftrightarrow> st \<noteq> U_BGN \<and> utf8_accepts (utf8_next st n) ns"

definition utf8_need :: "32 word \<Rightarrow> nat" where
  "utf8_need st = (if st = U_CS1 then 1 else if st \<in> {U_CS2, U_P3A, U_P3B} then 2
     else if st \<in> {U_CS3, U_P4A, U_P4B} then 3 else 0)"

lemma utf8_distinct [simp]:
  "U_ERR \<noteq> U_BGN" "U_CS1 \<noteq> U_BGN" "U_CS2 \<noteq> U_BGN" "U_CS3 \<noteq> U_BGN" "U_P3A \<noteq> U_BGN" "U_P3B \<noteq> U_BGN" "U_P4A \<noteq> U_BGN" "U_P4B \<noteq> U_BGN"
  "U_CS1 \<noteq> U_ERR" "U_CS2 \<noteq> U_ERR" "U_CS3 \<noteq> U_ERR" "U_P3A \<noteq> U_ERR" "U_P3B \<noteq> U_ERR" "U_P4A \<noteq> U_ERR" "U_P4B \<noteq> U_ERR"
  by (simp_all add: utf8_states)

lemma utf8_next_values:
  "utf8_next U_ERR n = U_ERR"
  "utf8_next U_CS1 n = (if 128 \<le> n \<and> n < 192 then U_BGN else U_ERR)"
  "utf8_next U_CS2 n = (if 128 \<le> n \<and> n < 192 then U_CS1 else U_ERR)"
  "utf8_next U_CS3 n = (if 128 \<le> n \<and> n < 192 then U_CS2 else U_ERR)"
  "utf8_next U_P3A n = (if 160 \<le> n \<and> n < 192 then U_CS1 else U_ERR)"
  "utf8_next U_P3B n = (if 128 \<le> n \<and> n < 160 then U_CS1 else U_ERR)"
  "utf8_next U_P4A n = (if 144 \<le> n \<and> n < 192 then U_CS2 else U_ERR)"
  "utf8_next U_P4B n = (if 128 \<le> n \<and> n < 144 then U_CS2 else U_ERR)"
  by (simp_all add: utf8_next_def utf8_states)

lemma utf8_next_begin:
  "utf8_next U_BGN n =
     (if n = 0 then U_ERR else if n < 128 then U_BGN else if n < 194 then U_ERR else if n < 224 then U_CS1
      else if n = 224 then U_P3A else if n = 237 then U_P3B else if n < 240 then U_CS2
      else if n = 240 then U_P4A else if n < 244 then U_CS3 else if n = 244 then U_P4B else U_ERR)"
  by (simp add: utf8_next_def)

lemma utf8_accepts_err [simp]: "\<not> utf8_accepts U_ERR ns"
  by (induction ns) (simp_all add: utf8_next_values)

lemma utf8_accepts_end [simp]: "utf8_accepts U_BGN ns \<longleftrightarrow> ns = []"
  by (cases ns) simp_all

lemma utf8_need_values:
  "utf8_need U_BGN = 0" "utf8_need U_ERR = 0" "utf8_need U_CS1 = 1" "utf8_need U_CS2 = 2" "utf8_need U_P3A = 2" "utf8_need U_P3B = 2"
  "utf8_need U_CS3 = 3" "utf8_need U_P4A = 3" "utf8_need U_P4B = 3"
  by (simp_all add: utf8_need_def utf8_states)

definition utf8_char_at :: "bytes \<Rightarrow> bool" where
  "utf8_char_at s \<longleftrightarrow> s \<noteq> [] \<and> (let st = utf8_next U_BGN (unat (s ! 0))
     in Suc (utf8_need st) \<le> length s \<and> utf8_accepts st (map unat (take (utf8_need st) (tl s))))"

lemma verifychar_accepts:
  assumes "s \<noteq> []"
  shows "pg_utf8_verifychar s = (if utf8_char_at s then Some (Suc (utf8_need (utf8_next U_BGN (unat (s ! 0))))) else None)"
proof -
  obtain b bs where s: "s = b # bs" using assms by (cases s) auto
  have cs: "bs = [] \<or> (\<exists>a1. bs = [a1]) \<or> (\<exists>a1 a2. bs = [a1, a2]) \<or> (\<exists>a1 a2 a3 r. bs = a1 # a2 # a3 # r)"
    by (metis neq_Nil_conv)
  note defs = s utf8_char_at_def pg_utf8_verifychar_def [unfolded byte_masks] pg_utf8_islegal_def islegal_second_def utf8_next_begin
    utf8_next_values utf8_need_values word_less_nat_alt word_le_nat_alt byte_eq_iff
  consider "unat b < 128" | "128 \<le> unat b" "unat b < 192" | "192 \<le> unat b" "unat b < 194" | "194 \<le> unat b" "unat b < 224"
    | "unat b = 224" | "225 \<le> unat b" "unat b < 240" "unat b \<noteq> 237" | "unat b = 237" | "unat b = 240"
    | "241 \<le> unat b" "unat b < 244" | "unat b = 244" | "245 \<le> unat b" "unat b < 248" | "248 \<le> unat b" by linarith
  then show ?thesis
    using cs by cases (elim disjE exE; simp add: defs)+
qed

definition legal_char :: "bytes \<Rightarrow> bool" where
  "legal_char c \<longleftrightarrow> c \<noteq> [] \<and> utf8_accepts (utf8_next U_BGN (unat (c ! 0))) (map unat (tl c))"

inductive utf8_valid :: "bytes \<Rightarrow> bool" where
  utf8_valid_Nil: "utf8_valid []"
| utf8_valid_char: "legal_char c \<Longrightarrow> utf8_valid s \<Longrightarrow> utf8_valid (c @ s)"

lemma utf8_next_state: "utf8_next st n \<in> set utf8_state_list"
  by (auto simp: utf8_next_def utf8_state_list_def)

lemma need_next:
  assumes "st \<in> set utf8_state_list" "st \<noteq> U_BGN" "utf8_next st n \<noteq> U_ERR"
  shows "utf8_need st = Suc (utf8_need (utf8_next st n))" "128 \<le> n" "n < 192"
  using assms by (auto simp: utf8_state_list_def utf8_next_values utf8_need_values split: if_splits)

lemma accepts_need:
  assumes "utf8_accepts st ns" "st \<in> set utf8_state_list"
  shows "length ns = utf8_need st"
  using assms
proof (induction ns arbitrary: st)
  case (Cons n ns)
  then have "utf8_next st n \<noteq> U_ERR" by (metis utf8_accepts.simps(2) utf8_accepts_err)
  with Cons need_next [of st n] utf8_next_state show ?case by simp
qed (simp add: utf8_need_values)

lemma legal_char_length:
  assumes "legal_char c"
  shows "length c = Suc (utf8_need (utf8_next U_BGN (unat (c ! 0))))"
  using accepts_need [OF _ utf8_next_state, of U_BGN "unat (c ! 0)" "map unat (tl c)"] assms
  by (cases c) (auto simp: legal_char_def)

lemma char_at_legal:
  assumes "s \<noteq> []"
  shows "utf8_char_at s \<longleftrightarrow> (\<exists>c r. s = c @ r \<and> legal_char c)"
proof
  let ?l = "Suc (utf8_need (utf8_next U_BGN (unat (s ! 0))))"
  assume c: "utf8_char_at s"
  then have "legal_char (take ?l s)"
    using assms by (cases s) (auto simp: utf8_char_at_def legal_char_def Let_def)
  then show "\<exists>c r. s = c @ r \<and> legal_char c" by (metis append_take_drop_id)
next
  assume "\<exists>c r. s = c @ r \<and> legal_char c"
  then obtain c r where c: "s = c @ r" "legal_char c" by blast
  then have "s ! 0 = c ! 0" "c \<noteq> []" by (auto simp: legal_char_def nth_append)
  moreover from this c legal_char_length [OF c(2)]
  have "take (utf8_need (utf8_next U_BGN (unat (s ! 0)))) (tl s) = tl c" by (cases c) auto
  ultimately show "utf8_char_at s" using c legal_char_length [OF c(2)]
    by (auto simp: utf8_char_at_def legal_char_def Let_def)
qed

lemma slow_char:
  assumes "legal_char c"
  shows "utf8_slow (c @ s) = length c + utf8_slow s"
proof -
  have ne: "c @ s \<noteq> []" "(c @ s) ! 0 = c ! 0" "c \<noteq> []" using assms by (auto simp: legal_char_def nth_append)
  have at: "utf8_char_at (c @ s)" using assms char_at_legal [OF ne(1)] by blast
  have v: "pg_utf8_verifychar (c @ s) = Some (length c)"
    using verifychar_accepts [OF ne(1)] at legal_char_length [OF assms] ne(2) by simp
  show ?thesis
  proof (cases "unat (c ! 0) < 128")
    case True
    with assms have "unat (c ! 0) \<noteq> 0" "length c = 1"
      using legal_char_length [OF assms] by (auto simp: legal_char_def utf8_next_begin utf8_need_values split: if_splits)
    then show ?thesis using True ne by (subst utf8_slow.simps) (simp add: byte_masks unat_eq_0)
  next
    case False
    then show ?thesis using ne v by (subst utf8_slow.simps) (simp add: byte_masks)
  qed
qed

lemma slow_stop:
  assumes "s = [] \<or> \<not> utf8_char_at s"
  shows "utf8_slow s = 0"
proof (cases "s = []")
  case False
  with assms have at: "\<not> utf8_char_at s" by simp
  then have v: "pg_utf8_verifychar s = None" using verifychar_accepts [OF False] by simp
  have "s ! 0 = 0" if "unat (s ! 0) < 128"
    using at that False by (auto simp: utf8_char_at_def Let_def utf8_next_begin utf8_need_values unat_eq_0 split: if_splits)
      (metis Suc_leI length_greater_0_conv)+
  then show ?thesis using False v by (subst utf8_slow.simps) (simp add: byte_masks)
qed (simp add: utf8_slow.simps)

lemma utf8_valid_append: "utf8_valid v \<Longrightarrow> utf8_valid w \<Longrightarrow> utf8_valid (v @ w)"
  by (induction rule: utf8_valid.induct) (auto intro: utf8_valid.intros)

lemma utf8_valid_single: "legal_char c \<Longrightarrow> utf8_valid c"
  using utf8_valid_char [OF _ utf8_valid_Nil] by simp

lemma slow_valid: "utf8_valid v \<Longrightarrow> utf8_slow (v @ s) = length v + utf8_slow s"
  by (induction rule: utf8_valid.induct) (simp_all add: slow_char)

lemma slow_prefix: "utf8_slow s \<le> length s \<and> utf8_valid (take (utf8_slow s) s)"
proof (induction "length s" arbitrary: s rule: less_induct)
  case less
  show ?case
  proof (cases "s = [] \<or> \<not> utf8_char_at s")
    case True
    then show ?thesis by (simp add: slow_stop utf8_valid_Nil)
  next
    case False
    then obtain c r where c: "s = c @ r" "legal_char c" using char_at_legal by blast
    then have "length r < length s" by (auto simp: legal_char_def)
    from less [OF this] c show ?thesis by (auto simp: slow_char intro: utf8_valid_char)
  qed
qed

section \<open>The fast path\<close>

definition utf8_run :: "bytes \<Rightarrow> 32 word \<Rightarrow> 32 word" where
  "utf8_run s st = fold (\<lambda>b st. utf8_next st (unat b)) s st"

lemma state_mask: "st \<in> set utf8_state_list \<Longrightarrow> st AND 31 = st"
  by (auto simp: utf8_state_list_def utf8_states)

lemma utf8_run_state: "st \<in> set utf8_state_list \<Longrightarrow> utf8_run s st \<in> set utf8_state_list"
  by (cases s rule: rev_cases) (simp_all add: utf8_run_def utf8_next_state)

lemma utf8_advance_run:
  assumes "st \<in> set utf8_state_list"
  shows "utf8_advance s st = utf8_run s st"
proof -
  let ?f = "\<lambda>b st. drop_bit (unat (st AND 31)) (Utf8Transition ! unat b)"
  have "fold ?f s x AND 31 = utf8_run s (x AND 31)" if "x AND 31 \<in> set utf8_state_list" for x
    using that
  proof (induction s arbitrary: x)
    case (Cons b s)
    have "?f b x AND 31 = utf8_step (x AND 31) (unat b)" by (simp add: utf8_step_def)
    also have "\<dots> = utf8_next (x AND 31) (unat b)" by (rule utf8_step_next [OF Cons.prems unat_byte])
    finally have n: "?f b x AND 31 = utf8_next (x AND 31) (unat b)" .
    from Cons.IH [of "?f b x"] show ?case unfolding n by (simp add: utf8_next_state utf8_run_def)
  qed (simp add: utf8_run_def)
  from this [of st] show ?thesis using assms by (simp add: utf8_advance_def state_mask)
qed

lemma mblen_lead:
  "194 \<le> unat b \<Longrightarrow> unat b < 245 \<Longrightarrow> 1 < pg_utf_mblen b"
  "128 \<le> unat b \<Longrightarrow> unat b < 192 \<Longrightarrow> pg_utf_mblen b = 1"
  by (auto simp: pg_utf_mblen_def byte_masks)

text \<open>
  What the state says about the bytes read: whole characters, followed, unless the state is the
  initial one, by the beginning of a character that any continuation the state accepts completes.
\<close>

definition utf8_open :: "32 word \<Rightarrow> bytes \<Rightarrow> bool" where
  "utf8_open st q \<longleftrightarrow> q \<noteq> [] \<and> 1 < pg_utf_mblen (q ! 0) \<and> (\<forall>b \<in> set (tl q). pg_utf_mblen b = 1)
     \<and> (\<forall>bs. utf8_accepts st (map unat bs) \<longrightarrow> legal_char (q @ bs))"

lemma utf8_run_split:
  assumes "utf8_run p U_BGN \<noteq> U_ERR"
  shows "\<exists>v q. p = v @ q \<and> utf8_valid v \<and> (if utf8_run p U_BGN = U_BGN then q = [] else utf8_open (utf8_run p U_BGN) q)"
  using assms
proof (induction p rule: rev_induct)
  case Nil
  then show ?case by (simp add: utf8_run_def utf8_valid_Nil)
next
  case (snoc b p)
  let ?st = "utf8_run p U_BGN" and ?st' = "utf8_run (p @ [b]) U_BGN"
  have st': "?st' = utf8_next ?st (unat b)" by (simp add: utf8_run_def)
  have "?st \<noteq> U_ERR" using snoc.prems st' by (auto simp: utf8_next_values)
  then obtain v q where vq: "p = v @ q" "utf8_valid v" "if ?st = U_BGN then q = [] else utf8_open ?st q" using snoc.IH by blast
  show ?case
  proof (cases "?st = U_BGN")
    case True
    have b: "utf8_accepts ?st' (map unat bs) \<Longrightarrow> legal_char ([b] @ bs)" for bs using st' True by (simp add: legal_char_def)
    show ?thesis
    proof (cases "?st' = U_BGN")
      case b1: True
      then have "legal_char [b]" using b [of "[]"] by simp
      then have "utf8_valid (v @ [b])" using vq by (blast intro: utf8_valid_append utf8_valid_single)
      then show ?thesis using vq True b1 by (intro exI [of _ "v @ [b]"] exI [of _ "[]"]) simp
    next
      case b2: False
      then have "1 < pg_utf_mblen b" using st' True snoc.prems
        by (intro mblen_lead) (auto simp: utf8_next_begin split: if_splits)
      then have "utf8_open ?st' [b]" using b by (simp add: utf8_open_def)
      then show ?thesis using vq True b2 by (intro exI [of _ v] exI [of _ "[b]"]) simp
    qed
  next
    case False
    have "?st \<in> set utf8_state_list" by (rule utf8_run_state) (simp add: utf8_state_list_def)
    then have m: "pg_utf_mblen b = 1" using need_next(2,3) [OF _ False] snoc.prems st' by (intro mblen_lead) auto
    have q: "utf8_open ?st q" using vq False by simp
    have b: "legal_char ((q @ [b]) @ bs)" if "utf8_accepts ?st' (map unat bs)" for bs
      using q that st' False by (simp add: utf8_open_def)
    show ?thesis
    proof (cases "?st' = U_BGN")
      case b1: True
      then have "legal_char (q @ [b])" using b [of "[]"] by simp
      then have "utf8_valid (v @ q @ [b])" using vq by (blast intro: utf8_valid_append utf8_valid_single)
      then show ?thesis using vq b1 by (intro exI [of _ "v @ q @ [b]"] exI [of _ "[]"]) simp
    next
      case b2: False
      have "utf8_open ?st' (q @ [b])" using q m b by (auto simp: utf8_open_def nth_append tl_append split: list.splits)
      then show ?thesis using vq b2 by (intro exI [of _ v] exI [of _ "q @ [b]"]) simp
    qed
  qed
qed

text \<open>Chunks of ASCII characters leave the initial state.\<close>

lemma highbit_or: "(x OR y) AND 0x80 \<noteq> 0 \<longleftrightarrow> x AND 0x80 \<noteq> 0 \<or> y AND 0x80 \<noteq> 0" for x y :: byte
proof -
  have "z AND 0x80 \<noteq> 0 \<longleftrightarrow> bit z 7" for z :: byte using and_exp_eq_0_iff_not_bit [of z 7] by simp
  then show ?thesis by (simp add: bit_or_iff)
qed

lemma list_ex_map2_or:
  "length xs = length ys \<Longrightarrow> list_ex (\<lambda>b. b AND 0x80 \<noteq> 0) (map2 (OR) xs ys) \<longleftrightarrow>
     list_ex (\<lambda>b. b AND 0x80 \<noteq> 0) xs \<or> list_ex (\<lambda>b. b AND 0x80 \<noteq> (0 :: byte)) ys"
  by (induction xs ys rule: list_induct2) (auto simp: highbit_or)

lemma ascii_cum_highbit:
  assumes "\<forall>c \<in> set cs. length c = length acc"
  shows "list_ex (\<lambda>b. b AND 0x80 \<noteq> 0) (ascii_cum acc cs) \<longleftrightarrow>
    list_ex (\<lambda>b. b AND 0x80 \<noteq> 0) acc \<or> (\<exists>c \<in> set cs. \<exists>b \<in> set c. b = 0 \<or> b AND 0x80 \<noteq> 0)"
  using assms
proof (induction cs arbitrary: acc)
  case (Cons c cs)
  have "list_ex (\<lambda>b. b AND 0x80 \<noteq> 0) (map (\<lambda>b. if b = 0 then 0xFF else 0 :: byte) c) \<longleftrightarrow> (\<exists>b \<in> set c. b = 0)"
    by (auto simp: list_ex_iff)
  with Cons show ?case by (auto simp: Let_def list_ex_map2_or) (auto simp: list_ex_iff)
qed simp

lemma valid_ascii_bytes:
  assumes "length s = 32" "is_valid_ascii s"
  shows "\<forall>b \<in> set s. 0 < unat b \<and> unat b < 128"
proof -
  have s: "s = take 16 s @ take 16 (drop 16 s)" using assms(1) by (simp flip: take_add)
  have "\<not> list_ex (\<lambda>b. b AND 0x80 \<noteq> 0) (ascii_cum (replicate 16 0) [take 16 s, take 16 (drop 16 s)])"
    using assms by (simp add: is_valid_ascii_def upt_rec [of _ "numeral k" for k] del: ascii_cum.simps)
  then have "\<forall>b \<in> set (take 16 s) \<union> set (take 16 (drop 16 s)). b \<noteq> 0 \<and> b AND 0x80 = 0"
    using assms(1) by (subst (asm) ascii_cum_highbit) auto
  then have "\<forall>b \<in> set s. b \<noteq> 0 \<and> b AND 0x80 = 0" by (subst s) auto
  then show ?thesis by (auto simp: byte_masks unat_gt_0)
qed

lemma run_ascii: "\<forall>b \<in> set s. 0 < unat b \<and> unat b < 128 \<Longrightarrow> utf8_run s U_BGN = U_BGN"
  by (induction s) (auto simp: utf8_run_def utf8_next_begin)

lemma strides_run:
  assumes "i \<le> length s" "st = utf8_run (take i s) U_BGN" "utf8_strides s i st = (j, st')"
  shows "j \<le> length s \<and> st' = utf8_run (take j s) U_BGN"
  using assms
proof (induction s i st rule: utf8_strides.induct)
  case (1 s i st)
  show ?case
  proof (cases "i + STRIDE_LENGTH \<le> length s")
    case True
    define chunk where "chunk = take STRIDE_LENGTH (drop i s)"
    have l: "length chunk = 32" using True by (simp add: chunk_def STRIDE_LENGTH_def)
    have t: "take (i + STRIDE_LENGTH) s = take i s @ chunk" by (simp add: take_add chunk_def)
    have "st \<in> set utf8_state_list" unfolding "1.prems"(2) by (rule utf8_run_state) (simp add: utf8_state_list_def)
    then have "(if st \<noteq> U_END \<or> \<not> is_valid_ascii chunk then utf8_advance chunk st else st) = utf8_run chunk st"
      using valid_ascii_bytes [OF l] run_ascii [of chunk] by (auto simp: utf8_advance_run)
    also have "\<dots> = utf8_run (take (i + STRIDE_LENGTH) s) U_BGN"
      unfolding t "1.prems"(2) by (simp add: utf8_run_def)
    finally have r: "(if st \<noteq> U_END \<or> \<not> is_valid_ascii chunk then utf8_advance chunk st else st) =
      utf8_run (take (i + STRIDE_LENGTH) s) U_BGN" .
    have "utf8_strides s (i + STRIDE_LENGTH) (utf8_run (take (i + STRIDE_LENGTH) s) U_BGN) = (j, st')"
      using "1.prems"(3) True unfolding utf8_strides.simps [of s i st] Let_def chunk_def [symmetric] r by simp
    then show ?thesis using "1.IH" [OF True chunk_def] True unfolding r by simp
  next
    case False
    then show ?thesis using "1.prems" by (auto simp: utf8_strides.simps)
  qed
qed

lemma backtrack_open:
  assumes "1 < pg_utf_mblen b" "\<forall>a \<in> set bs. pg_utf_mblen a = 1"
  shows "utf8_backtrack (v @ b # bs @ r) (length v + Suc (length bs)) = Some (length v)"
  using assms
proof (induction bs arbitrary: r rule: rev_induct)
  case (snoc a bs)
  then show ?case using snoc.IH [of "a # r"] by (simp add: nth_append)
qed simp

lemma verifystr_slow: "pg_utf8_verifystr s = Some (utf8_slow s)"
proof (cases "STRIDE_LENGTH \<le> length s")
  case True
  obtain j st where js: "utf8_strides s 0 U_BGN = (j, st)" by force
  have j: "j \<le> length s" "st = utf8_run (take j s) U_BGN"
    using strides_run [OF _ _ js] by (simp_all add: utf8_run_def)
  show ?thesis
  proof (cases "st = U_ERR")
    case False
    then obtain v q where v: "take j s = v @ q" "utf8_valid v" "if st = U_BGN then q = [] else utf8_open st q"
      using utf8_run_split [of "take j s"] j by blast
    have s: "s = v @ q @ drop j s" using v(1) by (metis append.assoc append_take_drop_id)
    have l: "j = length v + length q" using v(1) j(1) by (metis length_append length_take min.absorb2)
    have "(if st \<noteq> U_END then utf8_backtrack s j else Some j) = Some (length v)"
    proof (cases q)
      case (Cons b bs)
      with v(3) have "1 < pg_utf_mblen b" "\<forall>a \<in> set bs. pg_utf_mblen a = 1" "st \<noteq> U_BGN"
        by (auto simp: utf8_open_def split: if_splits)
      moreover have "s = v @ b # bs @ drop j s" "j = length v + Suc (length bs)" using s l Cons by simp_all
      ultimately show ?thesis using backtrack_open [of b bs v "drop j s"] by (metis U_END_def)
    qed (use v(3) l in \<open>simp add: utf8_open_def split: if_splits\<close>)
    moreover have "length v + utf8_slow (drop (length v) s) = utf8_slow s"
      using slow_valid [OF v(2), of "q @ drop j s"] s by (metis append_eq_conv_conj)
    ultimately show ?thesis using True False js by (simp add: pg_utf8_verifystr_def)
  qed (use True js in \<open>simp add: pg_utf8_verifystr_def\<close>)
qed (simp add: pg_utf8_verifystr_def)

lemma slow_longest:
  assumes "utf8_valid v" "s = v @ r"
  shows "length v \<le> utf8_slow s"
  using slow_valid [OF assms(1)] assms(2) by simp

lemma verifystr_valid: "pg_utf8_verifystr s = Some (length s) \<longleftrightarrow> utf8_valid s"
  using slow_valid [of s "[]"] slow_prefix [of s] by (auto simp: verifystr_slow slow_stop)

end
