(* ===== verification/Pg_Unicode.thy ===== *)
theory Pg_Unicode
  imports Pg_Utf8
begin

text \<open>
  The code points behind UTF-8: \<open>unicode_to_utf8\<close> and \<open>utf8_to_unicode\<close> (pg_wchar.h) are inverse on
  the Unicode scalar values, the byte sequences that \<open>pg_utf8_verifychar\<close> accepts are exactly their
  encodings, and \<open>pg_utf8_verifystr\<close> (wchar.c) finds the longest prefix that encodes code points.
\<close>

definition scalar_value :: "32 word \<Rightarrow> bool" where
  "scalar_value c \<longleftrightarrow> is_valid_unicode_codepoint c \<and> \<not> is_utf16_surrogate_first c \<and> \<not> is_utf16_surrogate_second c"

lemma scalar_value_nat:
  "scalar_value c \<longleftrightarrow> 0 < unat c \<and> unat c \<le> 1114111 \<and> (unat c < 55296 \<or> 57343 < unat c)"
  by (auto simp: scalar_value_def is_valid_unicode_codepoint_def is_utf16_surrogate_first_def
      is_utf16_surrogate_second_def word_le_nat_alt word_less_nat_alt)

section \<open>Code points and bytes as numbers\<close>

lemma low_bits: "x AND mask j = of_nat (unat x mod 2 ^ j)" for x :: "'a::len word"
proof -
  have "x AND mask j = take_bit j (of_nat (unat x))" by (simp add: take_bit_eq_mask)
  then show ?thesis by (simp only: take_bit_of_nat take_bit_nat_def)
qed

lemma byte_of_nat: "m < 256 \<Longrightarrow> unat (ucast (of_nat m :: 32 word) :: byte) = m"
  by (simp add: unsigned_ucast_eq unsigned_of_nat take_bit_nat_eq_self)

lemma encoded_byte:
  assumes "h * 2 ^ j + 2 ^ j \<le> 256"
  shows "unat (ucast (of_nat (h * 2 ^ j) OR (x AND mask j) :: 32 word) :: byte) = h * 2 ^ j + unat x mod 2 ^ j"
proof -
  have "unat x mod 2 ^ j < 2 ^ j" by simp
  then have "h * 2 ^ j + unat x mod 2 ^ j < 256" using assms by linarith
  then show ?thesis unfolding low_bits or_of_nat_disjoint [OF \<open>unat x mod 2 ^ j < 2 ^ j\<close>] by (rule byte_of_nat)
qed

lemma encoded_bytes:
  "unat (ucast (0x80 OR (x AND 0x3F)) :: byte) = 128 + unat x mod 64"
  "unat (ucast (0xC0 OR (x AND 0x1F)) :: byte) = 192 + unat x mod 32"
  "unat (ucast (0xE0 OR (x AND 0x0F)) :: byte) = 224 + unat x mod 16"
  "unat (ucast (0xF0 OR (x AND 0x07)) :: byte) = 240 + unat x mod 8"
  for x :: "32 word"
  using encoded_byte [of 2 6 x] encoded_byte [of 6 5 x] encoded_byte [of 14 4 x] encoded_byte [of 30 3 x]
  by (simp_all add: mask_eq_exp_minus_1)

lemma unat_shift: "unat (drop_bit k x) = unat x div 2 ^ k" for x :: "32 word"
  by (simp only: unat_drop_bit_eq drop_bit_nat_def)

definition utf8_digits :: "nat \<Rightarrow> nat list" where
  "utf8_digits n =
     (if n < 128 then [n]
      else if n < 2048 then [192 + n div 64, 128 + n mod 64]
      else if n < 65536 then [224 + n div 4096, 128 + n div 64 mod 64, 128 + n mod 64]
      else [240 + n div 262144 mod 8, 128 + n div 4096 mod 64, 128 + n div 64 mod 64, 128 + n mod 64])"

lemma unicode_to_utf8_digits: "map unat (unicode_to_utf8 c) = utf8_digits (unat c)"
proof -
  have b: "unat (ucast c :: byte) = unat c" if "unat c < 128"
    using that by (simp add: unsigned_ucast_eq take_bit_nat_eq_self)
  have d: "unat c div 64 mod 32 = unat c div 64" if "unat c < 2048"
    using that by (intro mod_less) (simp add: div_less_iff_less_mult)
  have e: "unat c div 4096 mod 16 = unat c div 4096" if "unat c < 65536"
    using that by (intro mod_less) (simp add: div_less_iff_less_mult)
  show ?thesis
    by (auto simp: unicode_to_utf8_def utf8_digits_def encoded_bytes unat_shift word_le_nat_alt b d e)
qed

section \<open>Legal characters encode scalar values\<close>

lemma digits_accepted:
  assumes "0 < n" "n \<le> 1114111" "n < 55296 \<or> 57343 < n"
  shows "utf8_digits n \<noteq> [] \<and> utf8_accepts (utf8_next U_BGN (utf8_digits n ! 0)) (tl (utf8_digits n))"
proof -
  have c: "128 \<le> 128 + k mod 64" "128 + k mod 64 < 192" for k :: nat by simp_all
  consider "n < 128" | "128 \<le> n" "n < 2048" | "2048 \<le> n" "n < 65536" | "65536 \<le> n" by linarith
  then show ?thesis
  proof cases
    case 2
    then have "2 \<le> n div 64" "n div 64 < 32" by (simp_all add: div_less_iff_less_mult less_eq_div_iff_mult_less_eq)
    then show ?thesis using 2 by (simp add: utf8_digits_def utf8_next_begin utf8_next_values)
  next
    case 3
    let ?a = "n div 4096" and ?b = "n div 64 mod 64"
    have a: "?a < 16" using 3 by (simp add: div_less_iff_less_mult)
    have "n div 64 = 64 * ?a + ?b" using div_mult2_eq [of n 64 64] by simp
    then have "?a = 0 \<Longrightarrow> 32 \<le> ?b" "?a = 13 \<Longrightarrow> ?b < 32"
      using 3 assms(3) less_eq_div_iff_mult_less_eq [of 64 32 n] div_less_iff_less_mult [of 64 n 864] by auto
    then show ?thesis using 3 a
      by (auto simp: utf8_digits_def utf8_next_begin utf8_next_values c)
  next
    case 4
    let ?a = "n div 262144" and ?b = "n div 4096 mod 64"
    have a: "?a < 5" using assms(2) by (simp add: div_less_iff_less_mult)
    have "n div 4096 = 64 * ?a + ?b" using div_mult2_eq [of n 4096 64] by simp
    then have "?a = 0 \<Longrightarrow> 16 \<le> ?b" "?a = 4 \<Longrightarrow> ?b < 16"
      using 4 assms(2) less_eq_div_iff_mult_less_eq [of 4096 16 n] div_less_iff_less_mult [of 4096 n 272] by auto
    then show ?thesis using 4 a
      by (auto simp: utf8_digits_def utf8_next_begin utf8_next_values c)
  qed (use assms in \<open>simp add: utf8_digits_def utf8_next_begin\<close>)
qed

lemma encoded_legal:
  assumes "scalar_value c"
  shows "legal_char (unicode_to_utf8 c)"
  using digits_accepted [of "unat c"] assms unicode_to_utf8_digits [of c, symmetric]
  by (cases "unicode_to_utf8 c") (auto simp: legal_char_def scalar_value_nat)

lemma accepts_iff:
  "utf8_accepts U_CS1 ns \<longleftrightarrow> (\<exists>x. ns = [x] \<and> 128 \<le> x \<and> x < 192)"
  "utf8_accepts U_CS2 ns \<longleftrightarrow> (\<exists>x y. ns = [x, y] \<and> 128 \<le> x \<and> x < 192 \<and> 128 \<le> y \<and> y < 192)"
  "utf8_accepts U_CS3 ns \<longleftrightarrow> (\<exists>x y z. ns = [x, y, z] \<and> 128 \<le> x \<and> x < 192 \<and> 128 \<le> y \<and> y < 192 \<and> 128 \<le> z \<and> z < 192)"
  "utf8_accepts U_P3A ns \<longleftrightarrow> (\<exists>x y. ns = [x, y] \<and> 160 \<le> x \<and> x < 192 \<and> 128 \<le> y \<and> y < 192)"
  "utf8_accepts U_P3B ns \<longleftrightarrow> (\<exists>x y. ns = [x, y] \<and> 128 \<le> x \<and> x < 160 \<and> 128 \<le> y \<and> y < 192)"
  "utf8_accepts U_P4A ns \<longleftrightarrow> (\<exists>x y z. ns = [x, y, z] \<and> 144 \<le> x \<and> x < 192 \<and> 128 \<le> y \<and> y < 192 \<and> 128 \<le> z \<and> z < 192)"
  "utf8_accepts U_P4B ns \<longleftrightarrow> (\<exists>x y z. ns = [x, y, z] \<and> 128 \<le> x \<and> x < 144 \<and> 128 \<le> y \<and> y < 192 \<and> 128 \<le> z \<and> z < 192)"
proof -
  have 1: "utf8_accepts U_CS1 ns \<longleftrightarrow> (\<exists>x. ns = [x] \<and> 128 \<le> x \<and> x < 192)" for ns
    by (cases ns) (auto simp: utf8_next_values)
  have 2: "utf8_accepts U_CS2 ns \<longleftrightarrow> (\<exists>x y. ns = [x, y] \<and> 128 \<le> x \<and> x < 192 \<and> 128 \<le> y \<and> y < 192)" for ns
    by (cases ns) (auto simp: utf8_next_values 1)
  show "utf8_accepts U_CS1 ns \<longleftrightarrow> (\<exists>x. ns = [x] \<and> 128 \<le> x \<and> x < 192)"
    "utf8_accepts U_CS2 ns \<longleftrightarrow> (\<exists>x y. ns = [x, y] \<and> 128 \<le> x \<and> x < 192 \<and> 128 \<le> y \<and> y < 192)" by (rule 1, rule 2)
  show "utf8_accepts U_CS3 ns \<longleftrightarrow> (\<exists>x y z. ns = [x, y, z] \<and> 128 \<le> x \<and> x < 192 \<and> 128 \<le> y \<and> y < 192 \<and> 128 \<le> z \<and> z < 192)"
    "utf8_accepts U_P3A ns \<longleftrightarrow> (\<exists>x y. ns = [x, y] \<and> 160 \<le> x \<and> x < 192 \<and> 128 \<le> y \<and> y < 192)"
    "utf8_accepts U_P3B ns \<longleftrightarrow> (\<exists>x y. ns = [x, y] \<and> 128 \<le> x \<and> x < 160 \<and> 128 \<le> y \<and> y < 192)"
    "utf8_accepts U_P4A ns \<longleftrightarrow> (\<exists>x y z. ns = [x, y, z] \<and> 144 \<le> x \<and> x < 192 \<and> 128 \<le> y \<and> y < 192 \<and> 128 \<le> z \<and> z < 192)"
    "utf8_accepts U_P4B ns \<longleftrightarrow> (\<exists>x y z. ns = [x, y, z] \<and> 128 \<le> x \<and> x < 144 \<and> 128 \<le> y \<and> y < 192 \<and> 128 \<le> z \<and> z < 192)"
    by (cases ns; auto simp: utf8_next_values 1 2)+
qed

lemma decoded_bits:
  "(ucast (b AND 0x3f) :: 32 word) = of_nat (unat b mod 64)" "(ucast (b AND 0x1f) :: 32 word) = of_nat (unat b mod 32)"
  "(ucast (b AND 0x0f) :: 32 word) = of_nat (unat b mod 16)" "(ucast (b AND 0x07) :: 32 word) = of_nat (unat b mod 8)"
  for b :: byte
  using low_bits [of b 6] low_bits [of b 5] low_bits [of b 4] low_bits [of b 3] unat_byte [of b]
  by (simp_all add: mask_eq_exp_minus_1 unsigned_of_nat take_bit_nat_eq_self)

lemma push_of_nat: "push_bit k (of_nat n :: 32 word) = of_nat (n * 2 ^ k)"
  by (simp only: push_bit_eq_mult of_nat_mult of_nat_power of_nat_numeral)

lemma join_bits:
  "x < 64 \<Longrightarrow> (of_nat (a * 2 ^ 6) OR of_nat x :: 32 word) = of_nat (a * 64 + x)"
  "x < 4096 \<Longrightarrow> (of_nat (a * 2 ^ 12) OR of_nat x :: 32 word) = of_nat (a * 4096 + x)"
  "x < 262144 \<Longrightarrow> (of_nat (a * 2 ^ 18) OR of_nat x :: 32 word) = of_nat (a * 262144 + x)"
  using or_of_nat_disjoint [of x 6 a] or_of_nat_disjoint [of x 12 a] or_of_nat_disjoint [of x 18 a] by simp_all

lemma decoded_char:
  assumes "c \<noteq> []"
  shows "unat (c ! 0) < 128 \<Longrightarrow> utf8_to_unicode c = of_nat (unat (c ! 0))"
    "192 \<le> unat (c ! 0) \<Longrightarrow> unat (c ! 0) < 224 \<Longrightarrow>
       utf8_to_unicode c = of_nat (unat (c ! 0) mod 32 * 64 + unat (c ! 1) mod 64)"
    "224 \<le> unat (c ! 0) \<Longrightarrow> unat (c ! 0) < 240 \<Longrightarrow>
       utf8_to_unicode c = of_nat (unat (c ! 0) mod 16 * 4096 + (unat (c ! 1) mod 64 * 64 + unat (c ! 2) mod 64))"
    "240 \<le> unat (c ! 0) \<Longrightarrow> unat (c ! 0) < 248 \<Longrightarrow>
       utf8_to_unicode c = of_nat (unat (c ! 0) mod 8 * 262144
         + (unat (c ! 1) mod 64 * 4096 + (unat (c ! 2) mod 64 * 64 + unat (c ! 3) mod 64)))"
proof -
  have l: "a mod 64 * 64 + b mod 64 < 4096" "a mod 64 * 4096 + (b mod 64 * 64 + d mod 64) < 262144" for a b d :: nat
    using mod_less_divisor [of 64 a] mod_less_divisor [of 64 b] mod_less_divisor [of 64 d] by linarith+
  show "unat (c ! 0) < 128 \<Longrightarrow> utf8_to_unicode c = of_nat (unat (c ! 0))"
    by (simp add: utf8_to_unicode_def byte_masks)
  show "192 \<le> unat (c ! 0) \<Longrightarrow> unat (c ! 0) < 224 \<Longrightarrow>
       utf8_to_unicode c = of_nat (unat (c ! 0) mod 32 * 64 + unat (c ! 1) mod 64)"
    by (simp only: utf8_to_unicode_def byte_masks decoded_bits push_of_nat join_bits(1) [OF mod_less_divisor]) simp
  show "224 \<le> unat (c ! 0) \<Longrightarrow> unat (c ! 0) < 240 \<Longrightarrow>
       utf8_to_unicode c = of_nat (unat (c ! 0) mod 16 * 4096 + (unat (c ! 1) mod 64 * 64 + unat (c ! 2) mod 64))"
    unfolding utf8_to_unicode_def byte_masks decoded_bits push_of_nat or.assoc
    by (simp only: join_bits mod_less_divisor zero_less_numeral l) simp
  show "240 \<le> unat (c ! 0) \<Longrightarrow> unat (c ! 0) < 248 \<Longrightarrow>
       utf8_to_unicode c = of_nat (unat (c ! 0) mod 8 * 262144
         + (unat (c ! 1) mod 64 * 4096 + (unat (c ! 2) mod 64 * 64 + unat (c ! 3) mod 64)))"
    unfolding utf8_to_unicode_def byte_masks decoded_bits push_of_nat or.assoc
    by (simp only: join_bits mod_less_divisor zero_less_numeral l) simp
qed

lemma digits_join:
  assumes "p < 32" "q < 64" "r < 64" "t < 64"
  shows "2 \<le> p \<Longrightarrow> utf8_digits (p * 64 + q) = [192 + p, 128 + q]"
    "p < 16 \<Longrightarrow> 32 \<le> 64 * p + q \<Longrightarrow> utf8_digits (p * 4096 + (q * 64 + r)) = [224 + p, 128 + q, 128 + r]"
    "p < 8 \<Longrightarrow> 16 \<le> 64 * p + q \<Longrightarrow>
       utf8_digits (p * 262144 + (q * 4096 + (r * 64 + t))) = [240 + p, 128 + q, 128 + r, 128 + t]"
proof -
  show "utf8_digits (p * 64 + q) = [192 + p, 128 + q]" if "2 \<le> p" using that assms by (simp add: utf8_digits_def)
  have e: "(x * 64 + y) div 64 = x" "(x * 64 + y) mod 64 = y" if "y < 64" for x y :: nat using that by simp_all
  have "p * 4096 + (q * 64 + r) = (p * 64 + q) * 64 + r" by simp
  then have 1: "(p * 4096 + (q * 64 + r)) div 64 = p * 64 + q" "(p * 4096 + (q * 64 + r)) mod 64 = r"
    using assms by (simp_all only: e)
  have 3: "(p * 4096 + (q * 64 + r)) div 4096 = p"
    using div_mult2_eq [of "p * 4096 + (q * 64 + r)" 64 64] 1(1) e(1) [OF assms(2)] by simp
  show "utf8_digits (p * 4096 + (q * 64 + r)) = [224 + p, 128 + q, 128 + r]" if "p < 16" "32 \<le> 64 * p + q"
    using that assms unfolding utf8_digits_def 1 3 by auto
  let ?n = "p * 262144 + (q * 4096 + (r * 64 + t))"
  have "?n = ((p * 64 + q) * 64 + r) * 64 + t" by simp
  then have 2: "?n div 64 = (p * 64 + q) * 64 + r" "?n mod 64 = t" using assms by (simp_all only: e)
  have 4: "?n div 4096 = p * 64 + q" using div_mult2_eq [of ?n 64 64] 2(1) e(1) [OF assms(3)] by simp
  have 5: "?n div 262144 = p" using div_mult2_eq [of ?n 4096 64] 4 e(1) [OF assms(2)] by simp
  show "utf8_digits ?n = [240 + p, 128 + q, 128 + r, 128 + t]" if "p < 8" "16 \<le> 64 * p + q"
    using that assms unfolding utf8_digits_def 2 4 5 e(2) [OF assms(2)] e(2) [OF assms(3)] by auto
qed

lemma cont_split: "128 \<le> x \<Longrightarrow> x < 192 \<Longrightarrow> \<exists>q < 64. x = 128 + q" for x :: nat
  by (intro exI [of _ "x - 128"]) linarith

lemma lead_mod:
  "q < 64 \<Longrightarrow> (128 + q) mod 64 = q" "q < 32 \<Longrightarrow> (192 + q) mod 32 = q" "q < 16 \<Longrightarrow> (224 + q) mod 16 = q"
  "q < 8 \<Longrightarrow> (240 + q) mod 8 = q" for q :: nat
  using mod_mult_self1 [of q 2 64] mod_mult_self1 [of q 6 32] mod_mult_self1 [of q 14 16] mod_mult_self1 [of q 30 8]
  by (simp_all add: add.commute)

lemma code_ranges:
  fixes n :: nat
  assumes "q < 64" "r < 64" "t < 64"
  shows "p < 16 \<Longrightarrow> 32 \<le> 64 * p + q \<Longrightarrow> (p = 13 \<longrightarrow> q < 32) \<Longrightarrow> n = p * 4096 + (q * 64 + r) \<Longrightarrow>
      0 < n \<and> n \<le> 1114111 \<and> (n < 55296 \<or> 57343 < n)"
    "p < 5 \<Longrightarrow> 16 \<le> 64 * p + q \<Longrightarrow> (p = 4 \<longrightarrow> q < 16) \<Longrightarrow> n = p * 262144 + (q * 4096 + (r * 64 + t)) \<Longrightarrow>
      0 < n \<and> n \<le> 1114111 \<and> (n < 55296 \<or> 57343 < n)"
proof -
  assume p: "p < 16" "32 \<le> 64 * p + q" "p = 13 \<longrightarrow> q < 32" "n = p * 4096 + (q * 64 + r)"
  consider "p < 13" | "p = 13" | "14 \<le> p" by linarith
  then show "0 < n \<and> n \<le> 1114111 \<and> (n < 55296 \<or> 57343 < n)" by cases (use p assms in linarith)+
next
  assume p: "p < 5" "16 \<le> 64 * p + q" "p = 4 \<longrightarrow> q < 16" "n = p * 262144 + (q * 4096 + (r * 64 + t))"
  consider "p < 4" | "p = 4" using p(1) by linarith
  then show "0 < n \<and> n \<le> 1114111 \<and> (n < 55296 \<or> 57343 < n)" by cases (use p assms in linarith)+
qed

lemma legal_char_number:
  assumes "legal_char c"
  shows "\<exists>n. utf8_to_unicode c = of_nat n \<and> utf8_digits n = map unat c \<and> 0 < n \<and> n \<le> 1114111 \<and> (n < 55296 \<or> 57343 < n)"
proof -
  obtain b bs where c: "c = b # bs" "utf8_accepts (utf8_next U_BGN (unat b)) (map unat bs)"
    using assms by (cases c) (auto simp: legal_char_def)
  consider "unat b < 128" | "194 \<le> unat b" "unat b < 224" | "224 \<le> unat b" "unat b < 240" | "240 \<le> unat b" "unat b < 245"
    using c(2) by (cases "unat b < 194"; cases "245 \<le> unat b") (auto simp: utf8_next_begin split: if_splits)
  then show ?thesis
  proof cases
    case 1
    then have "unat b \<noteq> 0" "bs = []" using c(2) by (auto simp: utf8_next_begin split: if_splits)
    then show ?thesis using 1 c(1) decoded_char(1) [of c] by (intro exI [of _ "unat b"]) (simp add: utf8_digits_def)
  next
    case 2
    then obtain x where x: "map unat bs = [x]" "128 \<le> x" "x < 192" using c(2) by (auto simp: utf8_next_begin accepts_iff)
    obtain p where p: "unat b = 192 + p" "p < 32" "2 \<le> p" using 2 by (auto simp: le_iff_add)
    from x cont_split obtain q where q: "x = 128 + q" "q < 64" by blast
    have "utf8_to_unicode c = of_nat (p * 64 + q)"
      using decoded_char(2) [of c] c(1) x p q by (auto simp: lead_mod simp del: of_nat_add of_nat_mult)
    then show ?thesis using c(1) x p q by (intro exI [of _ "p * 64 + q"]) (simp add: digits_join)
  next
    case 3
    then obtain x y where xy: "map unat bs = [x, y]" "128 \<le> x" "x < 192" "128 \<le> y" "y < 192"
        "unat b = 224 \<longrightarrow> 160 \<le> x" "unat b = 237 \<longrightarrow> x < 160"
      using c(2) by (auto simp: utf8_next_begin accepts_iff split: if_splits)
    obtain p where p: "unat b = 224 + p" "p < 16" using 3 by (auto simp: le_iff_add)
    from xy cont_split obtain q r where q: "x = 128 + q" "q < 64" "y = 128 + r" "r < 64" by blast
    let ?n = "p * 4096 + (q * 64 + r)"
    have u: "utf8_to_unicode c = of_nat ?n"
      using decoded_char(3) [of c] c(1) xy p q by (auto simp: lead_mod simp del: of_nat_add of_nat_mult)
    have g: "32 \<le> 64 * p + q" "p = 13 \<longrightarrow> q < 32" using xy p q by (cases "p = 0"; simp)+
    have d: "utf8_digits ?n = map unat c" using digits_join(2) [of p q r 0] c(1) xy p q g by simp
    show ?thesis by (rule exI [of _ ?n], rule conjI [OF u conjI [OF d code_ranges(1) [OF q(2) q(4) q(2) p(2) g refl]]])
  next
    case 4
    then obtain x y z where xy: "map unat bs = [x, y, z]" "128 \<le> x" "x < 192" "128 \<le> y" "y < 192" "128 \<le> z" "z < 192"
        "unat b = 240 \<longrightarrow> 144 \<le> x" "unat b = 244 \<longrightarrow> x < 144"
      using c(2) by (auto simp: utf8_next_begin accepts_iff split: if_splits)
    obtain p where p: "unat b = 240 + p" "p < 5" using 4 by (auto simp: le_iff_add)
    from xy cont_split obtain q r t where q: "x = 128 + q" "q < 64" "y = 128 + r" "r < 64" "z = 128 + t" "t < 64" by blast
    let ?n = "p * 262144 + (q * 4096 + (r * 64 + t))"
    have u: "utf8_to_unicode c = of_nat ?n"
      using decoded_char(4) [of c] c(1) xy p q by (auto simp: lead_mod simp del: of_nat_add of_nat_mult)
    have g: "16 \<le> 64 * p + q" "p = 4 \<longrightarrow> q < 16" using xy p q by (cases "p = 0"; simp)+
    have d: "utf8_digits ?n = map unat c" using digits_join(3) [of p q r t] c(1) xy p q g by simp
    show ?thesis by (rule exI [of _ ?n], rule conjI [OF u conjI [OF d code_ranges(2) [OF q(2) q(4) q(6) p(2) g refl]]])
  qed
qed

lemma legal_decode:
  assumes "legal_char c"
  shows "scalar_value (utf8_to_unicode c)" "unicode_to_utf8 (utf8_to_unicode c) = c"
proof -
  obtain n where n: "utf8_to_unicode c = of_nat n" "utf8_digits n = map unat c" "0 < n" "n \<le> 1114111" "n < 55296 \<or> 57343 < n"
    using legal_char_number [OF assms] by blast
  have u: "unat (utf8_to_unicode c) = n" using n by (simp add: unsigned_of_nat take_bit_nat_eq_self)
  show "scalar_value (utf8_to_unicode c)" using n u by (simp add: scalar_value_nat)
  have "map unat (unicode_to_utf8 (utf8_to_unicode c)) = map unat c" using n u by (simp add: unicode_to_utf8_digits)
  then show "unicode_to_utf8 (utf8_to_unicode c) = c" by (rule map_injective) (simp add: inj_def word_unat_eq_iff)
qed

lemma digits_inject:
  assumes "n \<le> 1114111" "m \<le> 1114111" "utf8_digits n = utf8_digits m"
  shows "n = m"
proof -
  have d: "x = x div 262144 * 262144 + (x div 4096 mod 64 * 4096 + (x div 64 mod 64 * 64 + x mod 64))"
    "x = x div 4096 * 4096 + (x div 64 mod 64 * 64 + x mod 64)" "x = x div 64 * 64 + x mod 64" for x :: nat
  proof -
    have e: "x div 64 div 64 = x div 4096" "x div 4096 div 64 = x div 262144"
      using div_mult2_eq [of x 64 64] div_mult2_eq [of x 4096 64] by simp_all
    note e = div_mod_decomp [of x 64] div_mod_decomp [of "x div 64" 64, unfolded e] div_mod_decomp [of "x div 4096" 64, unfolded e]
    then show "x = x div 262144 * 262144 + (x div 4096 mod 64 * 4096 + (x div 64 mod 64 * 64 + x mod 64))"
      "x = x div 4096 * 4096 + (x div 64 mod 64 * 64 + x mod 64)" "x = x div 64 * 64 + x mod 64" by linarith+
  qed
  have m: "x div 262144 mod 8 = x div 262144" if "x \<le> 1114111" for x :: nat
    using that by (intro mod_less) (simp add: div_less_iff_less_mult)
  have l: "length (utf8_digits x) = (if x < 128 then 1 else if x < 2048 then 2 else if x < 65536 then 3 else 4)" for x
    by (simp add: utf8_digits_def)
  have "n = m \<or> n div 64 = m div 64 \<and> n mod 64 = m mod 64
      \<or> n div 4096 = m div 4096 \<and> n div 64 mod 64 = m div 64 mod 64 \<and> n mod 64 = m mod 64
      \<or> n div 262144 = m div 262144 \<and> n div 4096 mod 64 = m div 4096 mod 64 \<and> n div 64 mod 64 = m div 64 mod 64 \<and> n mod 64 = m mod 64"
    using arg_cong [OF assms(3), of length] assms(3) m [OF assms(1)] m [OF assms(2)]
    unfolding l by (simp add: utf8_digits_def split: if_splits)
  then show ?thesis using d [of n] d [of m] by (elim disjE conjE) linarith+
qed

lemma decoded_encoding:
  assumes "scalar_value c"
  shows "utf8_to_unicode (unicode_to_utf8 c) = c"
proof -
  obtain n where n: "utf8_to_unicode (unicode_to_utf8 c) = of_nat n" "utf8_digits n = utf8_digits (unat c)" "n \<le> 1114111"
    using legal_char_number [OF encoded_legal [OF assms]] unfolding unicode_to_utf8_digits by blast
  then have "n = unat c" using assms by (intro digits_inject) (simp_all add: scalar_value_nat)
  then show ?thesis using n(1) by simp
qed

lemma utf8_valid_encoded: "utf8_valid s \<longleftrightarrow> (\<exists>cs. list_all scalar_value cs \<and> s = concat (map unicode_to_utf8 cs))"
proof
  assume "utf8_valid s"
  then show "\<exists>cs. list_all scalar_value cs \<and> s = concat (map unicode_to_utf8 cs)"
  proof induction
    case (utf8_valid_char c s)
    then obtain cs where "list_all scalar_value cs" "s = concat (map unicode_to_utf8 cs)" by blast
    then show ?case using legal_decode [OF utf8_valid_char(1)] by (intro exI [of _ "utf8_to_unicode c # cs"]) simp
  qed (simp add: exI [of _ "[]"])
next
  assume "\<exists>cs. list_all scalar_value cs \<and> s = concat (map unicode_to_utf8 cs)"
  then obtain cs where "list_all scalar_value cs" "s = concat (map unicode_to_utf8 cs)" by blast
  then show "utf8_valid s"
    by (induction cs arbitrary: s) (auto intro: utf8_valid.intros encoded_legal)
qed

section \<open>Whole strings\<close>

lemma encoded_mblen:
  assumes "scalar_value c"
  shows "pg_utf_mblen (unicode_to_utf8 c ! 0) = unicode_utf8len c" "length (unicode_to_utf8 c) = unicode_utf8len c"
proof -
  show l: "length (unicode_to_utf8 c) = unicode_utf8len c" by (simp add: unicode_to_utf8_def unicode_utf8len_def)
  have "legal_char (unicode_to_utf8 c)" by (rule encoded_legal [OF assms])
  then have "length (unicode_to_utf8 c) = pg_utf_mblen (unicode_to_utf8 c ! 0)"
    using legal_char_length [of "unicode_to_utf8 c"]
    by (auto simp: pg_utf_mblen_def byte_masks utf8_next_begin utf8_need_values legal_char_def split: if_splits)
  then show "pg_utf_mblen (unicode_to_utf8 c ! 0) = unicode_utf8len c" using l by simp
qed

lemma wchar2utf_concat: "list_all scalar_value cs \<Longrightarrow> pg_wchar2utf_with_len cs = concat (map unicode_to_utf8 cs)"
proof (induction cs)
  case (Cons c cs)
  then have "c \<noteq> 0" by (auto simp: scalar_value_def is_valid_unicode_codepoint_def)
  with Cons encoded_mblen [of c] show ?case by (simp add: Let_def)
qed simp

lemma utf2wchar_char:
  assumes "legal_char c"
  shows "pg_utf2wchar_with_len (c @ s) = utf8_to_unicode c # pg_utf2wchar_with_len s"
proof -
  obtain b bs where c: "c = b # bs" "utf8_accepts (utf8_next U_BGN (unat b)) (map unat bs)"
    using assms by (cases c) (auto simp: legal_char_def)
  consider "0 < unat b" "unat b < 128" "bs = []" | x where "192 \<le> unat b" "unat b < 224" "bs = [x]"
    | x y where "224 \<le> unat b" "unat b < 240" "bs = [x, y]" | x y z where "240 \<le> unat b" "unat b < 248" "bs = [x, y, z]"
    using c(2) by (auto simp: utf8_next_begin accepts_iff split: if_splits)
  then show ?thesis
    by cases (simp_all add: c(1) pg_utf2wchar_with_len.simps [of "_ # _"] utf8_to_unicode_def byte_masks word_unat_eq_iff [of b 0])
qed

lemma utf2wchar_concat:
  "list_all scalar_value cs \<Longrightarrow> pg_utf2wchar_with_len (concat (map unicode_to_utf8 cs)) = cs"
  by (induction cs) (simp_all add: pg_utf2wchar_with_len.simps [of "[]"] utf2wchar_char encoded_legal decoded_encoding)

text \<open>
  C6 (UTF-8 verification): on every byte string \<open>pg_utf8_verifystr\<close> finishes (the walk back from a
  character cut by the last stride finds a leading byte inside the string) and returns the length of
  the longest prefix that is a sequence of encoded Unicode scalar values: the code points from 1 to
  0x10FFFF that are no surrogates, each in its shortest form. The table-driven fast path with its
  ASCII shortcut and the byte-wise path agree with this on every input.
\<close>

theorem utf8_verifystr_correct:
  "\<exists>n. pg_utf8_verifystr s = Some n \<and> n \<le> length s
     \<and> (\<exists>cs. list_all scalar_value cs \<and> take n s = concat (map unicode_to_utf8 cs))
     \<and> \<not> (\<exists>m cs. n < m \<and> m \<le> length s \<and> list_all scalar_value cs \<and> take m s = concat (map unicode_to_utf8 cs))"
proof (rule exI [of _ "utf8_slow s"], intro conjI)
  show "pg_utf8_verifystr s = Some (utf8_slow s)" by (rule verifystr_slow)
  show "utf8_slow s \<le> length s" using slow_prefix by blast
  show "\<exists>cs. list_all scalar_value cs \<and> take (utf8_slow s) s = concat (map unicode_to_utf8 cs)"
    using slow_prefix unfolding utf8_valid_encoded by blast
  show "\<not> (\<exists>m cs. utf8_slow s < m \<and> m \<le> length s \<and> list_all scalar_value cs \<and> take m s = concat (map unicode_to_utf8 cs))"
    using slow_longest [of "take m s" s "drop m s" for m] unfolding utf8_valid_encoded by fastforce
qed

text \<open>
  C31 (UTF-8 round trip): for every sequence of Unicode scalar values, \<open>pg_wchar2utf_with_len\<close> writes a
  string that \<open>pg_utf8_verifystr\<close> accepts as a whole, of the length that \<open>unicode_utf8len\<close> announces,
  and \<open>pg_utf2wchar_with_len\<close> reads back the same sequence.
\<close>

theorem utf8_wchar_roundtrip:
  assumes "list_all scalar_value cs"
  shows "pg_utf8_verifystr (pg_wchar2utf_with_len cs) = Some (sum_list (map unicode_utf8len cs))
    \<and> length (pg_wchar2utf_with_len cs) = sum_list (map unicode_utf8len cs)
    \<and> pg_utf2wchar_with_len (pg_wchar2utf_with_len cs) = cs"
proof -
  have l: "length (pg_wchar2utf_with_len cs) = sum_list (map unicode_utf8len cs)"
    unfolding wchar2utf_concat [OF assms] using assms by (induction cs) (simp_all add: encoded_mblen)
  have "utf8_valid (pg_wchar2utf_with_len cs)"
    using assms unfolding wchar2utf_concat [OF assms] utf8_valid_encoded by blast
  then show ?thesis using l assms unfolding verifystr_valid [symmetric]
    by (simp add: wchar2utf_concat utf2wchar_concat)
qed

theorem utf8_wchar_roundtrip_witness:
  "pg_wchar2utf_with_len [0x41, 0xE9, 0x20AC, 0x1F600] = [0x41, 0xC3, 0xA9, 0xE2, 0x82, 0xAC, 0xF0, 0x9F, 0x98, 0x80]
   \<and> pg_utf2wchar_with_len (pg_wchar2utf_with_len [0x41, 0xE9, 0x20AC, 0x1F600]) = [0x41, 0xE9, 0x20AC, 0x1F600]"
proof -
  have "list_all scalar_value [0x41, 0xE9, 0x20AC, 0x1F600]" by (simp add: scalar_value_nat)
  note utf8_wchar_roundtrip [OF this, THEN conjunct2, THEN conjunct2]
  moreover have "pg_wchar2utf_with_len [0x41, 0xE9, 0x20AC, 0x1F600] = [0x41, 0xC3, 0xA9, 0xE2, 0x82, 0xAC, 0xF0, 0x9F, 0x98, 0x80]"
    by (simp add: unicode_to_utf8_def pg_utf_mblen_def Let_def)
  ultimately show ?thesis by (rule conjI [rotated])
qed

end
