(* ===== verification/Pg_Wchar.thy ===== *)
theory Pg_Wchar
  imports Pg_Unicode
begin

text \<open>
  The encodings of the server (src/src/common/wchar.c): for each encoding the length of a character,
  the verifiers of characters and strings, and the table \<open>pg_wchar_table\<close> that the functions on any
  encoding select them from.

  A pointer into a string with the remaining length is the remaining list of bytes. A character
  verifier returns \<open>None\<close> for the value -1 of the code. The loop of the string verifiers is a partial
  function: a verifier that never returned would have the value \<open>None\<close>.
\<close>

section \<open>Encoding identifiers\<close>

definition PG_SQL_ASCII :: int where "PG_SQL_ASCII = 0"
definition PG_EUC_JP :: int where "PG_EUC_JP = 1"
definition PG_EUC_CN :: int where "PG_EUC_CN = 2"
definition PG_EUC_KR :: int where "PG_EUC_KR = 3"
definition PG_EUC_TW :: int where "PG_EUC_TW = 4"
definition PG_EUC_JIS_2004 :: int where "PG_EUC_JIS_2004 = 5"
definition PG_UTF8 :: int where "PG_UTF8 = 6"
definition PG_UNUSED_1 :: int where "PG_UNUSED_1 = 7"
definition PG_LATIN1 :: int where "PG_LATIN1 = 8"
definition PG_LATIN2 :: int where "PG_LATIN2 = 9"
definition PG_LATIN3 :: int where "PG_LATIN3 = 10"
definition PG_LATIN4 :: int where "PG_LATIN4 = 11"
definition PG_LATIN5 :: int where "PG_LATIN5 = 12"
definition PG_LATIN6 :: int where "PG_LATIN6 = 13"
definition PG_LATIN7 :: int where "PG_LATIN7 = 14"
definition PG_LATIN8 :: int where "PG_LATIN8 = 15"
definition PG_LATIN9 :: int where "PG_LATIN9 = 16"
definition PG_LATIN10 :: int where "PG_LATIN10 = 17"
definition PG_WIN1256 :: int where "PG_WIN1256 = 18"
definition PG_WIN1258 :: int where "PG_WIN1258 = 19"
definition PG_WIN866 :: int where "PG_WIN866 = 20"
definition PG_WIN874 :: int where "PG_WIN874 = 21"
definition PG_KOI8R :: int where "PG_KOI8R = 22"
definition PG_WIN1251 :: int where "PG_WIN1251 = 23"
definition PG_WIN1252 :: int where "PG_WIN1252 = 24"
definition PG_ISO_8859_5 :: int where "PG_ISO_8859_5 = 25"
definition PG_ISO_8859_6 :: int where "PG_ISO_8859_6 = 26"
definition PG_ISO_8859_7 :: int where "PG_ISO_8859_7 = 27"
definition PG_ISO_8859_8 :: int where "PG_ISO_8859_8 = 28"
definition PG_WIN1250 :: int where "PG_WIN1250 = 29"
definition PG_WIN1253 :: int where "PG_WIN1253 = 30"
definition PG_WIN1254 :: int where "PG_WIN1254 = 31"
definition PG_WIN1255 :: int where "PG_WIN1255 = 32"
definition PG_WIN1257 :: int where "PG_WIN1257 = 33"
definition PG_GB18030 :: int where "PG_GB18030 = 34"
definition PG_KOI8U :: int where "PG_KOI8U = 35"
definition PG_SJIS :: int where "PG_SJIS = 36"
definition PG_BIG5 :: int where "PG_BIG5 = 37"
definition PG_GBK :: int where "PG_GBK = 38"
definition PG_UHC :: int where "PG_UHC = 39"
definition PG_JOHAB :: int where "PG_JOHAB = 40"
definition PG_SHIFT_JIS_2004 :: int where "PG_SHIFT_JIS_2004 = 41"
definition PG_LAST_ENCODING :: int where "PG_LAST_ENCODING = 42"
definition PG_ENCODING_BE_LAST :: int where "PG_ENCODING_BE_LAST = PG_KOI8U"

lemmas encoding_ids = PG_SQL_ASCII_def PG_EUC_JP_def PG_EUC_CN_def PG_EUC_KR_def PG_EUC_TW_def PG_EUC_JIS_2004_def
  PG_UTF8_def PG_UNUSED_1_def PG_LATIN1_def PG_LATIN2_def PG_LATIN3_def PG_LATIN4_def PG_LATIN5_def PG_LATIN6_def
  PG_LATIN7_def PG_LATIN8_def PG_LATIN9_def PG_LATIN10_def PG_WIN1256_def PG_WIN1258_def PG_WIN866_def PG_WIN874_def
  PG_KOI8R_def PG_WIN1251_def PG_WIN1252_def PG_ISO_8859_5_def PG_ISO_8859_6_def PG_ISO_8859_7_def PG_ISO_8859_8_def
  PG_WIN1250_def PG_WIN1253_def PG_WIN1254_def PG_WIN1255_def PG_WIN1257_def PG_GB18030_def PG_KOI8U_def PG_SJIS_def
  PG_BIG5_def PG_GBK_def PG_UHC_def PG_JOHAB_def PG_SHIFT_JIS_2004_def PG_LAST_ENCODING_def PG_ENCODING_BE_LAST_def

definition PG_UNUSED_ENCODING :: "int \<Rightarrow> bool" where
  "PG_UNUSED_ENCODING enc \<longleftrightarrow> enc = PG_UNUSED_1"

definition PG_VALID_BE_ENCODING :: "int \<Rightarrow> bool" where
  "PG_VALID_BE_ENCODING enc \<longleftrightarrow> enc \<ge> 0 \<and> enc \<le> PG_ENCODING_BE_LAST \<and> \<not> PG_UNUSED_ENCODING enc"

definition PG_VALID_ENCODING :: "int \<Rightarrow> bool" where
  "PG_VALID_ENCODING enc \<longleftrightarrow> enc \<ge> 0 \<and> enc < PG_LAST_ENCODING \<and> \<not> PG_UNUSED_ENCODING enc"

section \<open>Lengths of characters\<close>

definition IS_HIGHBIT_SET :: "byte \<Rightarrow> bool" where "IS_HIGHBIT_SET ch \<longleftrightarrow> ch AND 0x80 \<noteq> 0"
definition SS2 :: byte where "SS2 = 0x8e"
definition SS3 :: byte where "SS3 = 0x8f"
definition NONUTF8_INVALID_BYTE0 :: byte where "NONUTF8_INVALID_BYTE0 = 0x8d"
definition NONUTF8_INVALID_BYTE1 :: byte where "NONUTF8_INVALID_BYTE1 = 0x20"

definition pg_ascii_mblen :: "bytes \<Rightarrow> nat" where "pg_ascii_mblen s = 1"
definition pg_latin1_mblen :: "bytes \<Rightarrow> nat" where "pg_latin1_mblen s = 1"

definition pg_euc_mblen :: "bytes \<Rightarrow> nat" where
  "pg_euc_mblen s = (if s ! 0 = SS2 then 2 else if s ! 0 = SS3 then 3 else if IS_HIGHBIT_SET (s ! 0) then 2 else 1)"

definition pg_eucjp_mblen :: "bytes \<Rightarrow> nat" where "pg_eucjp_mblen s = pg_euc_mblen s"
definition pg_euckr_mblen :: "bytes \<Rightarrow> nat" where "pg_euckr_mblen s = pg_euc_mblen s"
definition pg_johab_mblen :: "bytes \<Rightarrow> nat" where "pg_johab_mblen s = pg_euc_mblen s"

definition pg_euccn_mblen :: "bytes \<Rightarrow> nat" where
  "pg_euccn_mblen s = (if s ! 0 = SS2 then 3 else if s ! 0 = SS3 then 3 else if IS_HIGHBIT_SET (s ! 0) then 2 else 1)"

definition pg_euctw_mblen :: "bytes \<Rightarrow> nat" where
  "pg_euctw_mblen s = (if s ! 0 = SS2 then 4 else if s ! 0 = SS3 then 3 else if IS_HIGHBIT_SET (s ! 0) then 2 else 1)"

definition pg_sjis_mblen :: "bytes \<Rightarrow> nat" where
  "pg_sjis_mblen s = (if s ! 0 \<ge> 0xa1 \<and> s ! 0 \<le> 0xdf then 1 else if IS_HIGHBIT_SET (s ! 0) then 2 else 1)"

definition pg_big5_mblen :: "bytes \<Rightarrow> nat" where "pg_big5_mblen s = (if IS_HIGHBIT_SET (s ! 0) then 2 else 1)"
definition pg_gbk_mblen :: "bytes \<Rightarrow> nat" where "pg_gbk_mblen s = (if IS_HIGHBIT_SET (s ! 0) then 2 else 1)"
definition pg_uhc_mblen :: "bytes \<Rightarrow> nat" where "pg_uhc_mblen s = (if IS_HIGHBIT_SET (s ! 0) then 2 else 1)"

definition pg_gb18030_mblen :: "bytes \<Rightarrow> nat" where
  "pg_gb18030_mblen s =
     (if \<not> IS_HIGHBIT_SET (s ! 0) then 1 else if s ! 1 \<ge> 0x30 \<and> s ! 1 \<le> 0x39 then 4 else 2)"

section \<open>Verifiers of characters\<close>

definition IS_EUC_RANGE_VALID :: "byte \<Rightarrow> bool" where "IS_EUC_RANGE_VALID c \<longleftrightarrow> c \<ge> 0xa1 \<and> c \<le> 0xfe"

definition ISSJISHEAD :: "byte \<Rightarrow> bool" where
  "ISSJISHEAD c \<longleftrightarrow> (c \<ge> 0x81 \<and> c \<le> 0x9f) \<or> (c \<ge> 0xe0 \<and> c \<le> 0xfc)"

definition ISSJISTAIL :: "byte \<Rightarrow> bool" where
  "ISSJISTAIL c \<longleftrightarrow> (c \<ge> 0x40 \<and> c \<le> 0x7e) \<or> (c \<ge> 0x80 \<and> c \<le> 0xfc)"

definition pg_ascii_verifychar :: "bytes \<Rightarrow> nat option" where "pg_ascii_verifychar s = Some 1"
definition pg_latin1_verifychar :: "bytes \<Rightarrow> nat option" where "pg_latin1_verifychar s = Some 1"

definition pg_eucjp_verifychar :: "bytes \<Rightarrow> nat option" where
  "pg_eucjp_verifychar s =
     (if s ! 0 = SS2 then
        if 2 > length s then None
        else if s ! 1 < 0xa1 \<or> s ! 1 > 0xdf then None
        else Some 2
      else if s ! 0 = SS3 then
        if 3 > length s then None
        else if \<not> IS_EUC_RANGE_VALID (s ! 1) then None
        else if \<not> IS_EUC_RANGE_VALID (s ! 2) then None
        else Some 3
      else if IS_HIGHBIT_SET (s ! 0) then
        if 2 > length s then None
        else if \<not> IS_EUC_RANGE_VALID (s ! 0) then None
        else if \<not> IS_EUC_RANGE_VALID (s ! 1) then None
        else Some 2
      else Some 1)"

definition pg_euckr_verifychar :: "bytes \<Rightarrow> nat option" where
  "pg_euckr_verifychar s =
     (if IS_HIGHBIT_SET (s ! 0) then
        if 2 > length s then None
        else if \<not> IS_EUC_RANGE_VALID (s ! 0) then None
        else if \<not> IS_EUC_RANGE_VALID (s ! 1) then None
        else Some 2
      else Some 1)"

definition pg_euctw_verifychar :: "bytes \<Rightarrow> nat option" where
  "pg_euctw_verifychar s =
     (if s ! 0 = SS2 then
        if 4 > length s then None
        else if s ! 1 < 0xa1 \<or> s ! 1 > 0xa7 then None
        else if \<not> IS_EUC_RANGE_VALID (s ! 2) then None
        else if \<not> IS_EUC_RANGE_VALID (s ! 3) then None
        else Some 4
      else if s ! 0 = SS3 then None
      else if IS_HIGHBIT_SET (s ! 0) then
        if 2 > length s then None
        else if \<not> IS_EUC_RANGE_VALID (s ! 1) then None
        else Some 2
      else Some 1)"

definition pg_johab_verifychar :: "bytes \<Rightarrow> nat option" where
  "pg_johab_verifychar s =
     (let mbl = pg_johab_mblen s
      in if length s < mbl then None
         else if \<not> IS_HIGHBIT_SET (s ! 0) then Some mbl
         else if list_all IS_EUC_RANGE_VALID (take (mbl - 1) (tl s)) then Some mbl
         else None)"

definition pg_sjis_verifychar :: "bytes \<Rightarrow> nat option" where
  "pg_sjis_verifychar s =
     (let mbl = pg_sjis_mblen s
      in if length s < mbl then None
         else if mbl = 1 then Some mbl
         else if \<not> ISSJISHEAD (s ! 0) \<or> \<not> ISSJISTAIL (s ! 1) then None
         else Some mbl)"

definition pg_big5_verifychar :: "bytes \<Rightarrow> nat option" where
  "pg_big5_verifychar s =
     (let mbl = pg_big5_mblen s
      in if length s < mbl then None
         else if mbl = 2 \<and> s ! 0 = NONUTF8_INVALID_BYTE0 \<and> s ! 1 = NONUTF8_INVALID_BYTE1 then None
         else if list_ex (\<lambda>c. c = 0) (take (mbl - 1) (tl s)) then None
         else Some mbl)"

definition pg_gbk_verifychar :: "bytes \<Rightarrow> nat option" where
  "pg_gbk_verifychar s =
     (let mbl = pg_gbk_mblen s
      in if length s < mbl then None
         else if mbl = 2 \<and> s ! 0 = NONUTF8_INVALID_BYTE0 \<and> s ! 1 = NONUTF8_INVALID_BYTE1 then None
         else if list_ex (\<lambda>c. c = 0) (take (mbl - 1) (tl s)) then None
         else Some mbl)"

definition pg_uhc_verifychar :: "bytes \<Rightarrow> nat option" where
  "pg_uhc_verifychar s =
     (let mbl = pg_uhc_mblen s
      in if length s < mbl then None
         else if mbl = 2 \<and> s ! 0 = NONUTF8_INVALID_BYTE0 \<and> s ! 1 = NONUTF8_INVALID_BYTE1 then None
         else if list_ex (\<lambda>c. c = 0) (take (mbl - 1) (tl s)) then None
         else Some mbl)"

definition pg_gb18030_verifychar :: "bytes \<Rightarrow> nat option" where
  "pg_gb18030_verifychar s =
     (if \<not> IS_HIGHBIT_SET (s ! 0) then Some 1
      else if length s \<ge> 4 \<and> s ! 1 \<ge> 0x30 \<and> s ! 1 \<le> 0x39 then
        if s ! 0 \<ge> 0x81 \<and> s ! 0 \<le> 0xfe \<and> s ! 2 \<ge> 0x81 \<and> s ! 2 \<le> 0xfe \<and> s ! 3 \<ge> 0x30 \<and> s ! 3 \<le> 0x39
        then Some 4 else None
      else if length s \<ge> 2 \<and> s ! 0 \<ge> 0x81 \<and> s ! 0 \<le> 0xfe then
        if (s ! 1 \<ge> 0x40 \<and> s ! 1 \<le> 0x7e) \<or> (s ! 1 \<ge> 0x80 \<and> s ! 1 \<le> 0xfe) then Some 2 else None
      else None)"

section \<open>Verifiers of strings\<close>

text \<open>The loop that every multibyte string verifier repeats; \<open>n\<close> is \<open>s - start\<close>.\<close>

partial_function (option) verify_loop :: "(bytes \<Rightarrow> nat option) \<Rightarrow> bytes \<Rightarrow> nat \<Rightarrow> nat option" where
  "verify_loop verifychar s n =
     (if s = [] then Some n
      else if \<not> IS_HIGHBIT_SET (s ! 0) then
        if s ! 0 = 0 then Some n else verify_loop verifychar (drop 1 s) (n + 1)
      else (case verifychar s of None \<Rightarrow> Some n | Some l \<Rightarrow> verify_loop verifychar (drop l s) (n + l)))"

text \<open>\<open>memchr\<close> for a zero byte.\<close>

definition null_offset :: "bytes \<Rightarrow> nat" where "null_offset s = length (takeWhile (\<lambda>c. c \<noteq> 0) s)"

definition pg_ascii_verifystr :: "bytes \<Rightarrow> nat option" where "pg_ascii_verifystr s = Some (null_offset s)"
definition pg_latin1_verifystr :: "bytes \<Rightarrow> nat option" where "pg_latin1_verifystr s = Some (null_offset s)"
definition pg_eucjp_verifystr :: "bytes \<Rightarrow> nat option" where "pg_eucjp_verifystr s = verify_loop pg_eucjp_verifychar s 0"
definition pg_euckr_verifystr :: "bytes \<Rightarrow> nat option" where "pg_euckr_verifystr s = verify_loop pg_euckr_verifychar s 0"
definition pg_euctw_verifystr :: "bytes \<Rightarrow> nat option" where "pg_euctw_verifystr s = verify_loop pg_euctw_verifychar s 0"
definition pg_johab_verifystr :: "bytes \<Rightarrow> nat option" where "pg_johab_verifystr s = verify_loop pg_johab_verifychar s 0"
definition pg_sjis_verifystr :: "bytes \<Rightarrow> nat option" where "pg_sjis_verifystr s = verify_loop pg_sjis_verifychar s 0"
definition pg_big5_verifystr :: "bytes \<Rightarrow> nat option" where "pg_big5_verifystr s = verify_loop pg_big5_verifychar s 0"
definition pg_gbk_verifystr :: "bytes \<Rightarrow> nat option" where "pg_gbk_verifystr s = verify_loop pg_gbk_verifychar s 0"
definition pg_uhc_verifystr :: "bytes \<Rightarrow> nat option" where "pg_uhc_verifystr s = verify_loop pg_uhc_verifychar s 0"
definition pg_gb18030_verifystr :: "bytes \<Rightarrow> nat option" where
  "pg_gb18030_verifystr s = verify_loop pg_gb18030_verifychar s 0"

section \<open>The table of encodings\<close>

record wchar_tbl =
  mblen :: "bytes \<Rightarrow> nat"
  mbverifychar :: "bytes \<Rightarrow> nat option"
  mbverifystr :: "bytes \<Rightarrow> nat option"
  maxmblen :: nat

text \<open>
  The columns of \<open>pg_wchar_table\<close> that are used here; EUC-CN shares the verifiers of EUC-KR. The
  unused identifier has no entry.
\<close>

definition pg_wchar_table :: "wchar_tbl option list" where
  "pg_wchar_table =
    [Some \<lparr>mblen = pg_ascii_mblen, mbverifychar = pg_ascii_verifychar, mbverifystr = pg_ascii_verifystr, maxmblen = 1\<rparr>,
     Some \<lparr>mblen = pg_eucjp_mblen, mbverifychar = pg_eucjp_verifychar, mbverifystr = pg_eucjp_verifystr, maxmblen = 3\<rparr>,
     Some \<lparr>mblen = pg_euccn_mblen, mbverifychar = pg_euckr_verifychar, mbverifystr = pg_euckr_verifystr, maxmblen = 3\<rparr>,
     Some \<lparr>mblen = pg_euckr_mblen, mbverifychar = pg_euckr_verifychar, mbverifystr = pg_euckr_verifystr, maxmblen = 3\<rparr>,
     Some \<lparr>mblen = pg_euctw_mblen, mbverifychar = pg_euctw_verifychar, mbverifystr = pg_euctw_verifystr, maxmblen = 4\<rparr>,
     Some \<lparr>mblen = pg_eucjp_mblen, mbverifychar = pg_eucjp_verifychar, mbverifystr = pg_eucjp_verifystr, maxmblen = 3\<rparr>,
     Some \<lparr>mblen = (\<lambda>s. pg_utf_mblen (s ! 0)), mbverifychar = pg_utf8_verifychar, mbverifystr = pg_utf8_verifystr, maxmblen = 4\<rparr>,
     None,
     Some \<lparr>mblen = pg_latin1_mblen, mbverifychar = pg_latin1_verifychar, mbverifystr = pg_latin1_verifystr, maxmblen = 1\<rparr>,
     Some \<lparr>mblen = pg_latin1_mblen, mbverifychar = pg_latin1_verifychar, mbverifystr = pg_latin1_verifystr, maxmblen = 1\<rparr>,
     Some \<lparr>mblen = pg_latin1_mblen, mbverifychar = pg_latin1_verifychar, mbverifystr = pg_latin1_verifystr, maxmblen = 1\<rparr>,
     Some \<lparr>mblen = pg_latin1_mblen, mbverifychar = pg_latin1_verifychar, mbverifystr = pg_latin1_verifystr, maxmblen = 1\<rparr>,
     Some \<lparr>mblen = pg_latin1_mblen, mbverifychar = pg_latin1_verifychar, mbverifystr = pg_latin1_verifystr, maxmblen = 1\<rparr>,
     Some \<lparr>mblen = pg_latin1_mblen, mbverifychar = pg_latin1_verifychar, mbverifystr = pg_latin1_verifystr, maxmblen = 1\<rparr>,
     Some \<lparr>mblen = pg_latin1_mblen, mbverifychar = pg_latin1_verifychar, mbverifystr = pg_latin1_verifystr, maxmblen = 1\<rparr>,
     Some \<lparr>mblen = pg_latin1_mblen, mbverifychar = pg_latin1_verifychar, mbverifystr = pg_latin1_verifystr, maxmblen = 1\<rparr>,
     Some \<lparr>mblen = pg_latin1_mblen, mbverifychar = pg_latin1_verifychar, mbverifystr = pg_latin1_verifystr, maxmblen = 1\<rparr>,
     Some \<lparr>mblen = pg_latin1_mblen, mbverifychar = pg_latin1_verifychar, mbverifystr = pg_latin1_verifystr, maxmblen = 1\<rparr>,
     Some \<lparr>mblen = pg_latin1_mblen, mbverifychar = pg_latin1_verifychar, mbverifystr = pg_latin1_verifystr, maxmblen = 1\<rparr>,
     Some \<lparr>mblen = pg_latin1_mblen, mbverifychar = pg_latin1_verifychar, mbverifystr = pg_latin1_verifystr, maxmblen = 1\<rparr>,
     Some \<lparr>mblen = pg_latin1_mblen, mbverifychar = pg_latin1_verifychar, mbverifystr = pg_latin1_verifystr, maxmblen = 1\<rparr>,
     Some \<lparr>mblen = pg_latin1_mblen, mbverifychar = pg_latin1_verifychar, mbverifystr = pg_latin1_verifystr, maxmblen = 1\<rparr>,
     Some \<lparr>mblen = pg_latin1_mblen, mbverifychar = pg_latin1_verifychar, mbverifystr = pg_latin1_verifystr, maxmblen = 1\<rparr>,
     Some \<lparr>mblen = pg_latin1_mblen, mbverifychar = pg_latin1_verifychar, mbverifystr = pg_latin1_verifystr, maxmblen = 1\<rparr>,
     Some \<lparr>mblen = pg_latin1_mblen, mbverifychar = pg_latin1_verifychar, mbverifystr = pg_latin1_verifystr, maxmblen = 1\<rparr>,
     Some \<lparr>mblen = pg_latin1_mblen, mbverifychar = pg_latin1_verifychar, mbverifystr = pg_latin1_verifystr, maxmblen = 1\<rparr>,
     Some \<lparr>mblen = pg_latin1_mblen, mbverifychar = pg_latin1_verifychar, mbverifystr = pg_latin1_verifystr, maxmblen = 1\<rparr>,
     Some \<lparr>mblen = pg_latin1_mblen, mbverifychar = pg_latin1_verifychar, mbverifystr = pg_latin1_verifystr, maxmblen = 1\<rparr>,
     Some \<lparr>mblen = pg_latin1_mblen, mbverifychar = pg_latin1_verifychar, mbverifystr = pg_latin1_verifystr, maxmblen = 1\<rparr>,
     Some \<lparr>mblen = pg_latin1_mblen, mbverifychar = pg_latin1_verifychar, mbverifystr = pg_latin1_verifystr, maxmblen = 1\<rparr>,
     Some \<lparr>mblen = pg_latin1_mblen, mbverifychar = pg_latin1_verifychar, mbverifystr = pg_latin1_verifystr, maxmblen = 1\<rparr>,
     Some \<lparr>mblen = pg_latin1_mblen, mbverifychar = pg_latin1_verifychar, mbverifystr = pg_latin1_verifystr, maxmblen = 1\<rparr>,
     Some \<lparr>mblen = pg_latin1_mblen, mbverifychar = pg_latin1_verifychar, mbverifystr = pg_latin1_verifystr, maxmblen = 1\<rparr>,
     Some \<lparr>mblen = pg_latin1_mblen, mbverifychar = pg_latin1_verifychar, mbverifystr = pg_latin1_verifystr, maxmblen = 1\<rparr>,
     Some \<lparr>mblen = pg_gb18030_mblen, mbverifychar = pg_gb18030_verifychar, mbverifystr = pg_gb18030_verifystr, maxmblen = 4\<rparr>,
     Some \<lparr>mblen = pg_latin1_mblen, mbverifychar = pg_latin1_verifychar, mbverifystr = pg_latin1_verifystr, maxmblen = 1\<rparr>,
     Some \<lparr>mblen = pg_sjis_mblen, mbverifychar = pg_sjis_verifychar, mbverifystr = pg_sjis_verifystr, maxmblen = 2\<rparr>,
     Some \<lparr>mblen = pg_big5_mblen, mbverifychar = pg_big5_verifychar, mbverifystr = pg_big5_verifystr, maxmblen = 2\<rparr>,
     Some \<lparr>mblen = pg_gbk_mblen, mbverifychar = pg_gbk_verifychar, mbverifystr = pg_gbk_verifystr, maxmblen = 2\<rparr>,
     Some \<lparr>mblen = pg_uhc_mblen, mbverifychar = pg_uhc_verifychar, mbverifystr = pg_uhc_verifystr, maxmblen = 2\<rparr>,
     Some \<lparr>mblen = pg_johab_mblen, mbverifychar = pg_johab_verifychar, mbverifystr = pg_johab_verifystr, maxmblen = 3\<rparr>,
     Some \<lparr>mblen = pg_sjis_mblen, mbverifychar = pg_sjis_verifychar, mbverifystr = pg_sjis_verifystr, maxmblen = 2\<rparr>]"

definition wchar_entry :: "int \<Rightarrow> wchar_tbl" where
  "wchar_entry enc = the (pg_wchar_table ! nat enc)"

definition pg_encoding_mblen :: "int \<Rightarrow> bytes \<Rightarrow> nat" where
  "pg_encoding_mblen encoding mbstr =
     (if PG_VALID_ENCODING encoding then mblen (wchar_entry encoding) mbstr else mblen (wchar_entry PG_SQL_ASCII) mbstr)"

definition pg_encoding_verifymbchar :: "int \<Rightarrow> bytes \<Rightarrow> nat option" where
  "pg_encoding_verifymbchar encoding mbstr =
     (if PG_VALID_ENCODING encoding then mbverifychar (wchar_entry encoding) mbstr
      else mbverifychar (wchar_entry PG_SQL_ASCII) mbstr)"

definition pg_encoding_verifymbstr :: "int \<Rightarrow> bytes \<Rightarrow> nat option" where
  "pg_encoding_verifymbstr encoding mbstr =
     (if PG_VALID_ENCODING encoding then mbverifystr (wchar_entry encoding) mbstr
      else mbverifystr (wchar_entry PG_SQL_ASCII) mbstr)"

definition pg_encoding_max_length :: "int \<Rightarrow> nat" where
  "pg_encoding_max_length encoding =
     (if PG_VALID_ENCODING encoding then maxmblen (wchar_entry encoding) else maxmblen (wchar_entry PG_SQL_ASCII))"

section \<open>What a character verifier promises\<close>

text \<open>
  A character of an encoding is a byte sequence that its verifier accepts as a whole and that does not
  start with a zero byte; a valid string is a sequence of characters.
\<close>

definition mb_char :: "(bytes \<Rightarrow> nat option) \<Rightarrow> bytes \<Rightarrow> bool" where
  "mb_char vc c \<longleftrightarrow> c \<noteq> [] \<and> c ! 0 \<noteq> 0 \<and> vc c = Some (length c)"

definition mb_valid :: "(bytes \<Rightarrow> nat option) \<Rightarrow> bytes \<Rightarrow> bool" where
  "mb_valid vc s \<longleftrightarrow> (\<exists>cs. list_all (mb_char vc) cs \<and> s = concat cs)"

locale char_verifier =
  fixes vc :: "bytes \<Rightarrow> nat option"
    and ml :: "bytes \<Rightarrow> nat"
    and mx :: nat
  assumes vc_bounds: "s \<noteq> [] \<Longrightarrow> vc s = Some l \<Longrightarrow> 0 < l \<and> l \<le> length s \<and> l \<le> mx"
    and vc_local: "s \<noteq> [] \<Longrightarrow> vc s = Some l \<Longrightarrow> vc (take l s @ t) = Some l"
    and vc_mblen: "s \<noteq> [] \<Longrightarrow> s ! 0 \<noteq> 0 \<Longrightarrow> vc s = Some l \<Longrightarrow> ml s = l"
    and vc_nonzero: "s \<noteq> [] \<Longrightarrow> s ! 0 \<noteq> 0 \<Longrightarrow> vc s = Some l \<Longrightarrow> 0 \<notin> set (take l s)"
    and vc_ascii: "s \<noteq> [] \<Longrightarrow> \<not> IS_HIGHBIT_SET (s ! 0) \<Longrightarrow> s ! 0 \<noteq> 0 \<Longrightarrow> vc s = Some 1"
begin

lemma char_at: "mb_char vc c \<Longrightarrow> vc (c @ t) = Some (length c)"
  using vc_local [of c "length c" t] by (simp add: mb_char_def)

lemma char_prefix:
  assumes "s \<noteq> []" "s ! 0 \<noteq> 0" "vc s = Some l"
  shows "mb_char vc (take l s)" "s = take l s @ drop l s" "length (take l s) = l"
  using vc_bounds [OF assms(1,3)] vc_local [OF assms(1,3), of "[]"] assms by (auto simp: mb_char_def)

lemma loop_char:
  assumes "mb_char vc c"
  shows "verify_loop vc (c @ s) n = verify_loop vc s (n + length c)"
proof -
  have c: "c @ s \<noteq> []" "(c @ s) ! 0 = c ! 0" "c ! 0 \<noteq> 0" "c \<noteq> []" using assms by (auto simp: mb_char_def nth_append)
  show ?thesis
  proof (cases "IS_HIGHBIT_SET (c ! 0)")
    case True
    then show ?thesis using c char_at [OF assms] by (subst verify_loop.simps) simp
  next
    case False
    then have "length c = 1" using char_at [OF assms, of s] vc_ascii [OF c(1)] c by simp
    then show ?thesis using False c by (subst verify_loop.simps) simp
  qed
qed

lemma loop_stop:
  assumes "s = [] \<or> s ! 0 = 0 \<or> vc s = None"
  shows "verify_loop vc s n = Some n"
  using assms vc_ascii [of s] by (subst verify_loop.simps) (auto simp: IS_HIGHBIT_SET_def)

lemma loop_chars: "list_all (mb_char vc) cs \<Longrightarrow> verify_loop vc (concat cs @ s) n = verify_loop vc s (n + length (concat cs))"
  by (induction cs arbitrary: n) (simp_all add: loop_char add.assoc)

lemma split_string: "\<exists>cs r. list_all (mb_char vc) cs \<and> s = concat cs @ r \<and> (r = [] \<or> r ! 0 = 0 \<or> vc r = None)"
proof (induction "length s" arbitrary: s rule: less_induct)
  case less
  show ?case
  proof (cases "s = [] \<or> s ! 0 = 0 \<or> vc s = None")
    case True
    then show ?thesis by (intro exI [of _ "[]"] exI [of _ s]) simp
  next
    case False
    then obtain l where l: "s \<noteq> []" "s ! 0 \<noteq> 0" "vc s = Some l" by auto
    note c = char_prefix [OF l]
    have "length (drop l s) < length s" using vc_bounds [OF l(1,3)] l(1) by simp
    from less [OF this] obtain cs r where
      r: "list_all (mb_char vc) cs" "drop l s = concat cs @ r" "r = [] \<or> r ! 0 = 0 \<or> vc r = None" by blast
    have "s = concat (take l s # cs) @ r" by (simp flip: r(2))
    moreover have "list_all (mb_char vc) (take l s # cs)" using r(1) c(1) by simp
    ultimately show ?thesis using r(3) by (intro exI [of _ "take l s # cs"] exI [of _ r] conjI)
  qed
qed

lemma loop_ge: "\<exists>k. verify_loop vc s n = Some k \<and> n \<le> k"
proof -
  obtain cs r where s: "list_all (mb_char vc) cs" "s = concat cs @ r" "r = [] \<or> r ! 0 = 0 \<or> vc r = None"
    using split_string [of s] by blast
  then show ?thesis using loop_chars [OF s(1), of r n] loop_stop [OF s(3)] by simp
qed

lemma loop_correct:
  "\<exists>n. verify_loop vc s 0 = Some n \<and> n \<le> length s \<and> mb_valid vc (take n s)
     \<and> \<not> (\<exists>m. n < m \<and> m \<le> length s \<and> mb_valid vc (take m s))"
proof -
  obtain cs r where s: "list_all (mb_char vc) cs" "s = concat cs @ r" "r = [] \<or> r ! 0 = 0 \<or> vc r = None"
    using split_string [of s] by blast
  then have n: "verify_loop vc s 0 = Some (length (concat cs))" using loop_chars [OF s(1), of r 0] loop_stop [OF s(3)] by simp
  have "m \<le> length (concat cs)" if "m \<le> length s" "mb_valid vc (take m s)" for m
  proof -
    obtain ds where "list_all (mb_char vc) ds" "take m s = concat ds" using \<open>mb_valid vc (take m s)\<close> by (auto simp: mb_valid_def)
    then have "verify_loop vc s 0 = verify_loop vc (drop m s) m"
      using loop_chars [of ds "drop m s" 0] that(1) by (metis append_take_drop_id add_0 length_take min.absorb2)
    then show ?thesis using n loop_ge [of "drop m s" m] by auto
  qed
  moreover have "take (length (concat cs)) s = concat cs" by (simp add: s(2))
  then have "mb_valid vc (take (length (concat cs)) s)" using s(1) by (auto simp: mb_valid_def)
  moreover have "length (concat cs) \<le> length s" by (simp add: s(2))
  ultimately show ?thesis using n not_le by blast
qed

end

section \<open>The encodings keep the promise\<close>

lemma byte_cases:
  fixes s :: bytes
  assumes "s \<noteq> []"
  obtains a where "s = [a]" | a b where "s = [a, b]" | a b c where "s = [a, b, c]" | a b c d r where "s = a # b # c # d # r"
  using assms by (metis list.exhaust)

lemma highbit_values [simp]:
  "IS_HIGHBIT_SET SS2" "IS_HIGHBIT_SET SS3" "\<not> IS_HIGHBIT_SET 0" "SS2 \<noteq> SS3" "SS2 \<noteq> 0" "SS3 \<noteq> 0"
  by (simp_all add: IS_HIGHBIT_SET_def SS2_def SS3_def)

lemma euc_range:
  "\<not> IS_EUC_RANGE_VALID 0" "\<not> IS_EUC_RANGE_VALID SS2" "\<not> IS_EUC_RANGE_VALID SS3" "\<not> ISSJISTAIL 0"
  by (simp_all add: IS_EUC_RANGE_VALID_def ISSJISTAIL_def SS2_def SS3_def)

lemmas verifier_simps = euc_range Let_def

lemma highbit_not [simp]: "\<not> IS_HIGHBIT_SET a \<Longrightarrow> a = SS2 \<longleftrightarrow> False" "\<not> IS_HIGHBIT_SET a \<Longrightarrow> a = SS3 \<longleftrightarrow> False"
  by auto

lemma char_verifierI:
  assumes "\<And>s l. s \<noteq> [] \<Longrightarrow> vc s = Some l \<Longrightarrow> 0 < l \<and> l \<le> length s \<and> l \<le> mx" "mx \<le> 4"
    and "\<And>a s t. vc (a # s) = Some 1 \<Longrightarrow> vc (a # t) = Some 1"
    and "\<And>a b s t. vc (a # b # s) = Some 2 \<Longrightarrow> vc (a # b # t) = Some 2"
    and "\<And>a b c s t. vc (a # b # c # s) = Some 3 \<Longrightarrow> vc (a # b # c # t) = Some 3"
    and "\<And>a b c d s t. vc (a # b # c # d # s) = Some 4 \<Longrightarrow> vc (a # b # c # d # t) = Some 4"
    and "\<And>s l. s \<noteq> [] \<Longrightarrow> s ! 0 \<noteq> 0 \<Longrightarrow> vc s = Some l \<Longrightarrow> ml s = l \<and> 0 \<notin> set (take l s)"
    and "\<And>a s. \<not> IS_HIGHBIT_SET a \<Longrightarrow> a \<noteq> 0 \<Longrightarrow> vc (a # s) = Some 1"
  shows "char_verifier vc ml mx"
proof
  fix s t :: bytes and l
  assume s: "s \<noteq> []" "vc s = Some l"
  have l: "0 < l" "l \<le> length s" "l \<le> 4" using assms(1) [OF s] assms(2) by auto
  then consider "l = 1" | "l = 2" | "l = 3" | "l = 4" by linarith
  then show "vc (take l s @ t) = Some l"
  proof cases
    case 1
    then show ?thesis using s assms(3) [of "hd s" "tl s" t] by (cases s) simp_all
  next
    case 2
    then obtain a b r where "s = a # b # r" using l(2) by (auto simp: numeral_eq_Suc Suc_le_length_iff)
    then show ?thesis using assms(4) [of a b r t] s(2) 2 by simp
  next
    case 3
    then obtain a b c r where "s = a # b # c # r" using l(2) by (auto simp: numeral_eq_Suc Suc_le_length_iff)
    then show ?thesis using assms(5) [of a b c r t] s(2) 3 by simp
  next
    case 4
    then obtain a b c d r where "s = a # b # c # d # r" using l(2) by (auto simp: numeral_eq_Suc Suc_le_length_iff)
    then show ?thesis using assms(6) [of a b c d r t] s(2) 4 by simp
  qed
next
  fix s :: bytes
  assume "s \<noteq> []" "\<not> IS_HIGHBIT_SET (s ! 0)" "s ! 0 \<noteq> 0"
  then show "vc s = Some 1" using assms(8) by (cases s) simp_all
qed (use assms(1,7) in blast)+

interpretation ascii: char_verifier pg_ascii_verifychar pg_ascii_mblen 1
  by (rule char_verifierI; (erule byte_cases)?; auto simp: pg_ascii_verifychar_def pg_ascii_mblen_def verifier_simps split: if_split_asm)

interpretation latin1: char_verifier pg_latin1_verifychar pg_latin1_mblen 1
  by (rule char_verifierI; (erule byte_cases)?; auto simp: pg_latin1_verifychar_def pg_latin1_mblen_def verifier_simps split: if_split_asm)

interpretation eucjp: char_verifier pg_eucjp_verifychar pg_eucjp_mblen 3
  by (rule char_verifierI; (erule byte_cases)?; auto simp: pg_eucjp_verifychar_def pg_eucjp_mblen_def pg_euc_mblen_def verifier_simps split: if_split_asm)

interpretation euckr: char_verifier pg_euckr_verifychar pg_euckr_mblen 3
  by (rule char_verifierI; (erule byte_cases)?; auto simp: pg_euckr_verifychar_def pg_euckr_mblen_def pg_euc_mblen_def verifier_simps split: if_split_asm)

interpretation euccn: char_verifier pg_euckr_verifychar pg_euccn_mblen 3
  by (rule char_verifierI; (erule byte_cases)?; auto simp: pg_euckr_verifychar_def pg_euccn_mblen_def verifier_simps split: if_split_asm)

interpretation euctw: char_verifier pg_euctw_verifychar pg_euctw_mblen 4
  by (rule char_verifierI; (erule byte_cases)?; auto simp: pg_euctw_verifychar_def pg_euctw_mblen_def verifier_simps split: if_split_asm)

interpretation johab: char_verifier pg_johab_verifychar pg_johab_mblen 3
  by (rule char_verifierI; (erule byte_cases)?; auto simp: pg_johab_verifychar_def pg_johab_mblen_def pg_euc_mblen_def verifier_simps split: if_split_asm)

definition sjis_single :: "byte \<Rightarrow> bool" where
  "sjis_single a \<longleftrightarrow> a \<ge> 0xa1 \<and> a \<le> 0xdf \<or> \<not> IS_HIGHBIT_SET a"

lemma sjis_mblen_single: "pg_sjis_mblen s = (if sjis_single (s ! 0) then 1 else 2)"
  unfolding pg_sjis_mblen_def sjis_single_def by (cases "IS_HIGHBIT_SET (s ! 0)") (simp_all only: not_True_eq_False not_False_eq_True simp_thms if_True if_False if_cancel)

lemma sjis_single_ascii: "\<not> IS_HIGHBIT_SET a \<Longrightarrow> sjis_single a"
  by (simp add: sjis_single_def)

interpretation sjis: char_verifier pg_sjis_verifychar pg_sjis_mblen 2
  by (rule char_verifierI; (erule byte_cases)?; auto simp: pg_sjis_verifychar_def sjis_mblen_single sjis_single_ascii
      verifier_simps split: if_split_asm)

interpretation big5: char_verifier pg_big5_verifychar pg_big5_mblen 2
  by (rule char_verifierI; (erule byte_cases)?; auto simp: pg_big5_verifychar_def pg_big5_mblen_def verifier_simps split: if_split_asm)

interpretation gbk: char_verifier pg_gbk_verifychar pg_gbk_mblen 2
  by (rule char_verifierI; (erule byte_cases)?; auto simp: pg_gbk_verifychar_def pg_gbk_mblen_def verifier_simps split: if_split_asm)

interpretation uhc: char_verifier pg_uhc_verifychar pg_uhc_mblen 2
  by (rule char_verifierI; (erule byte_cases)?; auto simp: pg_uhc_verifychar_def pg_uhc_mblen_def verifier_simps split: if_split_asm)

interpretation gb18030: char_verifier pg_gb18030_verifychar pg_gb18030_mblen 4
  by (rule char_verifierI; (erule byte_cases)?; auto simp: pg_gb18030_verifychar_def pg_gb18030_mblen_def verifier_simps word_le_nat_alt split: if_split_asm)

lemma legal_char_mblen: "legal_char c \<Longrightarrow> pg_utf_mblen (c ! 0) = length c"
  using encoded_mblen [OF legal_decode(1)] by (simp add: legal_decode(2))

lemma legal_char_nonzero:
  assumes "legal_char c"
  shows "0 \<notin> set c" "length c \<le> 4"
proof -
  obtain b bs where c: "c = b # bs" "utf8_accepts (utf8_next U_BGN (unat b)) (map unat bs)"
    using assms by (cases c) (auto simp: legal_char_def)
  then have b: "b \<noteq> 0" by (auto simp: utf8_next_begin)
  from c(2) show "0 \<notin> set c" "length c \<le> 4" unfolding c(1) using b
    by (auto simp: utf8_next_begin accepts_iff split: if_splits)
qed

lemma utf8_verifychar_legal:
  assumes "s \<noteq> []" "pg_utf8_verifychar s = Some l"
  shows "legal_char (take l s)" "0 < l" "l \<le> length s" "length (take l s) = l"
proof -
  have at: "utf8_char_at s" "l = Suc (utf8_need (utf8_next U_BGN (unat (s ! 0))))"
    using assms(2) unfolding verifychar_accepts [OF assms(1)] by (auto split: if_splits)
  obtain c r where c: "s = c @ r" "legal_char c" using at(1) char_at_legal [OF assms(1)] by blast
  then have "length c = l" using legal_char_length [OF c(2)] at(2) by (cases c) (auto simp: legal_char_def)
  then show "legal_char (take l s)" "0 < l" "l \<le> length s" "length (take l s) = l" using c at(2) by auto
qed

interpretation utf8: char_verifier pg_utf8_verifychar "\<lambda>s. pg_utf_mblen (s ! 0)" 4
proof
  fix s t :: bytes and l
  assume s: "s \<noteq> []" "pg_utf8_verifychar s = Some l"
  note c = utf8_verifychar_legal [OF s]
  show "0 < l \<and> l \<le> length s \<and> l \<le> 4" using c legal_char_nonzero [OF c(1)] by simp
  have "utf8_char_at (take l s @ t)" using c(1) char_at_legal [of "take l s @ t"] by (auto simp: legal_char_def)
  then show "pg_utf8_verifychar (take l s @ t) = Some l"
    using verifychar_accepts [of "take l s @ t"] legal_char_length [OF c(1)] c s(1) by (simp add: nth_append)
  show "pg_utf_mblen (s ! 0) = l" using legal_char_mblen [OF c(1)] c by simp
  show "0 \<notin> set (take l s)" using legal_char_nonzero [OF c(1)] by simp
next
  fix s :: bytes
  assume "s \<noteq> []" "\<not> IS_HIGHBIT_SET (s ! 0)" "s ! 0 \<noteq> 0"
  then show "pg_utf8_verifychar s = Some 1" by (simp add: pg_utf8_verifychar_def IS_HIGHBIT_SET_def)
qed

end
