(* ===== verification/Pg_Mbstr.thy ===== *)
theory Pg_Mbstr
  imports Pg_Wchar
begin

text \<open>
  Operations on strings in any encoding (src/src/backend/utils/mb/mbutils.c): verification, counting and
  clipping of multibyte strings, and the conversion between the database encoding and another one.

  A string is its list of bytes, without the terminating zero. Loops whose steps are given by a length
  function are partial functions with \<open>None\<close> for a loop that does not end. The conversion procedures of
  the catalog are a parameter of the environment.
\<close>

datatype mb_error =
  InvalidByteSequence
| VerifierStuck
| StringTooLong
| NoTransaction
| NoConversion int int
| ConversionError

section \<open>Code\<close>

text \<open>\<open>cliplen\<close>: the number of bytes before a zero byte, at most \<open>limit\<close>.\<close>

definition cliplen :: "bytes \<Rightarrow> int \<Rightarrow> nat" where
  "cliplen str limit =
     (let len = min (int (length str)) limit
      in length (takeWhile (\<lambda>c. c \<noteq> 0) (take (nat len) str)))"

partial_function (option) clip_loop :: "(bytes \<Rightarrow> nat) \<Rightarrow> bytes \<Rightarrow> int \<Rightarrow> nat \<Rightarrow> nat option" where
  "clip_loop mblen_fn mbstr limit clen =
     (if mbstr \<noteq> [] \<and> mbstr ! 0 \<noteq> 0 then
        (let l = mblen_fn mbstr
         in if int (clen + l) > limit then Some clen
            else if int (clen + l) = limit then Some (clen + l)
            else clip_loop mblen_fn (drop l mbstr) limit (clen + l))
      else Some clen)"

definition pg_encoding_mbcliplen :: "int \<Rightarrow> bytes \<Rightarrow> int \<Rightarrow> nat option" where
  "pg_encoding_mbcliplen encoding mbstr limit =
     (if pg_encoding_max_length encoding = 1 then Some (cliplen mbstr limit)
      else clip_loop (mblen (wchar_entry encoding)) mbstr limit 0)"

definition pg_mblen_with_len :: "int \<Rightarrow> bytes \<Rightarrow> (mb_error, nat) res" where
  "pg_mblen_with_len dbenc mbstr =
     (let l = mblen (wchar_entry dbenc) mbstr
      in if l > length mbstr then Inl InvalidByteSequence else Inr l)"

definition pg_database_encoding_max_length :: "int \<Rightarrow> nat" where
  "pg_database_encoding_max_length dbenc = maxmblen (wchar_entry dbenc)"

partial_function (option) mbstrlen_loop :: "int \<Rightarrow> bytes \<Rightarrow> nat \<Rightarrow> (mb_error, nat) res option" where
  "mbstrlen_loop dbenc mbstr len =
     (if mbstr \<noteq> [] \<and> mbstr ! 0 \<noteq> 0 then
        (case pg_mblen_with_len dbenc mbstr of
           Inl e \<Rightarrow> Some (Inl e)
         | Inr l \<Rightarrow> mbstrlen_loop dbenc (drop l mbstr) (len + 1))
      else Some (Inr len))"

definition pg_mbstrlen_with_len :: "int \<Rightarrow> bytes \<Rightarrow> (mb_error, nat) res option" where
  "pg_mbstrlen_with_len dbenc mbstr =
     (if pg_database_encoding_max_length dbenc = 1 then Some (Inr (length mbstr))
      else mbstrlen_loop dbenc mbstr 0)"

partial_function (option) charclip_loop :: "int \<Rightarrow> bytes \<Rightarrow> int \<Rightarrow> nat \<Rightarrow> nat \<Rightarrow> (mb_error, nat) res option" where
  "charclip_loop dbenc mbstr limit clen nch =
     (if mbstr \<noteq> [] \<and> mbstr ! 0 \<noteq> 0 then
        (case pg_mblen_with_len dbenc mbstr of
           Inl e \<Rightarrow> Some (Inl e)
         | Inr l \<Rightarrow>
             (let nch = nch + 1
              in if int nch > limit then Some (Inr clen)
                 else charclip_loop dbenc (drop l mbstr) limit (clen + l) nch))
      else Some (Inr clen))"

definition pg_mbcharcliplen :: "int \<Rightarrow> bytes \<Rightarrow> int \<Rightarrow> (mb_error, nat) res option" where
  "pg_mbcharcliplen dbenc mbstr limit =
     (if pg_database_encoding_max_length dbenc = 1 then Some (Inr (cliplen mbstr limit))
      else charclip_loop dbenc mbstr limit 0 0)"

definition pg_verify_mbstr :: "int \<Rightarrow> bytes \<Rightarrow> bool \<Rightarrow> (mb_error, bool) res" where
  "pg_verify_mbstr encoding mbstr noError =
     (case mbverifystr (wchar_entry encoding) mbstr of
        None \<Rightarrow> Inl VerifierStuck
      | Some oklen \<Rightarrow>
          if oklen \<noteq> length mbstr then if noError then Inr False else Inl InvalidByteSequence
          else Inr True)"

partial_function (option) verify_len_loop :: "(bytes \<Rightarrow> nat option) \<Rightarrow> bytes \<Rightarrow> bool \<Rightarrow> nat \<Rightarrow> (mb_error, int) res option" where
  "verify_len_loop mbverifychar_fn mbstr noError mb_len =
     (if mbstr = [] then Some (Inr (int mb_len))
      else if \<not> IS_HIGHBIT_SET (mbstr ! 0) then
        if mbstr ! 0 \<noteq> 0 then verify_len_loop mbverifychar_fn (drop 1 mbstr) noError (mb_len + 1)
        else Some (if noError then Inr (- 1) else Inl InvalidByteSequence)
      else (case mbverifychar_fn mbstr of
              None \<Rightarrow> Some (if noError then Inr (- 1) else Inl InvalidByteSequence)
            | Some l \<Rightarrow> verify_len_loop mbverifychar_fn (drop l mbstr) noError (mb_len + 1)))"

definition pg_verify_mbstr_len :: "int \<Rightarrow> bytes \<Rightarrow> bool \<Rightarrow> (mb_error, int) res option" where
  "pg_verify_mbstr_len encoding mbstr noError =
     (if pg_encoding_max_length encoding \<le> 1 then
        if null_offset mbstr = length mbstr then Some (Inr (int (length mbstr)))
        else Some (if noError then Inr (- 1) else Inl InvalidByteSequence)
      else verify_len_loop (mbverifychar (wchar_entry encoding)) mbstr noError 0)"

definition pg_mbcliplen :: "int \<Rightarrow> bytes \<Rightarrow> int \<Rightarrow> nat option" where
  "pg_mbcliplen dbenc mbstr limit = pg_encoding_mbcliplen dbenc mbstr limit"

definition pg_verifymbstr :: "int \<Rightarrow> bytes \<Rightarrow> bool \<Rightarrow> (mb_error, bool) res" where
  "pg_verifymbstr dbenc mbstr noError = pg_verify_mbstr dbenc mbstr noError"

text \<open>
  The encodings of the session and the conversion procedures of the catalog, which are parameters:
  \<open>ToServerConvProc\<close> and \<open>ToClientConvProc\<close> are the cached procedures for the client encoding and
  \<open>FindDefaultConversionProc\<close> looks up the default procedure for two encodings, \<open>None\<close> if there is none.
  A procedure maps the source string to the string it writes, or raises.
\<close>

type_synonym conv_proc = "bytes \<Rightarrow> (mb_error, bytes) res"

record enc_env =
  DatabaseEncoding :: int
  ClientEncoding :: int
  ToServerConvProc :: "conv_proc option"
  ToClientConvProc :: "conv_proc option"
  IsTransactionState :: bool
  FindDefaultConversionProc :: "int \<Rightarrow> int \<Rightarrow> conv_proc option"

definition MaxAllocSize :: int where "MaxAllocSize = 0x3fffffff"
definition MaxAllocHugeSize :: int where "MaxAllocHugeSize = 0xffffffffffffffff div 2"
definition MAX_CONVERSION_GROWTH :: int where "MAX_CONVERSION_GROWTH = 4"

text \<open>The call of a conversion procedure with the checks around it, as both callers have it.\<close>

definition call_conversion :: "conv_proc \<Rightarrow> bytes \<Rightarrow> (mb_error, bytes) res" where
  "call_conversion proc src =
     (if int (length src) \<ge> MaxAllocHugeSize div MAX_CONVERSION_GROWTH then Inl StringTooLong
      else bindR (proc src) (\<lambda>result.
        if int (length src) > 1000000 then
          (let resultlen = int (length (takeWhile (\<lambda>c. c \<noteq> 0) result))
           in if resultlen \<ge> MaxAllocSize then Inl StringTooLong else Inr result)
        else Inr result))"

definition pg_do_encoding_conversion :: "enc_env \<Rightarrow> bytes \<Rightarrow> int \<Rightarrow> int \<Rightarrow> (mb_error, bytes) res" where
  "pg_do_encoding_conversion env src src_encoding dest_encoding =
     (if src = [] then Inr src
      else if src_encoding = dest_encoding then Inr src
      else if dest_encoding = PG_SQL_ASCII then Inr src
      else if src_encoding = PG_SQL_ASCII then bindR (pg_verify_mbstr dest_encoding src False) (\<lambda>_. Inr src)
      else if \<not> IsTransactionState env then Inl NoTransaction
      else (case FindDefaultConversionProc env src_encoding dest_encoding of
              None \<Rightarrow> Inl (NoConversion src_encoding dest_encoding)
            | Some proc \<Rightarrow> call_conversion proc src))"

definition perform_default_encoding_conversion :: "enc_env \<Rightarrow> bytes \<Rightarrow> bool \<Rightarrow> (mb_error, bytes) res" where
  "perform_default_encoding_conversion env src is_client_to_server =
     (case (if is_client_to_server then ToServerConvProc env else ToClientConvProc env) of
        None \<Rightarrow> Inr src
      | Some flinfo \<Rightarrow> call_conversion flinfo src)"

definition pg_any_to_server :: "enc_env \<Rightarrow> bytes \<Rightarrow> int \<Rightarrow> (mb_error, bytes) res" where
  "pg_any_to_server env s encoding =
     (if s = [] then Inr s
      else if encoding = DatabaseEncoding env \<or> encoding = PG_SQL_ASCII then
        bindR (pg_verify_mbstr (DatabaseEncoding env) s False) (\<lambda>_. Inr s)
      else if DatabaseEncoding env = PG_SQL_ASCII then
        if PG_VALID_BE_ENCODING encoding then bindR (pg_verify_mbstr encoding s False) (\<lambda>_. Inr s)
        else if list_ex (\<lambda>c. c = 0 \<or> IS_HIGHBIT_SET c) s then Inl InvalidByteSequence
        else Inr s
      else if encoding = ClientEncoding env then perform_default_encoding_conversion env s True
      else pg_do_encoding_conversion env s encoding (DatabaseEncoding env))"

definition pg_server_to_any :: "enc_env \<Rightarrow> bytes \<Rightarrow> int \<Rightarrow> (mb_error, bytes) res" where
  "pg_server_to_any env s encoding =
     (if s = [] then Inr s
      else if encoding = DatabaseEncoding env \<or> encoding = PG_SQL_ASCII then Inr s
      else if DatabaseEncoding env = PG_SQL_ASCII then
        bindR (pg_verify_mbstr encoding s False) (\<lambda>_. Inr s)
      else if encoding = ClientEncoding env then perform_default_encoding_conversion env s False
      else pg_do_encoding_conversion env s (DatabaseEncoding env) encoding)"

definition pg_client_to_server :: "enc_env \<Rightarrow> bytes \<Rightarrow> (mb_error, bytes) res" where
  "pg_client_to_server env s = pg_any_to_server env s (ClientEncoding env)"

definition pg_server_to_client :: "enc_env \<Rightarrow> bytes \<Rightarrow> (mb_error, bytes) res" where
  "pg_server_to_client env s = pg_server_to_any env s (ClientEncoding env)"

section \<open>Valid strings\<close>

context char_verifier
begin

lemma char_facts:
  assumes "mb_char vc c"
  shows "c @ t \<noteq> []" "(c @ t) ! 0 \<noteq> 0" "ml (c @ t) = length c" "0 < length c" "length c \<le> mx" "0 \<notin> set c"
proof -
  show c: "c @ t \<noteq> []" "(c @ t) ! 0 \<noteq> 0" "0 < length c" using assms by (auto simp: mb_char_def nth_append)
  show "ml (c @ t) = length c" by (rule vc_mblen [OF c(1,2) char_at [OF assms]])
  show "length c \<le> mx" "0 \<notin> set c" using vc_bounds [of c] vc_nonzero [of c] assms by (auto simp: mb_char_def)
qed

lemma valid_nonzero: "mb_valid vc s \<Longrightarrow> 0 \<notin> set s"
  using char_facts(6) by (auto simp: mb_valid_def list_all_iff)

lemma valid_split:
  assumes "list_all (mb_char vc) cs" "m \<le> length (concat cs)" "mb_valid vc (take m (concat cs))"
  shows "\<exists>k \<le> length cs. take m (concat cs) = concat (take k cs)"
  using assms
proof (induction cs arbitrary: m)
  case (Cons c cs)
  show ?case
  proof (cases "m = 0")
    case False
    obtain ds where ds: "list_all (mb_char vc) ds" "take m (concat (c # cs)) = concat ds"
      using Cons.prems(3) by (auto simp: mb_valid_def)
    have "ds \<noteq> []" using ds(2) False Cons.prems char_facts(4) by (cases ds) auto
    then obtain d ds' where d: "ds = d # ds'" by (cases ds) auto
    have e: "concat ds @ drop m (concat (c # cs)) = concat (c # cs)" using ds(2) by (metis append_take_drop_id)
    then have "d @ concat ds' @ drop m (concat (c # cs)) = c @ concat cs" by (simp add: d)
    then have "length d = length c"
      using char_at [of d "concat ds' @ drop m (concat (c # cs))"] char_at [of c "concat cs"] Cons.prems(1) ds(1) d by simp
    moreover from this e have "d = c" by (simp add: d)
    ultimately have "m = length c + length (concat ds')" using Cons.prems(2) d arg_cong [OF ds(2), of length] by simp
    then have m: "length c \<le> m" "take (m - length c) (concat cs) = concat ds'" using ds(2) d \<open>d = c\<close> by simp_all
    then have "mb_valid vc (take (m - length c) (concat cs))" using ds(1) d by (auto simp: mb_valid_def)
    moreover have "m - length c \<le> length (concat cs)" using Cons.prems(2) by simp
    ultimately obtain k where "k \<le> length cs" "take (m - length c) (concat cs) = concat (take k cs)"
      using Cons.IH [of "m - length c"] Cons.prems(1) by (metis list.pred_inject(2))
    then show ?thesis using m(1) by (intro exI [of _ "Suc k"]) simp
  qed (simp add: exI [of _ 0])
qed simp

lemma take_chars: "list_all (mb_char vc) cs \<Longrightarrow> mb_valid vc (concat (take k cs))"
  by (auto simp: mb_valid_def list_all_iff dest: in_set_takeD)

text \<open>The loops over the characters of a valid string.\<close>

lemma clip_chars:
  assumes "list_all (mb_char vc) cs"
  shows "\<exists>k \<le> length cs. clip_loop ml (concat cs) limit clen = Some (clen + length (concat (take k cs)))
    \<and> (k = 0 \<or> int (clen + length (concat (take k cs))) \<le> limit)
    \<and> (k = length cs \<or> int (clen + length (concat (take (Suc k) cs))) > limit)"
  using assms
proof (induction cs arbitrary: clen)
  case Nil
  show ?case by (simp add: clip_loop.simps)
next
  case (Cons c cs)
  have c: "mb_char vc c" "list_all (mb_char vc) cs" using Cons.prems by simp_all
  note f = char_facts(1-3) [OF c(1), of "concat cs"] char_facts(4-6) [OF c(1)]
  consider "int (clen + length c) > limit" | "int (clen + length c) = limit" | "int (clen + length c) < limit" by linarith
  then show ?case
  proof cases
    case 1
    then show ?thesis using f by (intro exI [of _ 0]) (simp add: clip_loop.simps [of ml "c @ concat cs"])
  next
    case 2
    then have "cs = [] \<or> int (clen + length (concat (take 2 (c # cs)))) > limit"
      using c(2) char_facts(4) by (cases cs) auto
    then show ?thesis using 2 f by (intro exI [of _ 1]) (auto simp: clip_loop.simps [of ml "c @ concat cs"] numeral_2_eq_2)
  next
    case 3
    from Cons.IH [OF c(2), of "clen + length c"] obtain k where k: "k \<le> length cs"
      "clip_loop ml (concat cs) limit (clen + length c) = Some (clen + length c + length (concat (take k cs)))"
      "k = 0 \<or> int (clen + length c + length (concat (take k cs))) \<le> limit"
      "k = length cs \<or> int (clen + length c + length (concat (take (Suc k) cs))) > limit" by blast
    show ?thesis using 3 f k by (intro exI [of _ "Suc k"]) (auto simp: clip_loop.simps [of ml "c @ concat cs"] add.assoc)
  qed
qed

lemma verify_len_chars:
  assumes "list_all (mb_char vc) cs"
  shows "verify_len_loop vc (concat cs) noError n = Some (Inr (int (n + length cs)))"
  using assms
proof (induction cs arbitrary: n)
  case Nil
  show ?case by (simp add: verify_len_loop.simps)
next
  case (Cons c cs)
  have c: "mb_char vc c" "list_all (mb_char vc) cs" using Cons.prems by simp_all
  note f = char_facts(1-3) [OF c(1), of "concat cs"] char_facts(4-6) [OF c(1)]
  have "length c = 1" if "\<not> IS_HIGHBIT_SET ((c @ concat cs) ! 0)"
    using vc_ascii [OF f(1) that f(2)] char_at [OF c(1), of "concat cs"] by simp
  then have "verify_len_loop vc (c @ concat cs) noError n = verify_len_loop vc (concat cs) noError (n + 1)"
    using f char_at [OF c(1), of "concat cs"] by (subst verify_len_loop.simps) auto
  then show ?case using Cons.IH [OF c(2), of "n + 1"] by simp
qed

end

section \<open>The entries of the table\<close>

lemma single_byte_loop:
  assumes "\<And>s. vc s = Some 1"
  shows "verify_loop vc s n = Some (n + null_offset s)"
proof (induction s arbitrary: n)
  case (Cons b s)
  then show ?case using assms [of "b # s"] by (subst verify_loop.simps) (auto simp: null_offset_def IS_HIGHBIT_SET_def)
qed (simp add: verify_loop.simps null_offset_def)

lemma utf8_loop: "verify_loop pg_utf8_verifychar s n = Some (n + utf8_slow s)"
proof (induction s arbitrary: n rule: utf8_slow.induct)
  case (1 s)
  then show ?case
    by (subst verify_loop.simps, subst utf8_slow.simps) (auto simp: IS_HIGHBIT_SET_def split: option.splits)
qed

definition entry_ok :: "wchar_tbl \<Rightarrow> bool" where
  "entry_ok t \<longleftrightarrow> char_verifier (mbverifychar t) (mblen t) (maxmblen t)
     \<and> (\<forall>s. mbverifystr t s = verify_loop (mbverifychar t) s 0)"

lemmas verifystr_defs = pg_ascii_verifystr_def pg_latin1_verifystr_def pg_eucjp_verifystr_def pg_euckr_verifystr_def
  pg_euctw_verifystr_def pg_johab_verifystr_def pg_sjis_verifystr_def pg_big5_verifystr_def pg_gbk_verifystr_def
  pg_uhc_verifystr_def pg_gb18030_verifystr_def verifystr_slow utf8_loop
  single_byte_loop [of pg_ascii_verifychar, OF pg_ascii_verifychar_def]
  single_byte_loop [of pg_latin1_verifychar, OF pg_latin1_verifychar_def]

lemmas verifier_axioms = ascii.char_verifier_axioms latin1.char_verifier_axioms eucjp.char_verifier_axioms
  euckr.char_verifier_axioms euccn.char_verifier_axioms euctw.char_verifier_axioms johab.char_verifier_axioms
  sjis.char_verifier_axioms big5.char_verifier_axioms gbk.char_verifier_axioms uhc.char_verifier_axioms
  gb18030.char_verifier_axioms utf8.char_verifier_axioms

lemma table_ok: "list_all (pred_option entry_ok) pg_wchar_table"
  unfolding pg_wchar_table_def by (simp add: entry_ok_def verifystr_defs verifier_axioms [unfolded One_nat_def])

lemma table_shape: "map Option.is_none pg_wchar_table = replicate 7 False @ True # replicate 34 False"
  by (simp add: pg_wchar_table_def numeral_eq_Suc)

lemma wchar_entry_ok:
  assumes "PG_VALID_ENCODING e"
  shows "entry_ok (wchar_entry e)"
proof -
  have l: "length pg_wchar_table = 42" using arg_cong [OF table_shape, of length] by simp
  have e: "nat e < 42" "nat e \<noteq> 7"
    using assms by (auto simp: PG_VALID_ENCODING_def PG_UNUSED_ENCODING_def encoding_ids nat_eq_iff)
  have "map Option.is_none pg_wchar_table ! nat e = False"
    unfolding table_shape using e by (auto simp: nth_append nth_Cons split: nat.splits)
  then have "\<not> Option.is_none (pg_wchar_table ! nat e)" using e l by simp
  moreover have "pred_option entry_ok (pg_wchar_table ! nat e)" using table_ok e l by (simp add: list_all_length)
  ultimately show ?thesis by (auto simp: wchar_entry_def Option.is_none_def)
qed

text \<open>An invalid identifier stands for SQL/ASCII.\<close>

definition real_encoding :: "int \<Rightarrow> int" where
  "real_encoding e = (if PG_VALID_ENCODING e then e else PG_SQL_ASCII)"

lemma real_encoding_ok: "entry_ok (wchar_entry (real_encoding e))"
  by (simp add: real_encoding_def wchar_entry_ok PG_VALID_ENCODING_def PG_UNUSED_ENCODING_def encoding_ids)

lemma encoding_functions:
  "pg_encoding_mblen e = mblen (wchar_entry (real_encoding e))"
  "pg_encoding_verifymbchar e = mbverifychar (wchar_entry (real_encoding e))"
  "pg_encoding_verifymbstr e s = verify_loop (mbverifychar (wchar_entry (real_encoding e))) s 0"
  "pg_encoding_max_length e = maxmblen (wchar_entry (real_encoding e))"
  using real_encoding_ok [of e]
  by (auto simp: real_encoding_def pg_encoding_mblen_def pg_encoding_verifymbchar_def pg_encoding_verifymbstr_def
      pg_encoding_max_length_def entry_ok_def)

lemma encoding_verifier: "char_verifier (pg_encoding_verifymbchar e) (pg_encoding_mblen e) (pg_encoding_max_length e)"
  using real_encoding_ok [of e] unfolding encoding_functions entry_ok_def by blast

text \<open>In a single-byte encoding the characters of a valid string are its bytes.\<close>

lemma single_byte_chars:
  assumes "pg_encoding_max_length e = 1" "list_all (mb_char (pg_encoding_verifymbchar e)) cs"
  shows "length (concat (take k cs)) = length (take k cs)"
proof -
  have "length c = 1" if "c \<in> set cs" for c
  proof -
    have "mb_char (pg_encoding_verifymbchar e) c" using assms(2) that by (auto simp: list_all_iff)
    from char_verifier.char_facts(4,5) [OF encoding_verifier this] assms(1) show ?thesis by linarith
  qed
  then have "map length (take k cs) = replicate (length (take k cs)) 1"
    by (intro replicate_eqI) (auto dest: in_set_takeD)
  then show ?thesis by (simp add: length_concat sum_list_replicate)
qed

lemma cliplen_nonzero: "0 \<notin> set s \<Longrightarrow> cliplen s limit = min (length s) (nat limit)"
proof -
  assume "0 \<notin> set s"
  then have t: "takeWhile (\<lambda>c. c \<noteq> 0) (take n s) = take n s" for n
    by (intro takeWhile_eq_all_conv [THEN iffD2]) (auto dest: in_set_takeD)
  show ?thesis unfolding cliplen_def Let_def t by (cases "int (length s) \<le> limit") (auto simp: min_def)
qed

lemma null_offset_nonzero: "0 \<notin> set s \<Longrightarrow> null_offset s = length s"
proof -
  assume "0 \<notin> set s"
  then have "takeWhile (\<lambda>c. c \<noteq> 0) s = s" by (intro takeWhile_eq_all_conv [THEN iffD2]) auto
  then show "null_offset s = length s" unfolding null_offset_def by (rule arg_cong)
qed

lemma take_concat: "take (length (concat (take k cs))) (concat cs) = concat (take k cs)"
  by (metis append_eq_conv_conj append_take_drop_id concat_append)

lemma length_concat_mono: "j \<le> k \<Longrightarrow> length (concat (take j cs)) \<le> length (concat (take k cs))"
  by (metis length_append le_add1 concat_append take_add le_iff_add)

lemma valid_entry_functions:
  assumes "PG_VALID_ENCODING e"
  shows "mblen (wchar_entry e) = pg_encoding_mblen e" "mbverifychar (wchar_entry e) = pg_encoding_verifymbchar e"
    "maxmblen (wchar_entry e) = pg_encoding_max_length e" "mbverifystr (wchar_entry e) = pg_encoding_verifymbstr e"
  using assms by (auto simp: pg_encoding_mblen_def pg_encoding_verifymbchar_def pg_encoding_max_length_def
      pg_encoding_verifymbstr_def)

lemma mblen_with_len_char:
  assumes "PG_VALID_ENCODING e" "mb_char (pg_encoding_verifymbchar e) c"
  shows "pg_mblen_with_len e (c @ t) = Inr (length c)"
  using char_verifier.char_facts(3) [OF encoding_verifier assms(2)]
  by (simp add: pg_mblen_with_len_def valid_entry_functions [OF assms(1)])

lemma mbstrlen_chars:
  assumes "PG_VALID_ENCODING e" "list_all (mb_char (pg_encoding_verifymbchar e)) cs"
  shows "mbstrlen_loop e (concat cs) n = Some (Inr (n + length cs))"
  using assms(2)
proof (induction cs arbitrary: n)
  case (Cons c cs)
  have c: "mb_char (pg_encoding_verifymbchar e) c" using Cons.prems by simp
  have "mbstrlen_loop e (c @ concat cs) n = mbstrlen_loop e (concat cs) (n + 1)"
    using char_verifier.char_facts(1,2) [OF encoding_verifier c, of "concat cs"] mblen_with_len_char [OF assms(1) c]
    by (subst mbstrlen_loop.simps) simp
  then show ?case using Cons by simp
qed (simp add: mbstrlen_loop.simps)

lemma charclip_chars:
  assumes "PG_VALID_ENCODING e" "list_all (mb_char (pg_encoding_verifymbchar e)) cs"
  shows "charclip_loop e (concat cs) limit clen nch
    = Some (Inr (clen + length (concat (take (nat (limit - int nch)) cs))))"
  using assms(2)
proof (induction cs arbitrary: clen nch)
  case (Cons c cs)
  have c: "mb_char (pg_encoding_verifymbchar e) c" using Cons.prems by simp
  have s: "charclip_loop e (c @ concat cs) limit clen nch = (if int (nch + 1) > limit then Some (Inr clen)
      else charclip_loop e (concat cs) limit (clen + length c) (nch + 1))"
    using char_verifier.char_facts(1,2) [OF encoding_verifier c, of "concat cs"] mblen_with_len_char [OF assms(1) c]
    by (subst charclip_loop.simps) (simp add: Let_def)
  show ?case
  proof (cases "int (nch + 1) > limit")
    case True
    then show ?thesis using s by simp
  next
    case False
    then have "nat (limit - int nch) = Suc (nat (limit - int (nch + 1)))" by linarith
    then show ?thesis using Cons False s by simp
  qed
qed (simp add: charclip_loop.simps)

lemma ascii_max_length: "maxmblen (wchar_entry PG_SQL_ASCII) = 1"
  by (simp add: wchar_entry_def PG_SQL_ASCII_def pg_wchar_table_def)

lemma mbcliplen_chars:
  assumes "list_all (mb_char (pg_encoding_verifymbchar e)) cs"
  shows "\<exists>k \<le> length cs. pg_encoding_mbcliplen e (concat cs) limit = Some (length (concat (take k cs)))
    \<and> (k = 0 \<or> int (length (concat (take k cs))) \<le> limit)
    \<and> (k = length cs \<or> int (length (concat (take (Suc k) cs))) > limit)"
proof (cases "pg_encoding_max_length e = 1")
  case True
  note l = single_byte_chars [OF True assms]
  have "0 \<notin> set (concat cs)" using char_verifier.char_facts(6) [OF encoding_verifier] assms by (auto simp: list_all_iff)
  then have "pg_encoding_mbcliplen e (concat cs) limit = Some (min (length cs) (nat limit))"
    using True l [of "length cs"] by (simp add: pg_encoding_mbcliplen_def cliplen_nonzero)
  then show ?thesis using l by (intro exI [of _ "min (length cs) (nat limit)"]) auto
next
  case False
  then have "PG_VALID_ENCODING e" by (auto simp: pg_encoding_max_length_def ascii_max_length split: if_splits)
  then show ?thesis using False char_verifier.clip_chars [OF encoding_verifier assms, of limit 0]
    by (simp add: pg_encoding_mbcliplen_def valid_entry_functions)
qed

text \<open>A sample in EUC-JP: an ASCII letter, a half-width and a full-width character.\<close>

lemma eucjp_entry:
  "PG_VALID_ENCODING PG_EUC_JP" "mblen (wchar_entry PG_EUC_JP) = pg_eucjp_mblen" "pg_encoding_max_length PG_EUC_JP = 3"
  "pg_encoding_verifymbchar PG_EUC_JP = pg_eucjp_verifychar"
proof -
  show v: "PG_VALID_ENCODING PG_EUC_JP" by (simp add: PG_VALID_ENCODING_def PG_UNUSED_ENCODING_def encoding_ids)
  have "pg_wchar_table ! 1 = Some \<lparr>mblen = pg_eucjp_mblen, mbverifychar = pg_eucjp_verifychar,
      mbverifystr = pg_eucjp_verifystr, maxmblen = 3\<rparr>" by (simp add: pg_wchar_table_def)
  then show "mblen (wchar_entry PG_EUC_JP) = pg_eucjp_mblen" "pg_encoding_max_length PG_EUC_JP = 3"
    "pg_encoding_verifymbchar PG_EUC_JP = pg_eucjp_verifychar" using v
    by (auto simp: wchar_entry_def PG_EUC_JP_def pg_encoding_max_length_def pg_encoding_verifymbchar_def)
qed

lemma utf8_entry: "PG_VALID_ENCODING PG_UTF8" "pg_encoding_verifymbchar PG_UTF8 = pg_utf8_verifychar"
proof -
  show v: "PG_VALID_ENCODING PG_UTF8" by (simp add: PG_VALID_ENCODING_def PG_UNUSED_ENCODING_def encoding_ids)
  have "pg_wchar_table ! 6 = Some \<lparr>mblen = \<lambda>s. pg_utf_mblen (s ! 0), mbverifychar = pg_utf8_verifychar,
      mbverifystr = pg_utf8_verifystr, maxmblen = 4\<rparr>" by (simp add: pg_wchar_table_def)
  then show "pg_encoding_verifymbchar PG_UTF8 = pg_utf8_verifychar"
    using v by (auto simp: wchar_entry_def PG_UTF8_def pg_encoding_verifymbchar_def)
qed

lemma gb18030_entry: "PG_VALID_ENCODING PG_GB18030" "pg_encoding_verifymbchar PG_GB18030 = pg_gb18030_verifychar"
proof -
  show v: "PG_VALID_ENCODING PG_GB18030" by (simp add: PG_VALID_ENCODING_def PG_UNUSED_ENCODING_def encoding_ids)
  have "pg_wchar_table ! 34 = Some \<lparr>mblen = pg_gb18030_mblen, mbverifychar = pg_gb18030_verifychar,
      mbverifystr = pg_gb18030_verifystr, maxmblen = 4\<rparr>" by (simp add: pg_wchar_table_def)
  then show "pg_encoding_verifymbchar PG_GB18030 = pg_gb18030_verifychar"
    using v by (auto simp: wchar_entry_def PG_GB18030_def pg_encoding_verifymbchar_def)
qed

lemma eucjp_sample: "list_all (mb_char (pg_encoding_verifymbchar PG_EUC_JP)) [[0x41], [0x8e, 0xb1], [0xb0, 0xa1]]"
  by (simp add: eucjp_entry mb_char_def pg_eucjp_verifychar_def SS2_def SS3_def IS_HIGHBIT_SET_def IS_EUC_RANGE_VALID_def)

text \<open>What \<open>pg_verify_mbstr\<close> lets through.\<close>

lemma verified_valid:
  assumes "PG_VALID_ENCODING e" "pg_verify_mbstr e s False = Inr b"
  shows "mb_valid (pg_encoding_verifymbchar e) s"
proof -
  obtain n where n: "verify_loop (pg_encoding_verifymbchar e) s 0 = Some n" "mb_valid (pg_encoding_verifymbchar e) (take n s)"
    using char_verifier.loop_correct [OF encoding_verifier, of e s] by blast
  have "n = length s" using assms(2) n(1)
    by (simp add: pg_verify_mbstr_def valid_entry_functions [OF assms(1)] encoding_functions(2,3) split: if_splits)
  then show ?thesis using n(2) by simp
qed

lemma sql_ascii_valid: "0 \<notin> set s \<Longrightarrow> mb_valid (pg_encoding_verifymbchar PG_SQL_ASCII) s"
proof -
  assume s: "0 \<notin> set s"
  have v: "PG_VALID_ENCODING PG_SQL_ASCII" by (simp add: PG_VALID_ENCODING_def PG_UNUSED_ENCODING_def encoding_ids)
  have "pg_wchar_table ! 0 = Some \<lparr>mblen = pg_ascii_mblen, mbverifychar = pg_ascii_verifychar,
      mbverifystr = pg_ascii_verifystr, maxmblen = 1\<rparr>" by (simp add: pg_wchar_table_def)
  then have "pg_encoding_verifymbchar PG_SQL_ASCII = pg_ascii_verifychar"
    using v by (auto simp: wchar_entry_def PG_SQL_ASCII_def pg_encoding_verifymbchar_def)
  then show ?thesis using s unfolding mb_valid_def
    by (intro exI [of _ "map (\<lambda>b. [b]) s"]) (auto simp: list_all_iff mb_char_def pg_ascii_verifychar_def)
qed

lemma be_valid_encoding: "PG_VALID_BE_ENCODING e \<Longrightarrow> PG_VALID_ENCODING e"
  by (simp add: PG_VALID_BE_ENCODING_def PG_VALID_ENCODING_def encoding_ids)

lemma call_conversion_result: "call_conversion proc s = Inr r \<Longrightarrow> proc s = Inr r"
  by (auto simp: call_conversion_def Let_def bindR_def split: if_splits sum.splits)

text \<open>
  What \<open>pg_any_to_server\<close> returns is valid in the encoding of the database, if the conversion procedures write
  strings that are valid in it and the cached procedure is set where the client encoding needs one.
\<close>

lemma any_to_server_valid:
  assumes "PG_VALID_BE_ENCODING (DatabaseEncoding env)"
    and "\<And>proc src r. ToServerConvProc env = Some proc \<Longrightarrow> proc src = Inr r \<Longrightarrow>
      mb_valid (pg_encoding_verifymbchar (DatabaseEncoding env)) r"
    and "\<And>proc src r. FindDefaultConversionProc env encoding (DatabaseEncoding env) = Some proc \<Longrightarrow> proc src = Inr r \<Longrightarrow>
      mb_valid (pg_encoding_verifymbchar (DatabaseEncoding env)) r"
    and "ToServerConvProc env = None \<Longrightarrow> ClientEncoding env = DatabaseEncoding env \<or>
      ClientEncoding env = PG_SQL_ASCII \<or> DatabaseEncoding env = PG_SQL_ASCII"
    and "pg_any_to_server env s encoding = Inr r"
  shows "mb_valid (pg_encoding_verifymbchar (DatabaseEncoding env)) r"
proof -
  have db: "PG_VALID_ENCODING (DatabaseEncoding env)" by (rule be_valid_encoding [OF assms(1)])
  have e: "mb_valid vc []" for vc unfolding mb_valid_def by (intro exI [of _ "[]"]) simp
  consider "s = []" | "s \<noteq> []" "encoding = DatabaseEncoding env \<or> encoding = PG_SQL_ASCII"
    | "s \<noteq> []" "encoding \<noteq> DatabaseEncoding env" "encoding \<noteq> PG_SQL_ASCII" "DatabaseEncoding env = PG_SQL_ASCII"
    | "s \<noteq> []" "encoding \<noteq> DatabaseEncoding env" "encoding \<noteq> PG_SQL_ASCII" "DatabaseEncoding env \<noteq> PG_SQL_ASCII" by blast
  then show ?thesis
  proof cases
    case 1
    then show ?thesis using assms(5) e by (simp add: pg_any_to_server_def)
  next
    case 2
    then show ?thesis using assms(5) verified_valid [OF db, of s]
      by (auto simp: pg_any_to_server_def bindR_def split: sum.splits)
  next
    case 3
    then have "r = s \<and> 0 \<notin> set s"
      using assms(5) verified_valid [OF be_valid_encoding, of encoding s] char_verifier.valid_nonzero [OF encoding_verifier, of encoding s]
      by (auto simp: pg_any_to_server_def bindR_def list_ex_iff split: sum.splits if_splits)
    then show ?thesis using sql_ascii_valid 3 by simp
  next
    case 4
    then show ?thesis using assms(2-5)
      by (auto simp: pg_any_to_server_def perform_default_encoding_conversion_def pg_do_encoding_conversion_def
          split: if_splits option.splits dest!: call_conversion_result)
  qed
qed

section \<open>Properties\<close>

text \<open>
  C11 (verification in every encoding): for each encoding of \<open>pg_wchar_table\<close> the string verifier
  returns the length of the longest prefix that is a sequence of characters its character verifier
  accepts, and there is no zero byte in this prefix. An invalid identifier is treated as SQL/ASCII.
\<close>

theorem verifymbstr_correct:
  "\<exists>n. pg_encoding_verifymbstr e s = Some n \<and> n \<le> length s
     \<and> mb_valid (pg_encoding_verifymbchar e) (take n s) \<and> 0 \<notin> set (take n s)
     \<and> \<not> (\<exists>m. n < m \<and> m \<le> length s \<and> mb_valid (pg_encoding_verifymbchar e) (take m s))"
  using char_verifier.loop_correct [OF encoding_verifier, of e s] char_verifier.valid_nonzero [OF encoding_verifier]
  unfolding encoding_functions(2,3) by blast

text \<open>
  C15 (clipping): on a string that is valid in its encoding, \<open>pg_encoding_mbcliplen\<close> ends and returns
  the length of the longest prefix of whole characters that fits into \<open>limit\<close> bytes; it never splits
  a character and never reads past the end of the string. A negative limit gives the empty prefix.
\<close>

theorem mbcliplen_correct:
  assumes "mb_valid (pg_encoding_verifymbchar e) s"
  shows "\<exists>k. pg_encoding_mbcliplen e s limit = Some k \<and> k \<le> length s \<and> int k \<le> max 0 limit
    \<and> mb_valid (pg_encoding_verifymbchar e) (take k s)
    \<and> \<not> (\<exists>m. k < m \<and> m \<le> length s \<and> int m \<le> limit \<and> mb_valid (pg_encoding_verifymbchar e) (take m s))"
proof -
  obtain cs where cs: "list_all (mb_char (pg_encoding_verifymbchar e)) cs" "s = concat cs" using assms by (auto simp: mb_valid_def)
  obtain k where k: "k \<le> length cs" "pg_encoding_mbcliplen e s limit = Some (length (concat (take k cs)))"
    "k = 0 \<or> int (length (concat (take k cs))) \<le> limit" "k = length cs \<or> int (length (concat (take (Suc k) cs))) > limit"
    using mbcliplen_chars [OF cs(1)] cs(2) by blast
  have "\<not> (length (concat (take k cs)) < m \<and> m \<le> length s \<and> int m \<le> limit \<and> mb_valid (pg_encoding_verifymbchar e) (take m s))" for m
  proof
    assume m: "length (concat (take k cs)) < m \<and> m \<le> length s \<and> int m \<le> limit \<and> mb_valid (pg_encoding_verifymbchar e) (take m s)"
    then obtain j where j: "j \<le> length cs" "take m s = concat (take j cs)"
      using char_verifier.valid_split [OF encoding_verifier cs(1)] cs(2) by blast
    then have l: "m = length (concat (take j cs))" using m by (metis length_take min.absorb2)
    then have "k < j" using m length_concat_mono [of j k cs] by linarith
    then show False using k(4) j(1) l m length_concat_mono [of "Suc k" j cs] by auto
  qed
  moreover have "mb_valid (pg_encoding_verifymbchar e) (take (length (concat (take k cs))) s)"
    using char_verifier.take_chars [OF encoding_verifier cs(1)] cs(2) take_concat by metis
  moreover have "length (concat (take k cs)) \<le> length s" using length_concat_mono [of k "length cs" cs] k(1) cs(2) by simp
  moreover have "int (length (concat (take k cs))) \<le> max 0 limit" using k(3) by auto
  ultimately show ?thesis using k(2) by blast
qed

theorem mbcliplen_correct_witness:
  "pg_encoding_mbcliplen PG_EUC_JP [0x41, 0x8e, 0xb1, 0xb0, 0xa1] 4 = Some 3
   \<and> (\<exists>k. pg_encoding_mbcliplen PG_EUC_JP [0x41, 0x8e, 0xb1, 0xb0, 0xa1] 4 = Some k
      \<and> mb_valid (pg_encoding_verifymbchar PG_EUC_JP) (take k [0x41, 0x8e, 0xb1, 0xb0, 0xa1]))"
proof -
  have "mb_valid (pg_encoding_verifymbchar PG_EUC_JP) [0x41, 0x8e, 0xb1, 0xb0, 0xa1]"
    unfolding mb_valid_def by (intro exI [of _ "[[0x41], [0x8e, 0xb1], [0xb0, 0xa1]]"]) (use eucjp_sample in simp)
  from mbcliplen_correct [OF this, of 4] show ?thesis
    by (auto simp: pg_encoding_mbcliplen_def eucjp_entry clip_loop.simps pg_eucjp_mblen_def pg_euc_mblen_def
        SS2_def SS3_def IS_HIGHBIT_SET_def Let_def)
qed

text \<open>
  Counting: in a database encoding, a valid string of \<open>n\<close> characters has length \<open>n\<close> for
  \<open>pg_mbstrlen_with_len\<close> and for \<open>pg_verify_mbstr_len\<close>, and \<open>pg_mbcharcliplen\<close> returns the number of
  bytes of its first \<open>limit\<close> characters; none of them raises an error.
\<close>

theorem characters_counted:
  assumes "PG_VALID_ENCODING e" "list_all (mb_char (pg_encoding_verifymbchar e)) cs"
  shows "pg_mbstrlen_with_len e (concat cs) = Some (Inr (length cs))
    \<and> pg_verify_mbstr_len e (concat cs) noError = Some (Inr (int (length cs)))
    \<and> pg_mbcharcliplen e (concat cs) limit = Some (Inr (length (concat (take (nat limit) cs))))"
proof -
  have z: "0 \<notin> set (concat cs)" using char_verifier.char_facts(6) [OF encoding_verifier] assms(2) by (auto simp: list_all_iff)
  have m: "pg_encoding_max_length e \<ge> 1 \<or> cs = []"
  proof (cases cs)
    case (Cons c cs')
    then have "mb_char (pg_encoding_verifymbchar e) c" using assms(2) by simp
    from char_verifier.char_facts(4,5) [OF encoding_verifier this] show ?thesis by linarith
  qed simp
  show ?thesis
  proof (cases "pg_encoding_max_length e = 1")
    case True
    then show ?thesis using single_byte_chars [OF True assms(2)] single_byte_chars [OF True assms(2), of "length cs"] z
      by (simp add: pg_mbstrlen_with_len_def pg_verify_mbstr_len_def pg_mbcharcliplen_def null_offset_nonzero
          pg_database_encoding_max_length_def valid_entry_functions [OF assms(1)] cliplen_nonzero)
  next
    case False
    then show ?thesis
      using mbstrlen_chars [OF assms] charclip_chars [OF assms] char_verifier.verify_len_chars [OF encoding_verifier assms(2)] m
      by (auto simp: pg_mbstrlen_with_len_def pg_verify_mbstr_len_def pg_mbcharcliplen_def null_offset_def
          pg_database_encoding_max_length_def valid_entry_functions [OF assms(1)])
  qed
qed

theorem characters_counted_witness:
  "pg_mbstrlen_with_len PG_EUC_JP [0x41, 0x8e, 0xb1, 0xb0, 0xa1] = Some (Inr 3)
   \<and> pg_verify_mbstr_len PG_EUC_JP [0x41, 0x8e, 0xb1, 0xb0, 0xa1] True = Some (Inr 3)
   \<and> pg_mbcharcliplen PG_EUC_JP [0x41, 0x8e, 0xb1, 0xb0, 0xa1] 2 = Some (Inr 3)"
  using characters_counted [OF eucjp_entry(1) eucjp_sample, of True 2] by (simp add: numeral_2_eq_2)

end
