(* ===== verification/Pg_Increment.thy ===== *)
theory Pg_Increment
  imports Pg_Mbstr
begin

text \<open>
  The character incrementers of src/src/backend/utils/mb/mbutils.c, which the planner uses to find a
  string greater than all strings with a given prefix. A character is its list of bytes, updated in
  place; \<open>None\<close> is the result \<open>false\<close>.
\<close>

lemma byte_succ: "b < 255 \<Longrightarrow> unat (b + 1) = Suc (unat b)" for b :: byte
  by (simp add: unat_word_ariths word_less_nat_alt)

section \<open>Code\<close>

function generic_loop :: "(bytes \<Rightarrow> nat option) \<Rightarrow> bytes \<Rightarrow> bytes option" where
  "generic_loop mbverify charptr =
     (let lastbyte = length charptr - 1
      in if charptr \<noteq> [] \<and> charptr ! lastbyte < 255 then
           (let charptr = charptr[lastbyte := charptr ! lastbyte + 1]
            in if mbverify charptr = Some (length charptr) then Some charptr else generic_loop mbverify charptr)
         else None)"
  by pat_completeness auto
termination
proof (relation "measure (\<lambda>(mbverify, charptr). 255 - unat (charptr ! (length charptr - 1)))", goal_cases)
  case (2 mbverify charptr lastbyte charptr')
  then show ?case using byte_succ [of "charptr ! lastbyte"] by (auto simp: word_less_nat_alt)
qed simp

definition pg_generic_charinc :: "int \<Rightarrow> bytes \<Rightarrow> bytes option" where
  "pg_generic_charinc dbenc charptr = generic_loop (mbverifychar (wchar_entry dbenc)) charptr"

definition pg_utf8_increment :: "bytes \<Rightarrow> bytes option" where
  "pg_utf8_increment charptr =
     (let len = length charptr;
          limit = (if charptr ! 0 = 0xED then 0x9F else if charptr ! 0 = 0xF4 then 0x8F else 0xBF)
      in if len = 0 \<or> len > 4 then None
         else if len = 4 \<and> charptr ! 3 < 0xBF then Some (charptr[3 := charptr ! 3 + 1])
         else if len \<ge> 3 \<and> charptr ! 2 < 0xBF then Some (charptr[2 := charptr ! 2 + 1])
         else if len \<ge> 2 \<and> charptr ! 1 < limit then Some (charptr[1 := charptr ! 1 + 1])
         else if charptr ! 0 = 0x7F \<or> charptr ! 0 = 0xDF \<or> charptr ! 0 = 0xEF \<or> charptr ! 0 = 0xF4 then None
         else Some (charptr[0 := charptr ! 0 + 1]))"

text \<open>The loop over the bytes \<open>i, \<dots>, lo\<close> of a two- or three-byte character.\<close>

fun eucjp_loop :: "bytes \<Rightarrow> nat list \<Rightarrow> bytes option" where
  "eucjp_loop charptr [] = None"
| "eucjp_loop charptr (i # is) =
     (if charptr ! i < 0xa1 then Some (charptr[i := 0xa1])
      else if charptr ! i < 0xfe then Some (charptr[i := charptr ! i + 1])
      else eucjp_loop charptr is)"

definition pg_eucjp_increment :: "bytes \<Rightarrow> bytes option" where
  "pg_eucjp_increment charptr =
     (let c1 = charptr ! 0; len = length charptr
      in if c1 = SS2 then
           if len \<noteq> 2 then None
           else if charptr ! 1 \<ge> 0xdf then Some (charptr[1 := 0xa1, 0 := 0xa1])
           else if charptr ! 1 < 0xa1 then Some (charptr[1 := 0xa1])
           else Some (charptr[1 := charptr ! 1 + 1])
         else if c1 = SS3 then
           if len \<noteq> 3 then None else eucjp_loop charptr [2, 1]
         else if IS_HIGHBIT_SET c1 then
           if len \<noteq> 2 then None else eucjp_loop charptr [1, 0]
         else if c1 > 0x7e then None
         else Some (charptr[0 := charptr ! 0 + 1]))"

definition pg_database_encoding_character_incrementer :: "int \<Rightarrow> bytes \<Rightarrow> bytes option" where
  "pg_database_encoding_character_incrementer dbenc =
     (if dbenc = PG_UTF8 then pg_utf8_increment
      else if dbenc = PG_EUC_JP then pg_eucjp_increment
      else pg_generic_charinc dbenc)"

declare generic_loop.simps [simp del]

section \<open>Greater characters\<close>

definition bytes_greater :: "bytes \<Rightarrow> bytes \<Rightarrow> bool" where
  "bytes_greater d c \<longleftrightarrow> length d = length c \<and> (\<exists>i < length c. take i d = take i c \<and> c ! i < d ! i)"

lemma update_greater: "i < length c \<Longrightarrow> c ! i < x \<Longrightarrow> bytes_greater (c[i := x]) c"
  by (auto simp: bytes_greater_def intro!: exI [of _ i])

lemma succ_greater: "b < 255 \<Longrightarrow> b < b + 1" for b :: byte
  by (simp add: word_less_nat_alt byte_succ)

lemma below_255: "b < x \<Longrightarrow> b < 255" for b x :: byte
  using unat_byte [of x] by (auto simp: word_less_nat_alt)

lemma bytes_greater_trans:
  assumes "bytes_greater e d" "bytes_greater d c"
  shows "bytes_greater e c"
proof -
  obtain i j where i: "i < length d" "take i e = take i d" "d ! i < e ! i" and j: "j < length c" "take j d = take j c" "c ! j < d ! j"
    using assms by (auto simp: bytes_greater_def)
  have l: "length e = length d" "length d = length c" using assms by (auto simp: bytes_greater_def)
  consider "i < j" | "j < i" | "i = j" by linarith
  then have "take (min i j) e = take (min i j) c \<and> c ! min i j < e ! min i j"
  proof cases
    case 1
    then have "take i c = take i d" "c ! i = d ! i" using j(2) by (metis min.absorb1 less_imp_le take_take, metis nth_take)
    then show ?thesis using 1 i by simp
  next
    case 2
    then have "take j e = take j d" "e ! j = d ! j" using i(2) by (metis min.absorb1 less_imp_le take_take, metis nth_take)
    then show ?thesis using 2 j by simp
  next
    case 3
    then show ?thesis using i j by auto
  qed
  then show ?thesis using l i(1) j(1) by (auto simp: bytes_greater_def intro!: exI [of _ "min i j"])
qed

lemma generic_loop_greater:
  assumes "generic_loop vc c = Some d"
  shows "bytes_greater d c \<and> vc d = Some (length d)"
  using assms
proof (induction vc c rule: generic_loop.induct)
  case (1 vc c)
  define l where "l = length c - 1"
  define e where "e = c[l := c ! l + 1]"
  have c: "c \<noteq> [] \<and> c ! l < 255" using "1.prems" by (auto simp: generic_loop.simps [of vc c] l_def Let_def split: if_splits)
  have g: "bytes_greater e c" unfolding e_def using c by (intro update_greater succ_greater) (auto simp: l_def)
  have s: "generic_loop vc c = (if vc e = Some (length e) then Some e else generic_loop vc e)"
    using c unfolding generic_loop.simps [of vc c] Let_def by (simp add: l_def e_def)
  show ?case
  proof (cases "vc e = Some (length e)")
    case True
    then show ?thesis using "1.prems" s g by simp
  next
    case False
    then have "bytes_greater d e \<and> vc d = Some (length d)" using "1.IH" [OF l_def c e_def] "1.prems" s by simp
    then show ?thesis using g bytes_greater_trans by blast
  qed
qed

section \<open>UTF-8\<close>

definition continuation :: "byte \<Rightarrow> bool" where
  "continuation b \<longleftrightarrow> 128 \<le> unat b \<and> unat b < 192"

lemma legal_char_forms:
  "legal_char [a] \<longleftrightarrow> 0 < unat a \<and> unat a < 128"
  "legal_char [a, b] \<longleftrightarrow> 194 \<le> unat a \<and> unat a < 224 \<and> continuation b"
  "legal_char [a, b, c] \<longleftrightarrow> 224 \<le> unat a \<and> unat a < 240 \<and> continuation b \<and> continuation c
     \<and> (unat a = 224 \<longrightarrow> 160 \<le> unat b) \<and> (unat a = 237 \<longrightarrow> unat b < 160)"
  "legal_char [a, b, c, d] \<longleftrightarrow> 240 \<le> unat a \<and> unat a < 245 \<and> continuation b \<and> continuation c \<and> continuation d
     \<and> (unat a = 240 \<longrightarrow> 144 \<le> unat b) \<and> (unat a = 244 \<longrightarrow> unat b < 144)"
  by (auto simp: legal_char_def utf8_next_begin accepts_iff continuation_def simp del: utf8_accepts.simps split: if_splits)

lemma mb_char_utf8: "mb_char pg_utf8_verifychar c \<longleftrightarrow> legal_char c"
proof
  assume "mb_char pg_utf8_verifychar c"
  then show "legal_char c" using utf8_verifychar_legal [of c "length c"] by (simp add: mb_char_def)
next
  assume c: "legal_char c"
  then have "c \<noteq> []" "c ! 0 \<noteq> 0" by (auto simp: legal_char_def utf8_next_begin)
  then show "mb_char pg_utf8_verifychar c"
    using verifychar_accepts [of c] char_at_legal [of c] legal_char_length [OF c] c by (auto simp: mb_char_def)
qed

lemma succ_cases: "b < x \<Longrightarrow> unat (b + 1) = Suc (unat b) \<and> b < b + 1" for b x :: byte
  using byte_succ [OF below_255] succ_greater [OF below_255] by blast

lemmas utf8_inc_simps = pg_utf8_increment_def legal_char_forms Let_def word_less_nat_alt byte_eq_iff continuation_def

lemma utf8_increment_update:
  assumes "(if length c = 0 \<or> length c > 4 then None
     else if length c = 4 \<and> c ! 3 < 0xBF then Some (c[3 := c ! 3 + 1])
     else if length c \<ge> 3 \<and> c ! 2 < 0xBF then Some (c[2 := c ! 2 + 1])
     else if length c \<ge> 2 \<and> c ! 1 < limit then Some (c[1 := c ! 1 + 1])
     else if stop then None else Some (c[0 := c ! 0 + 1])) = Some d" "c ! 0 < 255" "c \<noteq> []"
  shows "\<exists>i. d = c[i := c ! i + 1] \<and> i < length c \<and> c ! i < (255 :: byte)"
  using assms below_255 by (auto split: if_splits)

lemma utf8_increment_greater:
  assumes "legal_char c" "pg_utf8_increment c = Some d"
  shows "bytes_greater d c"
proof -
  have "c ! 0 < 255" "c \<noteq> []" "length c \<le> 4" using assms(1) legal_char_nonzero(2) [OF assms(1)]
    by (auto simp: legal_char_def word_less_nat_alt utf8_next_begin split: if_splits)
  then obtain i where "d = c[i := c ! i + 1]" "i < length c" "c ! i < 255"
    using utf8_increment_update [OF assms(2) [unfolded pg_utf8_increment_def Let_def]] by blast
  then show ?thesis by (simp add: update_greater succ_greater)
qed

lemma utf8_increment_legal:
  assumes "legal_char c" "pg_utf8_increment c = Some d"
  shows "legal_char d \<longleftrightarrow> c \<noteq> [0xEC, 0xBF, 0xBF] \<and> c \<noteq> [0xF3, 0xBF, 0xBF, 0xBF]"
proof -
  have n: "c \<noteq> []" "length c \<le> 4" using assms(1) legal_char_nonzero(2) [OF assms(1)] by (auto simp: legal_char_def)
  consider a where "c = [a]" | a b where "c = [a, b]" | a b e where "c = [a, b, e]" | a b e f where "c = [a, b, e, f]"
    using n by (cases c rule: byte_cases) auto
  then show ?thesis
  proof cases
    case 1
    then show ?thesis using assms byte_succ [of a] by (auto simp: utf8_inc_simps split: if_splits)
  next
    case 2
    then show ?thesis using assms byte_succ [of a] byte_succ [of b] by (auto simp: utf8_inc_simps split: if_splits)
  next
    case 3
    then show ?thesis using assms byte_succ [of a] byte_succ [of b] byte_succ [of e] by (auto simp: utf8_inc_simps split: if_splits)
  next
    case 4
    then show ?thesis using assms byte_succ [of a] byte_succ [of b] byte_succ [of e] byte_succ [of f] by (auto simp: utf8_inc_simps split: if_splits)
  qed
qed

section \<open>EUC-JP\<close>

lemma bytes_greater_forms:
  "bytes_greater [x] [a] \<longleftrightarrow> a < x"
  "bytes_greater [x, y] [a, b] \<longleftrightarrow> a < x \<or> a = x \<and> b < y"
  "bytes_greater [x, y, z] [a, b, c] \<longleftrightarrow> a < x \<or> a = x \<and> (b < y \<or> b = y \<and> c < z)"
  by (auto simp: bytes_greater_def less_Suc_eq numeral_eq_Suc)

lemma eucjp_forms:
  "mb_char pg_eucjp_verifychar [a] \<longleftrightarrow> a \<noteq> 0 \<and> \<not> IS_HIGHBIT_SET a"
  "mb_char pg_eucjp_verifychar [a, b] \<longleftrightarrow> a = SS2 \<and> 0xa1 \<le> b \<and> b \<le> 0xdf \<or> IS_EUC_RANGE_VALID a \<and> IS_EUC_RANGE_VALID b"
  "mb_char pg_eucjp_verifychar [a, b, c] \<longleftrightarrow> a = SS3 \<and> IS_EUC_RANGE_VALID b \<and> IS_EUC_RANGE_VALID c"
proof -
  have h: "IS_EUC_RANGE_VALID a \<Longrightarrow> IS_HIGHBIT_SET a" for a
    by (simp add: IS_EUC_RANGE_VALID_def IS_HIGHBIT_SET_def byte_masks word_le_nat_alt)
  show "mb_char pg_eucjp_verifychar [a] \<longleftrightarrow> a \<noteq> 0 \<and> \<not> IS_HIGHBIT_SET a"
    "mb_char pg_eucjp_verifychar [a, b] \<longleftrightarrow> a = SS2 \<and> 0xa1 \<le> b \<and> b \<le> 0xdf \<or> IS_EUC_RANGE_VALID a \<and> IS_EUC_RANGE_VALID b"
    "mb_char pg_eucjp_verifychar [a, b, c] \<longleftrightarrow> a = SS3 \<and> IS_EUC_RANGE_VALID b \<and> IS_EUC_RANGE_VALID c"
    using h by (auto simp: mb_char_def pg_eucjp_verifychar_def euc_range)
qed

lemma highbit_unat: "IS_HIGHBIT_SET a \<longleftrightarrow> 128 \<le> unat a"
  by (simp add: IS_HIGHBIT_SET_def byte_masks not_less)

lemmas eucjp_inc_simps = pg_eucjp_increment_def Let_def bytes_greater_forms eucjp_forms IS_EUC_RANGE_VALID_def highbit_unat
  SS2_def SS3_def word_less_nat_alt word_le_nat_alt byte_eq_iff

lemma eucjp_increment_char:
  assumes "mb_char pg_eucjp_verifychar c" "pg_eucjp_increment c = Some d"
  shows "bytes_greater d c \<and> mb_char pg_eucjp_verifychar d"
proof -
  have n: "c \<noteq> []" "length c \<le> 3" using eucjp.char_facts(4,5) [OF assms(1)] by auto
  consider a where "c = [a]" | a b where "c = [a, b]" | a b e where "c = [a, b, e]"
    using n by (cases c rule: byte_cases) auto
  then show ?thesis
  proof cases
    case 1
    then show ?thesis using assms byte_succ [of a] by (auto simp: eucjp_inc_simps split: if_splits)
  next
    case 2
    then show ?thesis using assms byte_succ [of a] byte_succ [of b] by (auto simp: eucjp_inc_simps split: if_splits)
  next
    case 3
    then show ?thesis using assms byte_succ [of b] byte_succ [of e] by (auto simp: eucjp_inc_simps split: if_splits)
  qed
qed

section \<open>Every encoding\<close>

lemma greater_first:
  assumes "bytes_greater d c" "c \<noteq> []" "c ! 0 \<noteq> 0"
  shows "d \<noteq> [] \<and> d ! 0 \<noteq> 0"
proof -
  obtain i where i: "length d = length c" "i < length c" "take i d = take i c" "c ! i < d ! i"
    using assms(1) by (auto simp: bytes_greater_def)
  show ?thesis
  proof (cases "i = 0")
    case True
    then show ?thesis using i by auto
  next
    case False
    then have "d ! 0 = c ! 0" using i(3) by (metis nth_take zero_less_iff_neq_zero)
    then show ?thesis using assms i by auto
  qed
qed

text \<open>
  C34 (character increment): whenever the incrementer of the database encoding succeeds on a character,
  the result is greater byte by byte and is again a character of the encoding, with two exceptions:
  in UTF-8 the last character before the surrogates' lead byte, EC BF BF, becomes the surrogate
  ED BF BF, and F3 BF BF BF becomes F4 BF BF BF beyond the last code point.
\<close>

theorem char_increment:
  assumes "PG_VALID_ENCODING e" "mb_char (pg_encoding_verifymbchar e) c"
    and "pg_database_encoding_character_incrementer e c = Some d"
  shows "bytes_greater d c \<and> (mb_char (pg_encoding_verifymbchar e) d
    \<longleftrightarrow> \<not> (e = PG_UTF8 \<and> (c = [0xEC, 0xBF, 0xBF] \<or> c = [0xF3, 0xBF, 0xBF, 0xBF])))"
proof -
  consider "e = PG_UTF8" | "e = PG_EUC_JP" "e \<noteq> PG_UTF8" | "e \<noteq> PG_EUC_JP" "e \<noteq> PG_UTF8" by blast
  then show ?thesis
  proof cases
    case 1
    then show ?thesis using assms(2,3) utf8_increment_greater [of c d] utf8_increment_legal [of c d]
      by (simp add: pg_database_encoding_character_incrementer_def utf8_entry mb_char_utf8)
  next
    case 2
    then show ?thesis using assms(2,3) eucjp_increment_char [of c d]
      by (simp add: pg_database_encoding_character_incrementer_def eucjp_entry)
  next
    case 3
    then have "bytes_greater d c \<and> pg_encoding_verifymbchar e d = Some (length d)"
      using assms(3) generic_loop_greater
      by (simp add: pg_database_encoding_character_incrementer_def pg_generic_charinc_def valid_entry_functions [OF assms(1)])
    moreover have "c \<noteq> []" "c ! 0 \<noteq> 0" using assms(2) by (auto simp: mb_char_def)
    ultimately show ?thesis using greater_first [of d c] 3 by (simp add: mb_char_def)
  qed
qed

theorem char_increment_witness:
  "mb_char (pg_encoding_verifymbchar PG_UTF8) [0xEC, 0xBF, 0xBF]
   \<and> pg_database_encoding_character_incrementer PG_UTF8 [0xEC, 0xBF, 0xBF] = Some [0xED, 0xBF, 0xBF]
   \<and> \<not> mb_char (pg_encoding_verifymbchar PG_UTF8) [0xED, 0xBF, 0xBF]"
proof -
  have c: "mb_char (pg_encoding_verifymbchar PG_UTF8) [0xEC, 0xBF, 0xBF]"
    by (simp add: utf8_entry mb_char_utf8 legal_char_forms continuation_def)
  moreover have d: "pg_database_encoding_character_incrementer PG_UTF8 [0xEC, 0xBF, 0xBF] = Some [0xED, 0xBF, 0xBF]"
    by (simp add: pg_database_encoding_character_incrementer_def pg_utf8_increment_def)
  ultimately show ?thesis using char_increment [OF utf8_entry(1) c d] by simp
qed

end
