(* ===== verification/Pg_Client_Encoding.thy ===== *)
theory Pg_Client_Encoding
  imports Pg_Mbstr
begin

text \<open>
  The client encoding of a session (src/src/backend/utils/mb/mbutils.c): the cache of conversion procedures, the
  selection of the active ones, the start of the backend, and what this means for the strings that are
  exchanged with the client.

  The session extends the environment of theory Pg\_Mbstr. An entry of the cache holds the procedures themselves;
  a procedure pointer that is NULL is \<open>None\<close>. The return codes 0 and -1 are kept as integers. Allocations do
  not fail.
\<close>

section \<open>Code\<close>

record ConvProcInfo =
  s_encoding :: int
  c_encoding :: int
  to_server_info :: conv_proc
  to_client_info :: conv_proc

record enc_session = enc_env +
  ConvProcList :: "ConvProcInfo list"
  Utf8ToServerConvProc :: "conv_proc option"
  backend_startup_complete :: bool
  pending_client_encoding :: int

datatype session_error = InvalidDatabaseEncoding int | ConversionNotSupported int int

definition PrepareClientEncoding :: "int \<Rightarrow> enc_session \<Rightarrow> int \<times> enc_session" where
  "PrepareClientEncoding encoding s =
     (if \<not> PG_VALID_ENCODING encoding then (- 1, s)
      else if \<not> backend_startup_complete s then (0, s)
      else
        (let current_server_encoding = DatabaseEncoding s
         in if current_server_encoding = encoding \<or> current_server_encoding = PG_SQL_ASCII \<or> encoding = PG_SQL_ASCII
            then (0, s)
            else if IsTransactionState s then
              (case FindDefaultConversionProc s encoding current_server_encoding of
                 None \<Rightarrow> (- 1, s)
               | Some to_server_proc \<Rightarrow>
                   (case FindDefaultConversionProc s current_server_encoding encoding of
                      None \<Rightarrow> (- 1, s)
                    | Some to_client_proc \<Rightarrow>
                        (0, s\<lparr>ConvProcList := \<lparr>s_encoding = current_server_encoding, c_encoding = encoding,
                               to_server_info = to_server_proc, to_client_info = to_client_proc\<rparr> # ConvProcList s\<rparr>)))
            else if list_ex (\<lambda>oldinfo. s_encoding oldinfo = current_server_encoding \<and> c_encoding oldinfo = encoding) (ConvProcList s)
            then (0, s) else (- 1, s)))"

text \<open>The search in the cache: the first entry for the pair is made active, later ones are deleted.\<close>

fun set_conv_loop :: "int \<Rightarrow> int \<Rightarrow> bool \<Rightarrow> ConvProcInfo list \<Rightarrow> enc_session \<Rightarrow> bool \<times> ConvProcInfo list \<times> enc_session" where
  "set_conv_loop server encoding found [] s = (found, [], s)"
| "set_conv_loop server encoding found (convinfo # infos) s =
     (if s_encoding convinfo = server \<and> c_encoding convinfo = encoding then
        if \<not> found then
          (let s = s\<lparr>ClientEncoding := encoding, ToServerConvProc := Some (to_server_info convinfo),
                     ToClientConvProc := Some (to_client_info convinfo)\<rparr>;
               (found, rest, s) = set_conv_loop server encoding True infos s
           in (found, convinfo # rest, s))
        else set_conv_loop server encoding found infos s
      else
        (let (found, rest, s) = set_conv_loop server encoding found infos s
         in (found, convinfo # rest, s)))"

definition SetClientEncoding :: "int \<Rightarrow> enc_session \<Rightarrow> int \<times> enc_session" where
  "SetClientEncoding encoding s =
     (if \<not> PG_VALID_ENCODING encoding then (- 1, s)
      else if \<not> backend_startup_complete s then (0, s\<lparr>pending_client_encoding := encoding\<rparr>)
      else
        (let current_server_encoding = DatabaseEncoding s
         in if current_server_encoding = encoding \<or> current_server_encoding = PG_SQL_ASCII \<or> encoding = PG_SQL_ASCII
            then (0, s\<lparr>ClientEncoding := encoding, ToServerConvProc := None, ToClientConvProc := None\<rparr>)
            else
              (let (found, infos, s) = set_conv_loop current_server_encoding encoding False (ConvProcList s) s;
                   s = s\<lparr>ConvProcList := infos\<rparr>
               in if found then (0, s) else (- 1, s))))"

definition InitializeClientEncoding :: "enc_session \<Rightarrow> (session_error, enc_session) res" where
  "InitializeClientEncoding s =
     (let s = s\<lparr>backend_startup_complete := True\<rparr>;
          (prepared, s) = PrepareClientEncoding (pending_client_encoding s) s
      in if prepared < 0 then Inl (ConversionNotSupported (pending_client_encoding s) (DatabaseEncoding s))
         else
           (let (set_result, s) = SetClientEncoding (pending_client_encoding s) s
            in if set_result < 0 then Inl (ConversionNotSupported (pending_client_encoding s) (DatabaseEncoding s))
               else
                 (let current_server_encoding = DatabaseEncoding s
                  in if current_server_encoding \<noteq> PG_UTF8 \<and> current_server_encoding \<noteq> PG_SQL_ASCII then
                       (case FindDefaultConversionProc s PG_UTF8 current_server_encoding of
                          None \<Rightarrow> Inr s
                        | Some finfo \<Rightarrow> Inr (s\<lparr>Utf8ToServerConvProc := Some finfo\<rparr>))
                     else Inr s)))"

definition SetDatabaseEncoding :: "int \<Rightarrow> enc_session \<Rightarrow> (session_error, enc_session) res" where
  "SetDatabaseEncoding encoding s =
     (if \<not> PG_VALID_BE_ENCODING encoding then Inl (InvalidDatabaseEncoding encoding)
      else Inr (s\<lparr>DatabaseEncoding := encoding\<rparr>))"

section \<open>Sessions\<close>

text \<open>
  The conversion procedures of the catalog write strings that are validly encoded according to the destination
  encoding, as the head of mbutils.c says.
\<close>

definition conv_valid :: "conv_proc \<Rightarrow> int \<Rightarrow> bool" where
  "conv_valid proc dest \<longleftrightarrow> (\<forall>src r. proc src = Inr r \<longrightarrow> mb_valid (pg_encoding_verifymbchar dest) r)"

definition catalog_ok :: "(int \<Rightarrow> int \<Rightarrow> conv_proc option) \<Rightarrow> bool" where
  "catalog_ok find_proc \<longleftrightarrow> (\<forall>src dest. pred_option (\<lambda>proc. conv_valid proc dest) (find_proc src dest))"

text \<open>
  What happens in a session: the database encoding is set before the start is complete, the client
  encoding is prepared and set at any time and in any order, the start is completed once, and transactions and
  the contents of the catalog come and go. A call that raises ends the session.
\<close>

inductive session :: "enc_session \<Rightarrow> bool" where
  start: "catalog_ok find_proc \<Longrightarrow> session \<lparr>DatabaseEncoding = PG_SQL_ASCII, ClientEncoding = PG_SQL_ASCII, ToServerConvProc = None,
    ToClientConvProc = None, IsTransactionState = False, FindDefaultConversionProc = find_proc, ConvProcList = [],
    Utf8ToServerConvProc = None, backend_startup_complete = False, pending_client_encoding = PG_SQL_ASCII\<rparr>"
| catalog: "session s \<Longrightarrow> catalog_ok find_proc \<Longrightarrow>
    session (s\<lparr>IsTransactionState := in_transaction, FindDefaultConversionProc := find_proc\<rparr>)"
| database: "session s \<Longrightarrow> \<not> backend_startup_complete s \<Longrightarrow> SetDatabaseEncoding e s = Inr s' \<Longrightarrow> session s'"
| initialize: "session s \<Longrightarrow> \<not> backend_startup_complete s \<Longrightarrow> InitializeClientEncoding s = Inr s' \<Longrightarrow> session s'"
| prepare: "session s \<Longrightarrow> PrepareClientEncoding e s = (rc, s') \<Longrightarrow> session s'"
| set_client: "session s \<Longrightarrow> SetClientEncoding e s = (rc, s') \<Longrightarrow> session s'"

text \<open>
  The invariant: the cached procedures write the encodings they are cached for, and the active ones are
  those for the client encoding, missing only where no conversion is needed.
\<close>

definition info_ok :: "ConvProcInfo \<Rightarrow> bool" where
  "info_ok c \<longleftrightarrow> conv_valid (to_server_info c) (s_encoding c) \<and> conv_valid (to_client_info c) (c_encoding c)"

definition active_ok :: "enc_session \<Rightarrow> bool" where
  "active_ok s \<longleftrightarrow> PG_VALID_ENCODING (ClientEncoding s)
     \<and> pred_option (\<lambda>proc. conv_valid proc (DatabaseEncoding s)) (ToServerConvProc s)
     \<and> pred_option (\<lambda>proc. conv_valid proc (ClientEncoding s)) (ToClientConvProc s)
     \<and> ((ToServerConvProc s = None \<or> ToClientConvProc s = None) \<longrightarrow>
          ClientEncoding s = DatabaseEncoding s \<or> ClientEncoding s = PG_SQL_ASCII \<or> DatabaseEncoding s = PG_SQL_ASCII)"

definition session_ok :: "enc_session \<Rightarrow> bool" where
  "session_ok s \<longleftrightarrow> PG_VALID_BE_ENCODING (DatabaseEncoding s) \<and> catalog_ok (FindDefaultConversionProc s)
     \<and> list_all info_ok (ConvProcList s) \<and> active_ok s
     \<and> (\<not> backend_startup_complete s \<longrightarrow> ClientEncoding s = PG_SQL_ASCII \<and> ToServerConvProc s = None \<and> ToClientConvProc s = None)"

lemma sql_ascii_be: "PG_VALID_BE_ENCODING PG_SQL_ASCII" "PG_VALID_ENCODING PG_SQL_ASCII"
  by (simp_all add: PG_VALID_BE_ENCODING_def PG_VALID_ENCODING_def PG_UNUSED_ENCODING_def encoding_ids)

lemma catalog_found: "catalog_ok f \<Longrightarrow> f a b = Some proc \<Longrightarrow> conv_valid proc b"
  by (metis catalog_ok_def option.pred_inject(2))

lemma prepare_ok: "session_ok s \<Longrightarrow> PrepareClientEncoding e s = (rc, s') \<Longrightarrow> session_ok s' \<and> backend_startup_complete s' = backend_startup_complete s"
  by (auto simp: PrepareClientEncoding_def session_ok_def active_ok_def info_ok_def Let_def dest: catalog_found
      split: if_splits option.splits)

text \<open>The search in the cache changes the active procedures only, and only to those of an entry.\<close>

lemma set_conv_loop_ok:
  assumes "set_conv_loop (DatabaseEncoding s) e found infos s = (found', infos', s')" "list_all info_ok infos" "active_ok s" "PG_VALID_ENCODING e"
  shows "list_all info_ok infos' \<and> active_ok s' \<and> DatabaseEncoding s' = DatabaseEncoding s
    \<and> FindDefaultConversionProc s' = FindDefaultConversionProc s \<and> backend_startup_complete s' = backend_startup_complete s"
  using assms
proof (induction infos arbitrary: found s found' infos' s')
  case (Cons c infos)
  have c: "info_ok c" "list_all info_ok infos" using Cons.prems(2) by simp_all
  define s1 where "s1 = s\<lparr>ClientEncoding := e, ToServerConvProc := Some (to_server_info c), ToClientConvProc := Some (to_client_info c)\<rparr>"
  have s1: "DatabaseEncoding s1 = DatabaseEncoding s" "FindDefaultConversionProc s1 = FindDefaultConversionProc s"
    "backend_startup_complete s1 = backend_startup_complete s" by (simp_all add: s1_def)
  show ?case
  proof (cases "s_encoding c = DatabaseEncoding s \<and> c_encoding c = e \<and> \<not> found")
    case True
    then obtain rest where r: "set_conv_loop (DatabaseEncoding s1) e True infos s1 = (found', rest, s')" "infos' = c # rest"
      using Cons.prems(1) by (auto simp: s1_def [symmetric] s1 Let_def split: prod.splits)
    have "active_ok s1" using c(1) True Cons.prems(4) by (auto simp: active_ok_def s1_def info_ok_def)
    from Cons.IH [OF r(1) c(2) this Cons.prems(4)] show ?thesis using c(1) r(2) s1 by simp
  next
    case False
    then obtain rest where r: "set_conv_loop (DatabaseEncoding s) e found infos s = (found', rest, s')" "infos' = c # rest \<or> infos' = rest"
      using Cons.prems(1) by (auto simp: Let_def split: prod.splits if_splits)
    from Cons.IH [OF r(1) c(2) Cons.prems(3,4)] show ?thesis using c(1) r(2) by auto
  qed
qed simp

lemma set_client_cases:
  assumes "SetClientEncoding e s = (rc, s')"
  obtains "s' = s" | "s' = s\<lparr>pending_client_encoding := e\<rparr>" "\<not> backend_startup_complete s"
  | "s' = s\<lparr>ClientEncoding := e, ToServerConvProc := None, ToClientConvProc := None\<rparr>" "PG_VALID_ENCODING e"
      "backend_startup_complete s" "DatabaseEncoding s = e \<or> DatabaseEncoding s = PG_SQL_ASCII \<or> e = PG_SQL_ASCII"
  | found infos s1 where "set_conv_loop (DatabaseEncoding s) e False (ConvProcList s) s = (found, infos, s1)"
      "s' = s1\<lparr>ConvProcList := infos\<rparr>" "PG_VALID_ENCODING e" "backend_startup_complete s"
proof -
  obtain found infos s1 where l: "set_conv_loop (DatabaseEncoding s) e False (ConvProcList s) s = (found, infos, s1)" by (rule prod_cases3)
  note e = assms [unfolded SetClientEncoding_def Let_def l prod.case]
  show thesis
  proof (cases "PG_VALID_ENCODING e \<and> backend_startup_complete s")
    case True
    then show thesis using e l that(3,4) by (auto split: if_splits)
  next
    case False
    then show thesis using e that(1,2) by (auto split: if_splits)
  qed
qed

lemma set_client_ok:
  assumes "session_ok s" "SetClientEncoding e s = (rc, s')"
  shows "session_ok s'"
  using assms(2)
proof (cases rule: set_client_cases)
  case 2
  have "active_ok s' = active_ok s" by (simp add: 2(1) active_ok_def)
  with assms(1) show ?thesis by (simp add: session_ok_def 2(1))
next
  case 3
  have "active_ok s'" using 3(2,4) unfolding active_ok_def 3(1) by auto
  then show ?thesis using assms(1) 3(1,3) by (simp add: session_ok_def)
next
  case (4 found infos s1)
  have o: "list_all info_ok (ConvProcList s)" "active_ok s" "PG_VALID_BE_ENCODING (DatabaseEncoding s)"
    "catalog_ok (FindDefaultConversionProc s)" using assms(1) by (simp_all add: session_ok_def)
  have "active_ok s' = active_ok s1" by (simp add: 4(2) active_ok_def)
  with set_conv_loop_ok [OF 4(1) o(1,2) 4(3)] o(3,4) 4(4) show ?thesis by (simp add: session_ok_def 4(2))
qed (use assms(1) in simp)

lemma initialize_ok:
  assumes "session_ok s" "\<not> backend_startup_complete s" "InitializeClientEncoding s = Inr s'"
  shows "session_ok s'"
proof -
  define s1 where "s1 = s\<lparr>backend_startup_complete := True\<rparr>"
  obtain rc2 s2 where p: "PrepareClientEncoding (pending_client_encoding s1) s1 = (rc2, s2)" by fastforce
  obtain rc3 s3 where c: "SetClientEncoding (pending_client_encoding s2) s2 = (rc3, s3)" by fastforce
  have "session_ok s1" using assms(1) by (simp add: s1_def session_ok_def active_ok_def)
  then have "session_ok s3" using prepare_ok [OF _ p] set_client_ok [OF _ c] by blast
  moreover have "s' = s3 \<or> (\<exists>proc. s' = s3\<lparr>Utf8ToServerConvProc := Some proc\<rparr>)"
    using assms(3) p c by (auto simp: InitializeClientEncoding_def s1_def [symmetric] Let_def split: if_splits option.splits)
  ultimately show ?thesis by (auto simp: session_ok_def active_ok_def)
qed

lemma session_invariant: "session s \<Longrightarrow> session_ok s"
proof (induction rule: session.induct)
  case (start find_proc)
  then show ?case using sql_ascii_be by (simp add: session_ok_def active_ok_def)
next
  case (catalog s find_proc in_transaction)
  then show ?case by (simp add: session_ok_def active_ok_def)
next
  case (database s e s')
  then show ?case by (auto simp: SetDatabaseEncoding_def session_ok_def active_ok_def split: if_splits)
qed (blast dest: initialize_ok prepare_ok set_client_ok)+

section \<open>Strings from and to the client\<close>

lemma truncate_fields:
  "DatabaseEncoding (enc_env.truncate s) = DatabaseEncoding s" "ClientEncoding (enc_env.truncate s) = ClientEncoding s"
  "ToServerConvProc (enc_env.truncate s) = ToServerConvProc s" "ToClientConvProc (enc_env.truncate s) = ToClientConvProc s"
  "FindDefaultConversionProc (enc_env.truncate s) = FindDefaultConversionProc s"
  by (simp_all add: enc_env.defs)

lemma received_valid:
  assumes "session_ok s" "pg_any_to_server (enc_env.truncate s) str e = Inr r"
  shows "mb_valid (pg_encoding_verifymbchar (DatabaseEncoding s)) r"
proof (rule any_to_server_valid [of "enc_env.truncate s", unfolded truncate_fields, OF _ _ _ _ assms(2)])
  have a: "catalog_ok (FindDefaultConversionProc s)" "active_ok s" using assms(1) by (simp_all add: session_ok_def)
  show "PG_VALID_BE_ENCODING (DatabaseEncoding s)" using assms(1) by (simp add: session_ok_def)
  show "mb_valid (pg_encoding_verifymbchar (DatabaseEncoding s)) r'" if "ToServerConvProc s = Some proc" "proc src = Inr r'" for proc src r'
    using a(2) that by (auto simp: active_ok_def conv_valid_def)
  show "mb_valid (pg_encoding_verifymbchar (DatabaseEncoding s)) r'"
    if "FindDefaultConversionProc s e (DatabaseEncoding s) = Some proc" "proc src = Inr r'" for proc src r'
    using catalog_found [OF a(1) that(1)] that(2) by (auto simp: conv_valid_def)
  show "ClientEncoding s = DatabaseEncoding s \<or> ClientEncoding s = PG_SQL_ASCII \<or> DatabaseEncoding s = PG_SQL_ASCII"
    if "ToServerConvProc s = None" using a(2) that by (simp add: active_ok_def)
qed

lemma sent_valid:
  assumes "session_ok s" "mb_valid (pg_encoding_verifymbchar (DatabaseEncoding s)) str" "pg_server_to_client (enc_env.truncate s) str = Inr r"
  shows "mb_valid (pg_encoding_verifymbchar (ClientEncoding s)) r"
proof -
  have e: "mb_valid vc []" for vc unfolding mb_valid_def by (intro exI [of _ "[]"]) simp
  have z: "0 \<notin> set str" using char_verifier.valid_nonzero [OF encoding_verifier assms(2)] .
  have v: "PG_VALID_ENCODING (ClientEncoding s)" using assms(1) by (simp add: session_ok_def active_ok_def)
  consider "str = []" | "str \<noteq> []" "ClientEncoding s = DatabaseEncoding s"
    | "str \<noteq> []" "ClientEncoding s \<noteq> DatabaseEncoding s" "ClientEncoding s = PG_SQL_ASCII"
    | "str \<noteq> []" "ClientEncoding s \<noteq> DatabaseEncoding s" "ClientEncoding s \<noteq> PG_SQL_ASCII" "DatabaseEncoding s = PG_SQL_ASCII"
    | "str \<noteq> []" "ClientEncoding s \<noteq> DatabaseEncoding s" "ClientEncoding s \<noteq> PG_SQL_ASCII" "DatabaseEncoding s \<noteq> PG_SQL_ASCII" by blast
  then show ?thesis
  proof cases
    case 4
    then have "pg_verify_mbstr (ClientEncoding s) str False \<noteq> Inl x" "r = str" for x
      using assms(3) by (auto simp: pg_server_to_client_def pg_server_to_any_def truncate_fields bindR_def split: sum.splits)
    then show ?thesis using verified_valid [OF v, of str] by (cases "pg_verify_mbstr (ClientEncoding s) str False") auto
  next
    case 5
    then obtain proc where "ToClientConvProc s = Some proc" "call_conversion proc str = Inr r"
      using assms(1,3) by (auto simp: pg_server_to_client_def pg_server_to_any_def truncate_fields session_ok_def active_ok_def
          perform_default_encoding_conversion_def split: option.splits)
    then show ?thesis using assms(1) by (auto simp: session_ok_def active_ok_def conv_valid_def dest: call_conversion_result)
  qed (use assms(2,3) e sql_ascii_valid [OF z] in \<open>auto simp: pg_server_to_client_def pg_server_to_any_def truncate_fields\<close>)
qed

section \<open>Properties\<close>

text \<open>
  C13 (strings of a session): in every session, whatever client encodings are prepared and set in whatever order and
  however the catalog changes, a string that \<open>pg_any_to_server\<close> lets in from any encoding is valid in the
  encoding of the database, and a valid string of the database that \<open>pg_server_to_client\<close> sends is valid
  in the client encoding. No conversion that is needed is ever skipped for want of a procedure, and the cached
  procedures are always those of the current pair of encodings. The only assumption on the conversion procedures of the catalog is that they
  write strings that are valid in their destination encoding.
\<close>

theorem session_strings_valid:
  assumes "session s"
  shows "(pg_any_to_server (enc_env.truncate s) str e = Inr r \<longrightarrow> mb_valid (pg_encoding_verifymbchar (DatabaseEncoding s)) r)
    \<and> (mb_valid (pg_encoding_verifymbchar (DatabaseEncoding s)) str \<and> pg_server_to_client (enc_env.truncate s) str = Inr r
        \<longrightarrow> mb_valid (pg_encoding_verifymbchar (ClientEncoding s)) r)"
  using received_valid [OF session_invariant [OF assms]] sent_valid [OF session_invariant [OF assms]] by blast

text \<open>A session in an EUC-JP database whose client has chosen Shift JIS.\<close>

definition sample_conv :: conv_proc where
  "sample_conv s = (if s = [0x41, 0xb1] then Inr [0x41, 0x8e, 0xb1] else Inl ConversionError)"

definition sample_catalog :: "int \<Rightarrow> int \<Rightarrow> conv_proc option" where
  "sample_catalog src_enc dest_enc =
     (if src_enc = PG_SJIS \<and> dest_enc = PG_EUC_JP then Some sample_conv
      else if src_enc = PG_EUC_JP \<and> dest_enc = PG_SJIS then Some (\<lambda>s. Inl ConversionError)
      else None)"

lemma sample_catalog_ok: "catalog_ok sample_catalog"
proof -
  have m: "mb_valid (pg_encoding_verifymbchar PG_EUC_JP) [0x41, 0x8e, 0xb1]"
    unfolding mb_valid_def by (intro exI [of _ "[[0x41], [0x8e, 0xb1]]"]) (use eucjp_sample in simp)
  have "conv_valid sample_conv PG_EUC_JP" unfolding conv_valid_def
  proof (intro allI impI)
    fix src r
    assume "sample_conv src = Inr r"
    then have "r = [0x41, 0x8e, 0xb1]" by (cases "src = [0x41, 0xb1]") (simp_all add: sample_conv_def)
    then show "mb_valid (pg_encoding_verifymbchar PG_EUC_JP) r" using m by (simp only:)
  qed
  moreover have "conv_valid (\<lambda>s. Inl ConversionError) PG_SJIS" by (simp add: conv_valid_def)
  ultimately show ?thesis by (simp add: catalog_ok_def sample_catalog_def)
qed

definition sample_session :: enc_session where
  "sample_session = \<lparr>DatabaseEncoding = PG_EUC_JP, ClientEncoding = PG_SJIS,
     ToServerConvProc = sample_catalog PG_SJIS PG_EUC_JP, ToClientConvProc = sample_catalog PG_EUC_JP PG_SJIS,
     IsTransactionState = True, FindDefaultConversionProc = sample_catalog,
     ConvProcList = [\<lparr>s_encoding = PG_EUC_JP, c_encoding = PG_SJIS, to_server_info = the (sample_catalog PG_SJIS PG_EUC_JP),
       to_client_info = the (sample_catalog PG_EUC_JP PG_SJIS)\<rparr>],
     Utf8ToServerConvProc = None, backend_startup_complete = True, pending_client_encoding = PG_SJIS\<rparr>"

lemma sample_reachable: "session sample_session"
proof -
  note c = sample_catalog_ok
  have v: "PG_VALID_ENCODING PG_SJIS" "PG_VALID_BE_ENCODING PG_EUC_JP"
    by (simp_all add: PG_VALID_ENCODING_def PG_VALID_BE_ENCODING_def PG_UNUSED_ENCODING_def encoding_ids)
  define s0 where "s0 = \<lparr>DatabaseEncoding = PG_SQL_ASCII, ClientEncoding = PG_SQL_ASCII, ToServerConvProc = None,
    ToClientConvProc = None, IsTransactionState = False, FindDefaultConversionProc = sample_catalog, ConvProcList = [],
    Utf8ToServerConvProc = None, backend_startup_complete = False, pending_client_encoding = PG_SQL_ASCII\<rparr>"
  define s1 where "s1 = s0\<lparr>pending_client_encoding := PG_SJIS\<rparr>"
  define s2 where "s2 = s1\<lparr>IsTransactionState := True, FindDefaultConversionProc := sample_catalog\<rparr>"
  define s3 where "s3 = s2\<lparr>DatabaseEncoding := PG_EUC_JP\<rparr>"
  have "session s0" unfolding s0_def by (rule session.start [OF c])
  then have "session s1" using session.set_client [of s0 PG_SJIS 0 s1] v by (simp add: s0_def s1_def SetClientEncoding_def)
  then have "session s2" unfolding s2_def by (rule session.catalog [OF _ c])
  then have "session s3" using session.database [of s2 PG_EUC_JP s3] v by (simp add: s3_def s2_def s1_def s0_def SetDatabaseEncoding_def)
  moreover have "InitializeClientEncoding s3 = Inr sample_session"
  proof -
    have d: "PG_EUC_JP \<noteq> PG_SJIS" "PG_EUC_JP \<noteq> PG_SQL_ASCII" "PG_SJIS \<noteq> PG_SQL_ASCII" "PG_EUC_JP \<noteq> PG_UTF8" "PG_SJIS \<noteq> PG_UTF8"
      by (simp_all add: encoding_ids)
    obtain a b where f: "sample_catalog PG_SJIS PG_EUC_JP = Some a" "sample_catalog PG_EUC_JP PG_SJIS = Some b"
      "sample_catalog PG_UTF8 PG_EUC_JP = None" using d by (simp add: sample_catalog_def)
    show ?thesis using v d d [symmetric] f
      by (simp add: s3_def s2_def s1_def s0_def InitializeClientEncoding_def PrepareClientEncoding_def SetClientEncoding_def sample_session_def)
  qed
  ultimately show ?thesis using session.initialize [of s3 sample_session] by (simp add: s3_def s2_def s1_def s0_def)
qed

theorem session_strings_valid_witness:
  "pg_any_to_server (enc_env.truncate sample_session) [0x41, 0xb1] PG_SJIS = Inr [0x41, 0x8e, 0xb1]
   \<and> mb_valid (pg_encoding_verifymbchar (DatabaseEncoding sample_session)) [0x41, 0x8e, 0xb1]"
proof -
  have "pg_any_to_server (enc_env.truncate sample_session) [0x41, 0xb1] PG_SJIS = Inr [0x41, 0x8e, 0xb1]"
    by (simp add: pg_any_to_server_def truncate_fields sample_session_def sample_catalog_def sample_conv_def perform_default_encoding_conversion_def
        call_conversion_def MaxAllocHugeSize_def MAX_CONVERSION_GROWTH_def encoding_ids)
  then show ?thesis using session_strings_valid [OF sample_reachable] by blast
qed

end
