(* ===== verification/Pg_Encnames.thy ===== *)
theory Pg_Encnames
  imports Pg_Wchar
begin

text \<open>
  The names of the encodings (src/src/common/encnames.c): the sorted table of aliases, the binary search
  in it, and the official names.

  C strings are Isabelle strings; the \<open>char\<close> type is signed, and \<open>strcmp\<close> compares unsigned bytes.
  \<open>high\<close> tells which bytes above 127 the locale's \<open>isalnum\<close> accepts.
\<close>

section \<open>Code\<close>

definition pg_encname_tbl :: "(string \<times> int) list" where
  "pg_encname_tbl =
    [(''abc'', PG_WIN1258), (''alt'', PG_WIN866), (''big5'', PG_BIG5), (''euccn'', PG_EUC_CN),
     (''eucjis2004'', PG_EUC_JIS_2004), (''eucjp'', PG_EUC_JP), (''euckr'', PG_EUC_KR), (''euctw'', PG_EUC_TW),
     (''gb18030'', PG_GB18030), (''gbk'', PG_GBK), (''iso88591'', PG_LATIN1), (''iso885910'', PG_LATIN6),
     (''iso885913'', PG_LATIN7), (''iso885914'', PG_LATIN8), (''iso885915'', PG_LATIN9), (''iso885916'', PG_LATIN10),
     (''iso88592'', PG_LATIN2), (''iso88593'', PG_LATIN3), (''iso88594'', PG_LATIN4), (''iso88595'', PG_ISO_8859_5),
     (''iso88596'', PG_ISO_8859_6), (''iso88597'', PG_ISO_8859_7), (''iso88598'', PG_ISO_8859_8), (''iso88599'', PG_LATIN5),
     (''johab'', PG_JOHAB), (''koi8'', PG_KOI8R), (''koi8r'', PG_KOI8R), (''koi8u'', PG_KOI8U),
     (''latin1'', PG_LATIN1), (''latin10'', PG_LATIN10), (''latin2'', PG_LATIN2), (''latin3'', PG_LATIN3),
     (''latin4'', PG_LATIN4), (''latin5'', PG_LATIN5), (''latin6'', PG_LATIN6), (''latin7'', PG_LATIN7),
     (''latin8'', PG_LATIN8), (''latin9'', PG_LATIN9), (''mskanji'', PG_SJIS), (''shiftjis'', PG_SJIS),
     (''shiftjis2004'', PG_SHIFT_JIS_2004), (''sjis'', PG_SJIS), (''sqlascii'', PG_SQL_ASCII), (''tcvn'', PG_WIN1258),
     (''tcvn5712'', PG_WIN1258), (''uhc'', PG_UHC), (''unicode'', PG_UTF8), (''utf8'', PG_UTF8),
     (''vscii'', PG_WIN1258), (''win'', PG_WIN1251), (''win1250'', PG_WIN1250), (''win1251'', PG_WIN1251),
     (''win1252'', PG_WIN1252), (''win1253'', PG_WIN1253), (''win1254'', PG_WIN1254), (''win1255'', PG_WIN1255),
     (''win1256'', PG_WIN1256), (''win1257'', PG_WIN1257), (''win1258'', PG_WIN1258), (''win866'', PG_WIN866),
     (''win874'', PG_WIN874), (''win932'', PG_SJIS), (''win936'', PG_GBK), (''win949'', PG_UHC),
     (''win950'', PG_BIG5), (''windows1250'', PG_WIN1250), (''windows1251'', PG_WIN1251), (''windows1252'', PG_WIN1252),
     (''windows1253'', PG_WIN1253), (''windows1254'', PG_WIN1254), (''windows1255'', PG_WIN1255), (''windows1256'', PG_WIN1256),
     (''windows1257'', PG_WIN1257), (''windows1258'', PG_WIN1258), (''windows866'', PG_WIN866), (''windows874'', PG_WIN874),
     (''windows932'', PG_SJIS), (''windows936'', PG_GBK), (''windows949'', PG_UHC), (''windows950'', PG_BIG5)]"

definition pg_enc2name_tbl :: "string option list" where
  "pg_enc2name_tbl =
    [Some ''SQL_ASCII'', Some ''EUC_JP'', Some ''EUC_CN'', Some ''EUC_KR'', Some ''EUC_TW'', Some ''EUC_JIS_2004'',
     Some ''UTF8'', None, Some ''LATIN1'', Some ''LATIN2'', Some ''LATIN3'', Some ''LATIN4'',
     Some ''LATIN5'', Some ''LATIN6'', Some ''LATIN7'', Some ''LATIN8'', Some ''LATIN9'', Some ''LATIN10'',
     Some ''WIN1256'', Some ''WIN1258'', Some ''WIN866'', Some ''WIN874'', Some ''KOI8R'', Some ''WIN1251'',
     Some ''WIN1252'', Some ''ISO_8859_5'', Some ''ISO_8859_6'', Some ''ISO_8859_7'', Some ''ISO_8859_8'', Some ''WIN1250'',
     Some ''WIN1253'', Some ''WIN1254'', Some ''WIN1255'', Some ''WIN1257'', Some ''GB18030'', Some ''KOI8U'',
     Some ''SJIS'', Some ''BIG5'', Some ''GBK'', Some ''UHC'', Some ''JOHAB'', Some ''SHIFT_JIS_2004'']"

definition signed_char :: "char \<Rightarrow> int" where
  "signed_char c = (let n = int (of_char c) in if n \<ge> 128 then n - 256 else n)"

fun strcmp :: "string \<Rightarrow> string \<Rightarrow> int" where
  "strcmp [] [] = 0"
| "strcmp [] (b # bs) = - 1"
| "strcmp (a # as) [] = 1"
| "strcmp (a # as) (b # bs) =
     (if a = b then strcmp as bs else if (of_char a :: nat) < of_char b then - 1 else 1)"

definition is_alnum :: "(char \<Rightarrow> bool) \<Rightarrow> char \<Rightarrow> bool" where
  "is_alnum high c =
     (let n = (of_char c :: nat)
      in 48 \<le> n \<and> n \<le> 57 \<or> 65 \<le> n \<and> n \<le> 90 \<or> 97 \<le> n \<and> n \<le> 122 \<or> 128 \<le> n \<and> high c)"

fun clean_encoding_name :: "(char \<Rightarrow> bool) \<Rightarrow> string \<Rightarrow> string" where
  "clean_encoding_name high [] = []"
| "clean_encoding_name high (p # ps) =
     (if is_alnum high p then
        (if (of_char p :: nat) \<ge> 65 \<and> (of_char p :: nat) \<le> 90 then char_of ((of_char p :: nat) + 97 - 65) else p)
          # clean_encoding_name high ps
      else clean_encoding_name high ps)"

text \<open>The first character of a C string, 0 for the empty string, and the comparison of the search.\<close>

definition first_char :: "string \<Rightarrow> int" where
  "first_char s = (case s of [] \<Rightarrow> 0 | c # _ \<Rightarrow> signed_char c)"

definition encname_compare :: "string \<Rightarrow> string \<Rightarrow> int" where
  "encname_compare key name =
     (let result = first_char key - first_char name in if result = 0 then strcmp key name else result)"

text \<open>The search between the positions \<open>base\<close> and \<open>last\<close> (here \<open>hi\<close>) of the table.\<close>

function encname_search :: "string \<Rightarrow> int \<Rightarrow> int \<Rightarrow> int" where
  "encname_search key base hi =
     (if hi \<ge> base then
        (let position = base + (hi - base) div 2;
             (name, encoding) = pg_encname_tbl ! nat position;
             result = encname_compare key name
         in if result = 0 then encoding
            else if result < 0 then encname_search key base (position - 1)
            else encname_search key (position + 1) hi)
      else - 1)"
  by pat_completeness auto
termination
  by (relation "measure (\<lambda>(key, base, hi). nat (hi - base + 1))") auto

definition NAMEDATALEN :: nat where "NAMEDATALEN = 64"

definition pg_char_to_encoding :: "(char \<Rightarrow> bool) \<Rightarrow> string \<Rightarrow> int" where
  "pg_char_to_encoding high name =
     (if name = [] then - 1
      else if length name \<ge> NAMEDATALEN then - 1
      else encname_search (clean_encoding_name high name) 0 (int (length pg_encname_tbl) - 1))"

definition pg_valid_client_encoding :: "(char \<Rightarrow> bool) \<Rightarrow> string \<Rightarrow> int" where
  "pg_valid_client_encoding high name =
     (let enc = pg_char_to_encoding high name
      in if enc < 0 then - 1 else if \<not> PG_VALID_ENCODING enc then - 1 else enc)"

definition pg_valid_server_encoding :: "(char \<Rightarrow> bool) \<Rightarrow> string \<Rightarrow> int" where
  "pg_valid_server_encoding high name =
     (let enc = pg_char_to_encoding high name
      in if enc < 0 then - 1 else if \<not> PG_VALID_BE_ENCODING enc then - 1 else enc)"

definition pg_encoding_to_char :: "int \<Rightarrow> string" where
  "pg_encoding_to_char encoding =
     (if PG_VALID_ENCODING encoding then the (pg_enc2name_tbl ! nat encoding) else [])"

declare encname_search.simps [simp del]

section \<open>The order of the search\<close>

lemma char_order: "a \<noteq> b \<Longrightarrow> \<not> (of_char a :: nat) < of_char b \<longleftrightarrow> (of_char b :: nat) < of_char a"
  by (metis nat_neq_iff of_char_eq_iff less_asym)

lemma strcmp_0: "strcmp a b = 0 \<longleftrightarrow> a = b"
  by (induction a b rule: strcmp.induct) auto

lemma strcmp_trans: "strcmp a b < 0 \<Longrightarrow> strcmp b c < 0 \<Longrightarrow> strcmp a c < 0"
proof (induction a b arbitrary: c rule: strcmp.induct)
  case (4 a as b bs)
  then show ?case by (cases c) (auto split: if_splits)
next
  case (2 b bs)
  then show ?case by (cases c) auto
qed simp_all

lemma strcmp_antisym: "strcmp b a = - strcmp a b"
  by (induction a b rule: strcmp.induct) (auto simp: char_order)

lemma strcmp_first: "strcmp (a # as) (b # bs) < 0 \<Longrightarrow> (of_char a :: nat) \<le> of_char b"
  by (auto split: if_splits)

definition ascii_name :: "string \<Rightarrow> bool" where
  "ascii_name n \<longleftrightarrow> n \<noteq> [] \<and> 0 < (of_char (n ! 0) :: nat) \<and> (of_char (n ! 0) :: nat) < 128"

lemma first_char_ascii: "ascii_name n \<Longrightarrow> first_char n = int (of_char (n ! 0))"
  by (cases n) (auto simp: ascii_name_def first_char_def signed_char_def Let_def)

lemma first_char_mono:
  assumes "ascii_name n" "ascii_name m" "strcmp n m < 0"
  shows "first_char n \<le> first_char m"
proof -
  obtain a as b bs where "n = a # as" "m = b # bs" using assms(1,2) by (cases n; cases m) (auto simp: ascii_name_def)
  then show ?thesis using strcmp_first [of a as b bs] assms by (simp add: first_char_ascii)
qed

lemma compare_left:
  assumes "ascii_name n" "ascii_name m" "strcmp n m < 0" "encname_compare key n < 0"
  shows "encname_compare key m < 0"
  using first_char_mono [OF assms(1-3)] strcmp_trans [OF _ assms(3), of key] assms(4)
  by (auto simp: encname_compare_def Let_def split: if_splits)

lemma compare_right:
  assumes "ascii_name n" "ascii_name m" "strcmp n m < 0" "encname_compare key m > 0"
  shows "encname_compare key n > 0"
proof -
  have "strcmp key n > 0" if "strcmp key m > 0"
    using strcmp_trans [OF assms(3), of key] that strcmp_antisym [of key m] strcmp_antisym [of key n] by simp
  then show ?thesis using first_char_mono [OF assms(1-3)] assms(4)
    by (auto simp: encname_compare_def Let_def split: if_splits)
qed

lemma compare_0: "encname_compare key n = 0 \<longleftrightarrow> key = n"
  by (auto simp: encname_compare_def Let_def strcmp_0)

lemma table_sorted: "sorted_wrt (\<lambda>a b. strcmp a b < 0) (map fst pg_encname_tbl)"
proof -
  have "transp (\<lambda>a b. strcmp a b < 0)" by (rule transpI) (rule strcmp_trans)
  moreover have "successively (\<lambda>a b. strcmp a b < 0) (map fst pg_encname_tbl)"
    by (simp add: pg_encname_tbl_def)
  ultimately show ?thesis by (simp add: successively_conv_sorted_wrt)
qed

lemma table_ascii: "list_all ascii_name (map fst pg_encname_tbl)"
  by (simp add: pg_encname_tbl_def ascii_name_def)

section \<open>The search finds every name of the table\<close>

abbreviation tbl_name :: "nat \<Rightarrow> string" where
  "tbl_name i \<equiv> fst (pg_encname_tbl ! i)"

lemma table_less:
  assumes "i < j" "j < length pg_encname_tbl"
  shows "strcmp (tbl_name i) (tbl_name j) < 0" "ascii_name (tbl_name i)" "ascii_name (tbl_name j)"
  using table_sorted table_ascii assms by (auto simp: sorted_wrt_iff_nth_less list_all_length)

lemma table_distinct: "distinct (map fst pg_encname_tbl)"
proof (rule distinct_conv_nth [THEN iffD2], intro allI impI)
  fix i j
  assume "i < length (map fst pg_encname_tbl)" "j < length (map fst pg_encname_tbl)" "i \<noteq> j"
  then show "map fst pg_encname_tbl ! i \<noteq> map fst pg_encname_tbl ! j"
    using table_less(1) [of i j] table_less(1) [of j i] strcmp_0 [of "tbl_name i" "tbl_name j"]
      strcmp_0 [of "tbl_name j" "tbl_name i"] by (cases "i < j") auto
qed

lemma lookup_index: "i < length pg_encname_tbl \<Longrightarrow> map_of pg_encname_tbl (tbl_name i) = Some (snd (pg_encname_tbl ! i))"
  using table_distinct by (intro map_of_is_SomeI) auto

lemma search_correct:
  assumes "0 \<le> base" "base \<le> hi + 1" "hi < int (length pg_encname_tbl)"
    and "\<And>i. int i < base \<Longrightarrow> encname_compare key (tbl_name i) > 0"
    and "\<And>i. hi < int i \<Longrightarrow> i < length pg_encname_tbl \<Longrightarrow> encname_compare key (tbl_name i) < 0"
  shows "encname_search key base hi = (case map_of pg_encname_tbl key of Some e \<Rightarrow> e | None \<Rightarrow> - 1)"
  using assms
proof (induction key base hi rule: encname_search.induct)
  case (1 key base hi)
  show ?case
  proof (cases "hi \<ge> base")
    case False
    have "key \<noteq> tbl_name i" if "i < length pg_encname_tbl" for i
      using "1.prems"(4,5) [of i] that False compare_0 [of key "tbl_name i"] by (cases "int i < base") auto
    then have "map_of pg_encname_tbl key = None" by (fastforce simp: map_of_eq_None_iff in_set_conv_nth)
    then show ?thesis using False by (simp add: encname_search.simps)
  next
    case True
    define p where "p = base + (hi - base) div 2"
    define q where "q = nat p"
    obtain name encoding where e: "pg_encname_tbl ! q = (name, encoding)" by force
    define result where "result = encname_compare key name"
    have p: "base \<le> p" "p \<le> hi" using True by (auto simp: p_def)
    then have q: "int q = p" "q < length pg_encname_tbl" using "1.prems"(1,3) by (auto simp: q_def)
    have s: "encname_search key base hi = (if result = 0 then encoding
        else if result < 0 then encname_search key base (p - 1) else encname_search key (p + 1) hi)"
      using True e by (subst encname_search.simps) (simp add: Let_def result_def flip: p_def q_def)
    consider "result = 0" | "result < 0" | "result > 0" by linarith
    then show ?thesis
    proof cases
      case 1
      then have "key = tbl_name q" using e by (simp add: result_def compare_0)
      then show ?thesis using 1 s e lookup_index [OF q(2)] by simp
    next
      case 2
      have "encname_compare key (tbl_name i) < 0" if "p - 1 < int i" "i < length pg_encname_tbl" for i
        using compare_left [of "tbl_name q" "tbl_name i" key] table_less [of q i] that q e 2 by (cases "i = q") (auto simp: result_def)
      then show ?thesis using s 2 p "1.prems" "1.IH"(1) [OF True p_def] e by (simp add: result_def flip: q_def)
    next
      case 3
      have "encname_compare key (tbl_name i) > 0" if "int i < p + 1" for i
        using compare_right [of "tbl_name i" "tbl_name q" key] table_less [of i q] that q e 3 by (cases "i = q") (auto simp: result_def)
      then show ?thesis using s 3 p "1.prems" "1.IH"(2) [OF True p_def] e by (simp add: result_def flip: q_def)
    qed
  qed
qed

lemma char_to_encoding_core:
  "pg_char_to_encoding high name =
     (if name = [] \<or> length name \<ge> 64 then - 1
      else (case map_of pg_encname_tbl (clean_encoding_name high name) of Some e \<Rightarrow> e | None \<Rightarrow> - 1))"
  using search_correct [of 0 "int (length pg_encname_tbl) - 1" "clean_encoding_name high name"]
  by (simp add: pg_char_to_encoding_def NAMEDATALEN_def)

section \<open>Official names\<close>

lemma official_table:
  "list_all (\<lambda>(e, n). case n of None \<Rightarrow> e = 7
      | Some s \<Rightarrow> s \<noteq> [] \<and> length s < 64 \<and> (clean_encoding_name high s, e) \<in> set pg_encname_tbl)
    (zip [0..41] pg_enc2name_tbl)"
  by (simp add: pg_enc2name_tbl_def pg_encname_tbl_def is_alnum_def encoding_ids upto.simps) (simp add: char_of_def bit_0)

lemma length_enc2name: "length pg_enc2name_tbl = 42"
  by (simp add: pg_enc2name_tbl_def)

lemma official_name:
  assumes "PG_VALID_ENCODING e"
  obtains s where "pg_encoding_to_char e = s" "s \<noteq> []" "length s < 64"
    "(clean_encoding_name high s, e) \<in> set pg_encname_tbl"
proof -
  have e: "0 \<le> e" "e < 42" "e \<noteq> 7" using assms by (auto simp: PG_VALID_ENCODING_def PG_UNUSED_ENCODING_def encoding_ids)
  have "case pg_enc2name_tbl ! nat e of None \<Rightarrow> e = 7
      | Some s \<Rightarrow> s \<noteq> [] \<and> length s < 64 \<and> (clean_encoding_name high s, e) \<in> set pg_encname_tbl"
    using official_table [of high, unfolded list_all_length, rule_format, of "nat e"] e
    by (auto simp: length_enc2name nat_less_iff split: option.splits)
  then show thesis using e that assms by (auto simp: pg_encoding_to_char_def split: option.splits)
qed

section \<open>Properties\<close>

text \<open>
  C14 (encoding names): \<open>pg_char_to_encoding\<close> returns for every name the encoding that the table gives
  to the name in lower case without punctuation, and -1 exactly for the names that are not in the
  table, empty or too long; its binary search misses no entry and always ends.
\<close>

theorem char_to_encoding_correct:
  "pg_char_to_encoding high name =
     (if name = [] \<or> length name \<ge> 64 then - 1
      else (case map_of pg_encname_tbl (clean_encoding_name high name) of Some e \<Rightarrow> e | None \<Rightarrow> - 1))"
  by (rule char_to_encoding_core)

text \<open>
  Official names: the official name of every encoding, the one \<open>pg_encoding_to_char\<close> returns, is
  resolved to this encoding by \<open>pg_char_to_encoding\<close>, in every locale; \<open>pg_valid_server_encoding\<close>
  accepts it exactly for the encodings a server can use.
\<close>

theorem official_names_resolve:
  assumes "PG_VALID_ENCODING e"
  shows "pg_char_to_encoding high (pg_encoding_to_char e) = e
    \<and> pg_valid_server_encoding high (pg_encoding_to_char e) = (if PG_VALID_BE_ENCODING e then e else - 1)"
proof -
  obtain s where s: "pg_encoding_to_char e = s" "s \<noteq> []" "length s < 64"
    "(clean_encoding_name high s, e) \<in> set pg_encname_tbl" by (rule official_name [OF assms])
  then have "pg_char_to_encoding high s = e" using map_of_is_SomeI [OF table_distinct s(4)] by (simp add: char_to_encoding_core)
  then show ?thesis using s(1) assms by (simp add: pg_valid_server_encoding_def PG_VALID_ENCODING_def)
qed

theorem official_names_resolve_witness:
  "PG_VALID_ENCODING PG_GB18030 \<and> pg_encoding_to_char PG_GB18030 = ''GB18030''
   \<and> pg_char_to_encoding (\<lambda>_. True) ''GB18030'' = PG_GB18030"
proof -
  have v: "PG_VALID_ENCODING PG_GB18030" by (simp add: PG_VALID_ENCODING_def PG_UNUSED_ENCODING_def encoding_ids)
  moreover have "pg_encoding_to_char PG_GB18030 = ''GB18030''"
    using v by (simp add: pg_encoding_to_char_def PG_GB18030_def pg_enc2name_tbl_def)
  ultimately show ?thesis using official_names_resolve [OF v, of "\<lambda>_. True"] by simp
qed

end
