(* ===== verification/Utl_Url.thy ===== *)
theory Utl_Url
  imports Pg_Mbstr Pg_Encnames
begin

text \<open>
  The package UTL\_URL
  (src/contrib/ivorysql\_ora/src/builtin\_packages/utl\_url/utl\_url.c): ESCAPE and UNESCAPE with their
  character set argument. A text is its list of bytes, NULL is \<open>None\<close>; the session's encodings and
  conversions are the environment of theory Pg\_Mbstr. Buffers grow as needed: the error that \<open>StringInfo\<close> raises for a result
  of 1 GB or more is not modelled.
\<close>

datatype url_error =
  UnrecognizedCharset string
| TruncatedEscape nat
| BadEscape nat
| EscapedNul
| CharsetError mb_error

section \<open>Code\<close>

definition UTL_URL_UNRESERVED_CHARS :: bytes where
  "UTL_URL_UNRESERVED_CHARS = map of_char (''-_.!~*'' @ [CHR 0x27] @ ''()'')"

definition UTL_URL_RESERVED_CHARS :: bytes where
  "UTL_URL_RESERVED_CHARS = map of_char '';/?:@&=+$,''"

definition utl_url_is_unreserved :: "byte \<Rightarrow> bool" where
  "utl_url_is_unreserved c \<longleftrightarrow>
     (c \<ge> of_char CHR ''A'' \<and> c \<le> of_char CHR ''Z'') \<or> (c \<ge> of_char CHR ''a'' \<and> c \<le> of_char CHR ''z'')
     \<or> (c \<ge> of_char CHR ''0'' \<and> c \<le> of_char CHR ''9'') \<or> (c \<noteq> 0 \<and> c \<in> set UTL_URL_UNRESERVED_CHARS)"

definition utl_url_is_reserved :: "byte \<Rightarrow> bool" where
  "utl_url_is_reserved c \<longleftrightarrow> c \<noteq> 0 \<and> c \<in> set UTL_URL_RESERVED_CHARS"

definition utl_url_hexval :: "byte \<Rightarrow> int" where
  "utl_url_hexval c =
     (if c \<ge> of_char CHR ''0'' \<and> c \<le> of_char CHR ''9'' then uint c - of_char CHR ''0''
      else if c \<ge> of_char CHR ''A'' \<and> c \<le> of_char CHR ''F'' then uint c - of_char CHR ''A'' + 10
      else if c \<ge> of_char CHR ''a'' \<and> c \<le> of_char CHR ''f'' then uint c - of_char CHR ''a'' + 10
      else - 1)"

definition utl_url_charset_to_encoding :: "(char \<Rightarrow> bool) \<Rightarrow> string \<Rightarrow> (url_error, int) res" where
  "utl_url_charset_to_encoding high charset =
     (let encoding = pg_char_to_encoding high charset
      in if encoding < 0 then Inl (UnrecognizedCharset charset) else Inr encoding)"

text \<open>Errors of the encoding functions, and \<open>strlen\<close> on their results.\<close>

definition charset_res :: "(mb_error, bytes) res \<Rightarrow> (url_error, bytes) res" where
  "charset_res r = (case r of Inl e \<Rightarrow> Inl (CharsetError e) | Inr s \<Rightarrow> Inr (takeWhile (\<lambda>c. c \<noteq> 0) s))"

text \<open>The format \<open>%02X\<close>.\<close>

definition hex_digit :: "nat \<Rightarrow> byte" where
  "hex_digit n = (if n < 10 then of_nat (48 + n) else of_nat (55 + n))"

definition escape_byte :: "bool \<Rightarrow> byte \<Rightarrow> bytes" where
  "escape_byte escape_reserved c =
     (if utl_url_is_unreserved c \<or> (\<not> escape_reserved \<and> utl_url_is_reserved c) then [c]
      else [of_char CHR ''%'', hex_digit (unat c div 16), hex_digit (unat c mod 16)])"

definition ivorysql_utl_url_escape ::
  "enc_env \<Rightarrow> (char \<Rightarrow> bool) \<Rightarrow> bytes option \<Rightarrow> bool option \<Rightarrow> string option \<Rightarrow> (url_error, bytes option) res" where
  "ivorysql_utl_url_escape env high url escape_reserved_chars url_charset =
     (case url of
        None \<Rightarrow> Inr None
      | Some url \<Rightarrow>
          (let escape_reserved = (case escape_reserved_chars of None \<Rightarrow> False | Some b \<Rightarrow> b)
           in bindR (case url_charset of None \<Rightarrow> Inr (DatabaseEncoding env)
                     | Some cs \<Rightarrow> utl_url_charset_to_encoding high cs) (\<lambda>target_encoding.
              let src = takeWhile (\<lambda>c. c \<noteq> 0) url
              in bindR (charset_res (pg_server_to_any env src target_encoding)) (\<lambda>converted.
                 Inr (Some (concat (map (escape_byte escape_reserved) converted)))))))"

definition flush_pending :: "enc_env \<Rightarrow> int \<Rightarrow> bytes \<Rightarrow> bytes \<Rightarrow> (url_error, bytes) res" where
  "flush_pending env source_encoding out pending =
     (if length pending > 0 then
        bindR (charset_res (pg_any_to_server env pending source_encoding)) (\<lambda>converted. Inr (out @ converted))
      else Inr out)"

text \<open>The loop at position \<open>i\<close>; \<open>src\<close> is the rest of the URL.\<close>

function unescape_loop :: "enc_env \<Rightarrow> int \<Rightarrow> nat \<Rightarrow> bytes \<Rightarrow> bytes \<Rightarrow> bytes \<Rightarrow> (url_error, bytes) res" where
  "unescape_loop env source_encoding i src out pending =
     (if src = [] then flush_pending env source_encoding out pending
      else if src ! 0 = of_char CHR ''%'' then
        if 2 \<ge> length src then Inl (TruncatedEscape (i + 1))
        else
          (let hi = utl_url_hexval (src ! 1); lo = utl_url_hexval (src ! 2)
           in if hi < 0 \<or> lo < 0 then Inl (BadEscape (i + 1))
              else if hi = 0 \<and> lo = 0 then Inl EscapedNul
              else unescape_loop env source_encoding (i + 3) (drop 3 src) out
                     (pending @ [of_int (push_bit 4 hi OR lo)]))
      else
        bindR (flush_pending env source_encoding out pending) (\<lambda>out.
          unescape_loop env source_encoding (i + 1) (drop 1 src) (out @ [src ! 0]) []))"
  by pat_completeness auto
termination
  by (relation "measure (\<lambda>(env, e, i, src, out, pending). length src)") auto

definition ivorysql_utl_url_unescape ::
  "enc_env \<Rightarrow> (char \<Rightarrow> bool) \<Rightarrow> bytes option \<Rightarrow> string option \<Rightarrow> (url_error, bytes option) res" where
  "ivorysql_utl_url_unescape env high url url_charset =
     (case url of
        None \<Rightarrow> Inr None
      | Some url \<Rightarrow>
          bindR (case url_charset of None \<Rightarrow> Inr (DatabaseEncoding env)
                 | Some cs \<Rightarrow> utl_url_charset_to_encoding high cs) (\<lambda>source_encoding.
          bindR (unescape_loop env source_encoding 0 (takeWhile (\<lambda>c. c \<noteq> 0) url) [] []) (\<lambda>out.
          Inr (Some out))))"

declare unescape_loop.simps [simp del]

section \<open>One escaped byte\<close>

definition url_literal :: "bool \<Rightarrow> byte \<Rightarrow> bool" where
  "url_literal r c \<longleftrightarrow> utl_url_is_unreserved c \<or> (\<not> r \<and> utl_url_is_reserved c)"

lemma hexval_digit: "n < 16 \<Longrightarrow> utl_url_hexval (hex_digit n) = int n"
proof -
  have "\<forall>n \<in> set [0..<16]. utl_url_hexval (hex_digit n) = int n" by code_simp
  then show "n < 16 \<Longrightarrow> utl_url_hexval (hex_digit n) = int n" by simp
qed

lemma highbit_ge: "IS_HIGHBIT_SET a \<longleftrightarrow> 0x80 \<le> a"
  by (simp add: IS_HIGHBIT_SET_def byte_masks word_le_nat_alt not_less)

lemma literal_facts: "url_literal r c \<Longrightarrow> c \<noteq> of_char CHR ''%'' \<and> c \<noteq> 0 \<and> \<not> IS_HIGHBIT_SET c"
  unfolding url_literal_def utl_url_is_unreserved_def utl_url_is_reserved_def highbit_ge
    UTL_URL_UNRESERVED_CHARS_def UTL_URL_RESERVED_CHARS_def
  by (auto simp: word_le_nat_alt)

lemma join_nibbles: "of_int (push_bit 4 (int (unat c div 16)) OR int (unat c mod 16)) = c" for c :: byte
proof -
  have "push_bit 4 (int (unat c div 16)) OR int (unat c mod 16) = int ((unat c div 16 * 2 ^ 4) OR (unat c mod 16))"
    by (simp add: push_bit_eq_mult of_nat_or_eq)
  also have "\<dots> = int (unat c)" by (subst or_disjoint) simp_all
  finally show ?thesis by simp
qed

section \<open>Encodings in which other characters have no ASCII bytes\<close>

definition ascii_safe :: "(bytes \<Rightarrow> nat option) \<Rightarrow> bool" where
  "ascii_safe vc \<longleftrightarrow> (\<forall>c. mb_char vc c \<longrightarrow> length c = 1 \<or> list_all IS_HIGHBIT_SET c)"

lemma ascii_safeI:
  assumes "char_verifier vc ml mx" "mx \<le> 4"
    and "\<And>a b. vc [a, b] = Some 2 \<Longrightarrow> IS_HIGHBIT_SET a \<and> IS_HIGHBIT_SET b"
    and "\<And>a b c. vc [a, b, c] = Some 3 \<Longrightarrow> IS_HIGHBIT_SET a \<and> IS_HIGHBIT_SET b \<and> IS_HIGHBIT_SET c"
    and "\<And>a b c d. vc [a, b, c, d] = Some 4 \<Longrightarrow> IS_HIGHBIT_SET a \<and> IS_HIGHBIT_SET b \<and> IS_HIGHBIT_SET c \<and> IS_HIGHBIT_SET d"
  shows "ascii_safe vc"
  unfolding ascii_safe_def
proof (intro allI impI)
  fix c
  assume c: "mb_char vc c"
  then have n: "c \<noteq> []" "vc c = Some (length c)" by (auto simp: mb_char_def)
  have "length c \<le> 4" using char_verifier.char_facts(5) [OF assms(1) c] assms(2) by simp
  note facts = this n(2) assms(3-5)
  show "length c = 1 \<or> list_all IS_HIGHBIT_SET c"
    by (rule byte_cases [OF n(1)]; insert facts) (auto simp: numeral_eq_Suc)
qed

lemma high_ranges:
  "IS_EUC_RANGE_VALID a \<Longrightarrow> IS_HIGHBIT_SET a" "\<not> a < 0xa1 \<Longrightarrow> IS_HIGHBIT_SET a" "\<not> a < 0x80 \<Longrightarrow> IS_HIGHBIT_SET a"
  "islegal_second x a \<Longrightarrow> IS_HIGHBIT_SET a"
  by (auto simp: islegal_second_def IS_EUC_RANGE_VALID_def highbit_ge word_le_nat_alt word_less_nat_alt split: if_splits)

lemma safe_single: "(\<And>s. vc s = Some 1) \<Longrightarrow> ascii_safe vc"
  by (auto simp: ascii_safe_def mb_char_def)

lemma safe_eucjp: "ascii_safe pg_eucjp_verifychar"
  by (rule ascii_safeI [OF eucjp.char_verifier_axioms]) (auto simp: pg_eucjp_verifychar_def split: if_splits intro: high_ranges)

lemma safe_euckr: "ascii_safe pg_euckr_verifychar"
  by (rule ascii_safeI [OF euckr.char_verifier_axioms]) (auto simp: pg_euckr_verifychar_def split: if_splits intro: high_ranges)

lemma safe_euctw: "ascii_safe pg_euctw_verifychar"
  by (rule ascii_safeI [OF euctw.char_verifier_axioms]) (auto simp: pg_euctw_verifychar_def split: if_splits intro: high_ranges)

lemma utf8_parts: "pg_utf8_verifychar s = Some l \<Longrightarrow> l = 1 \<or> IS_HIGHBIT_SET (s ! 0) \<and> pg_utf8_islegal s l"
  by (auto simp: pg_utf8_verifychar_def IS_HIGHBIT_SET_def Let_def split: if_splits)

lemma legal_high:
  "pg_utf8_islegal s l \<Longrightarrow> (2 \<le> l \<longrightarrow> IS_HIGHBIT_SET (s ! 1)) \<and> (3 \<le> l \<longrightarrow> IS_HIGHBIT_SET (s ! 2)) \<and> (4 \<le> l \<longrightarrow> IS_HIGHBIT_SET (s ! 3))"
  using high_ranges(3) [of "s ! 2"] high_ranges(3) [of "s ! 3"] high_ranges(4) [of "s ! 0" "s ! 1"]
  unfolding pg_utf8_islegal_def by (simp split: if_splits)

lemma safe_utf8: "ascii_safe pg_utf8_verifychar"
proof (rule ascii_safeI [OF utf8.char_verifier_axioms])
  show "IS_HIGHBIT_SET a \<and> IS_HIGHBIT_SET b" if "pg_utf8_verifychar [a, b] = Some 2" for a b
    using utf8_parts [OF that] legal_high [of "[a, b]" 2] by simp
  show "IS_HIGHBIT_SET a \<and> IS_HIGHBIT_SET b \<and> IS_HIGHBIT_SET c" if "pg_utf8_verifychar [a, b, c] = Some 3" for a b c
    using utf8_parts [OF that] legal_high [of "[a, b, c]" 3] by simp
  show "IS_HIGHBIT_SET a \<and> IS_HIGHBIT_SET b \<and> IS_HIGHBIT_SET c \<and> IS_HIGHBIT_SET d"
    if "pg_utf8_verifychar [a, b, c, d] = Some 4" for a b c d
    using utf8_parts [OF that] legal_high [of "[a, b, c, d]" 4] by simp
qed simp

text \<open>Of the encodings of a database, only GB18030 has ASCII bytes inside its characters.\<close>

lemma safe_table:
  "list_all (\<lambda>(i, t). i = 7 \<or> i = 34 \<or> ascii_safe (mbverifychar (the t))) (zip [0..<36] (take 36 pg_wchar_table))"
  by (simp add: pg_wchar_table_def upt_rec numeral_eq_Suc safe_eucjp safe_euckr safe_euctw safe_utf8
      safe_single [of pg_ascii_verifychar, OF pg_ascii_verifychar_def]
      safe_single [of pg_latin1_verifychar, OF pg_latin1_verifychar_def])

lemma be_valid: "PG_VALID_BE_ENCODING e \<Longrightarrow> PG_VALID_ENCODING e \<and> nat e < 36 \<and> nat e \<noteq> 7"
  by (auto simp: PG_VALID_BE_ENCODING_def PG_VALID_ENCODING_def PG_UNUSED_ENCODING_def encoding_ids nat_eq_iff)

lemma database_safe:
  assumes "PG_VALID_BE_ENCODING e" "e \<noteq> PG_GB18030"
  shows "ascii_safe (pg_encoding_verifymbchar e)"
proof -
  have e: "nat e < 36" "nat e \<noteq> 7" "nat e \<noteq> 34" using be_valid [OF assms(1)] assms by (auto simp: PG_GB18030_def PG_VALID_BE_ENCODING_def nat_eq_iff)
  have l: "length pg_wchar_table = 42" using arg_cong [OF table_shape, of length] by simp
  have "ascii_safe (mbverifychar (the (pg_wchar_table ! nat e)))"
    using safe_table [unfolded list_all_length] e l by (auto dest!: spec [of _ "nat e"])
  then show ?thesis using be_valid [OF assms(1)] by (simp flip: valid_entry_functions add: wchar_entry_def)
qed

section \<open>The loop of UNESCAPE on an escaped string\<close>

lemma escape_byte_literal: "escape_byte r c = (if url_literal r c then [c]
    else [of_char CHR ''%'', hex_digit (unat c div 16), hex_digit (unat c mod 16)])"
  by (simp add: escape_byte_def url_literal_def)

lemma unescape_literal:
  "url_literal r c \<Longrightarrow> unescape_loop env e i (c # t) out p
     = bindR (flush_pending env e out p) (\<lambda>out. unescape_loop env e (i + 1) t (out @ [c]) [])"
  using literal_facts [of r c] by (subst unescape_loop.simps) simp

lemma unescape_escaped:
  assumes "\<not> url_literal r c" "c \<noteq> 0"
  shows "unescape_loop env e i (escape_byte r c @ t) out p = unescape_loop env e (i + 3) t out (p @ [c])"
proof -
  have h: "unat c div 16 < 16" "unat c mod 16 < 16" using unat_byte [of c] by auto
  have "unat c \<noteq> 0" using assms(2) by (simp add: unat_eq_zero)
  then have z: "\<not> (int (unat c div 16) = 0 \<and> int (unat c mod 16) = 0)" using div_mult_mod_eq [of "unat c" 16] by linarith
  show ?thesis using assms(1) z hexval_digit [OF h(1)] hexval_digit [OF h(2)] join_nibbles [of c]
    by (subst unescape_loop.simps) (auto simp: escape_byte_literal Let_def simp del: push_bit_of_nat)
qed

lemma unescape_run:
  "\<forall>b \<in> set c. \<not> url_literal r b \<and> b \<noteq> 0 \<Longrightarrow>
     unescape_loop env e i (concat (map (escape_byte r) c) @ t) out p = unescape_loop env e (i + 3 * length c) t out (p @ c)"
  by (induction c arbitrary: i p) (simp_all add: unescape_escaped add.assoc)

lemma nonzero_takeWhile: "0 \<notin> set s \<Longrightarrow> takeWhile (\<lambda>c. c \<noteq> 0) s = s" for s :: bytes
  by (intro takeWhile_eq_all_conv [THEN iffD2]) auto

lemma flush_valid:
  assumes "PG_VALID_ENCODING (DatabaseEncoding env)" "list_all (mb_char (pg_encoding_verifymbchar (DatabaseEncoding env))) ps"
  shows "flush_pending env (DatabaseEncoding env) out (concat ps) = Inr (out @ concat ps)"
proof -
  have z: "0 \<notin> set (concat ps)"
    using char_verifier.valid_nonzero [OF encoding_verifier, of "DatabaseEncoding env" "concat ps"] assms(2) by (auto simp: mb_valid_def)
  have "pg_encoding_verifymbstr (DatabaseEncoding env) (concat ps) = Some (length (concat ps))"
    using char_verifier.loop_chars [OF encoding_verifier assms(2), of "[]" 0]
    by (simp add: encoding_functions verify_loop.simps)
  then have "pg_verify_mbstr (DatabaseEncoding env) (concat ps) False = Inr True"
    by (simp add: pg_verify_mbstr_def valid_entry_functions [OF assms(1)])
  then have "charset_res (pg_any_to_server env (concat ps) (DatabaseEncoding env)) = Inr (concat ps)"
    by (simp add: pg_any_to_server_def charset_res_def nonzero_takeWhile [OF z])
  then show ?thesis by (simp add: flush_pending_def)
qed

lemma unescape_chars:
  assumes "PG_VALID_ENCODING (DatabaseEncoding env)" "ascii_safe vc" "vc = pg_encoding_verifymbchar (DatabaseEncoding env)"
  shows "list_all (mb_char vc) cs \<Longrightarrow> list_all (mb_char vc) ps \<Longrightarrow>
    unescape_loop env (DatabaseEncoding env) i (concat (map (escape_byte r) (concat cs))) out (concat ps)
      = Inr (out @ concat ps @ concat cs)"
proof (induction cs arbitrary: i out ps)
  case Nil
  then show ?case using flush_valid [OF assms(1)] assms(3) by (simp add: unescape_loop.simps)
next
  case (Cons c cs)
  have c: "mb_char vc c" "list_all (mb_char vc) cs" using Cons.prems by simp_all
  show ?case
  proof (cases "\<exists>b. c = [b] \<and> url_literal r b")
    case True
    then obtain b where b: "c = [b]" "url_literal r b" by blast
    then show ?thesis using flush_valid [OF assms(1)] assms(3) Cons.prems Cons.IH [OF c(2), of "[]"]
      by (simp add: escape_byte_literal unescape_literal [OF b(2)])
  next
    case False
    have "\<forall>b \<in> set c. \<not> url_literal r b \<and> b \<noteq> 0"
    proof (cases "length c = 1")
      case True
      then show ?thesis using False c(1) by (auto simp: length_Suc_conv mb_char_def)
    next
      case False
      then have "list_all IS_HIGHBIT_SET c" using c(1) assms(2) by (auto simp: ascii_safe_def)
      then show ?thesis using literal_facts by (auto simp: list_all_iff)
    qed
    from unescape_run [OF this] show ?thesis using Cons.IH [OF c(2), of "ps @ [c]"] Cons.prems c(1) by simp
  qed
qed

text \<open>The alphabet of the result of ESCAPE.\<close>

lemma hex_unreserved: "n < 16 \<Longrightarrow> utl_url_is_unreserved (hex_digit n)"
proof -
  have "\<forall>n \<in> set [0..<16]. utl_url_is_unreserved (hex_digit n)" by code_simp
  then show "n < 16 \<Longrightarrow> utl_url_is_unreserved (hex_digit n)" by simp
qed

lemma escape_alphabet: "list_all (\<lambda>c. c = of_char CHR ''%'' \<or> url_literal r c) (concat (map (escape_byte r) s))"
proof (induction s)
  case (Cons c s)
  have "unat c div 16 < 16" "unat c mod 16 < 16" using unat_byte [of c] by auto
  then show ?case using Cons by (auto simp: escape_byte_literal url_literal_def hex_unreserved)
qed simp

lemma escape_nonzero: "0 \<notin> set (concat (map (escape_byte r) s))"
  using escape_alphabet [of r s] literal_facts [of r 0] by (auto simp: list_all_iff simp del: set_concat)

lemma escape_database:
  assumes "0 \<notin> set s"
  shows "ivorysql_utl_url_escape env high (Some s) r None = Inr (Some (concat (map (escape_byte (r = Some True)) s)))"
proof -
  have "(case r of None \<Rightarrow> False | Some b \<Rightarrow> b) = (r = Some True)" by (cases r) auto
  then show ?thesis
    by (simp add: nonzero_takeWhile [OF assms] ivorysql_utl_url_escape_def pg_server_to_any_def charset_res_def Let_def)
qed

lemma roundtrip_core:
  assumes "PG_VALID_BE_ENCODING (DatabaseEncoding env)" "DatabaseEncoding env \<noteq> PG_GB18030"
    "mb_valid (pg_encoding_verifymbchar (DatabaseEncoding env)) s"
  shows "\<exists>u. ivorysql_utl_url_escape env high (Some s) r None = Inr (Some u)
    \<and> list_all (\<lambda>c. c = of_char CHR ''%'' \<or> url_literal (r = Some True) c) u
    \<and> ivorysql_utl_url_unescape env high (Some u) None = Inr (Some s)"
proof -
  obtain cs where cs: "list_all (mb_char (pg_encoding_verifymbchar (DatabaseEncoding env))) cs" "s = concat cs"
    using assms(3) by (auto simp: mb_valid_def)
  define u where "u = concat (map (escape_byte (r = Some True)) s)"
  have "ivorysql_utl_url_escape env high (Some s) r None = Inr (Some u)"
    unfolding u_def by (rule escape_database [OF char_verifier.valid_nonzero [OF encoding_verifier assms(3)]])
  moreover have "unescape_loop env (DatabaseEncoding env) 0 u [] [] = Inr s"
    using unescape_chars [OF _ database_safe [OF assms(1,2)] refl cs(1), of "[]" 0 "r = Some True" "[]"] be_valid [OF assms(1)] cs(2)
    by (simp add: u_def)
  then have "ivorysql_utl_url_unescape env high (Some u) None = Inr (Some s)"
    by (simp add: ivorysql_utl_url_unescape_def nonzero_takeWhile escape_nonzero u_def del: set_concat)
  moreover have "list_all (\<lambda>c. c = of_char CHR ''%'' \<or> url_literal (r = Some True) c) u" unfolding u_def by (rule escape_alphabet)
  ultimately show ?thesis by blast
qed

text \<open>The database text that the pair of functions carries without loss.\<close>

definition url_text :: "enc_env \<Rightarrow> bytes option \<Rightarrow> bool" where
  "url_text env url \<longleftrightarrow> PG_VALID_BE_ENCODING (DatabaseEncoding env) \<and> DatabaseEncoding env \<noteq> PG_GB18030
     \<and> pred_option (mb_valid (pg_encoding_verifymbchar (DatabaseEncoding env))) url"

interpretation url: codec "\<lambda>url. ivorysql_utl_url_escape env high url r None"
    "\<lambda>url. ivorysql_utl_url_unescape env high url None" "url_text env"
  for env high r
proof
  show "\<exists>b. ivorysql_utl_url_escape env high a r None = Inr b \<and> ivorysql_utl_url_unescape env high b None = Inr a"
    if "url_text env a" for a
  proof (cases a)
    case None
    then show ?thesis by (simp add: ivorysql_utl_url_escape_def ivorysql_utl_url_unescape_def)
  next
    case (Some s)
    then show ?thesis using roundtrip_core [of env s high r] that by (auto simp: url_text_def)
  qed
qed

lemma utf8_sample: "mb_valid pg_utf8_verifychar [0x61, 0x20, 0xe4, 0xb8, 0xad, 0x2f]"
  unfolding mb_valid_def
  by (intro exI [of _ "[[0x61], [0x20], [0xe4, 0xb8, 0xad], [0x2f]]"])
    (simp add: mb_char_def pg_utf8_verifychar_def pg_utf8_islegal_def islegal_second_def)

section \<open>Properties\<close>

text \<open>
  C12 (URL round trip): in a database of any encoding other than GB18030, ESCAPE without a character set
  turns every valid text into a text made only of the percent sign and of characters that need no escape,
  UNESCAPE gives back the original text, and different texts have different results.
\<close>

theorem url_roundtrip:
  assumes "PG_VALID_BE_ENCODING (DatabaseEncoding env)" "DatabaseEncoding env \<noteq> PG_GB18030"
    "mb_valid (pg_encoding_verifymbchar (DatabaseEncoding env)) s"
  shows "(\<exists>u. ivorysql_utl_url_escape env high (Some s) r None = Inr (Some u)
      \<and> list_all (\<lambda>c. c = of_char CHR ''%'' \<or> utl_url_is_unreserved c \<or> (r \<noteq> Some True \<and> utl_url_is_reserved c)) u
      \<and> ivorysql_utl_url_unescape env high (Some u) None = Inr (Some s))
    \<and> (\<forall>s'. mb_valid (pg_encoding_verifymbchar (DatabaseEncoding env)) s'
        \<and> ivorysql_utl_url_escape env high (Some s') r None = ivorysql_utl_url_escape env high (Some s) r None \<longrightarrow> s' = s)"
  using roundtrip_core [OF assms, of high r, unfolded url_literal_def] assms
    url.enc_inj [of env "Some _" "Some s" high r] by (auto simp: url_text_def)

theorem url_roundtrip_witness:
  "\<exists>u. ivorysql_utl_url_escape \<lparr>DatabaseEncoding = PG_UTF8, ClientEncoding = PG_UTF8, ToServerConvProc = None,
        ToClientConvProc = None, IsTransactionState = True, FindDefaultConversionProc = (\<lambda>src_enc dest_enc. None)\<rparr> (\<lambda>c. False)
        (Some [0x61, 0x20, 0xe4, 0xb8, 0xad, 0x2f]) None None = Inr (Some u)
    \<and> ivorysql_utl_url_unescape \<lparr>DatabaseEncoding = PG_UTF8, ClientEncoding = PG_UTF8, ToServerConvProc = None,
        ToClientConvProc = None, IsTransactionState = True, FindDefaultConversionProc = (\<lambda>src_enc dest_enc. None)\<rparr> (\<lambda>c. False) (Some u) None
      = Inr (Some [0x61, 0x20, 0xe4, 0xb8, 0xad, 0x2f])"
  using url_roundtrip [of "\<lparr>DatabaseEncoding = PG_UTF8, ClientEncoding = PG_UTF8, ToServerConvProc = None,
        ToClientConvProc = None, IsTransactionState = True, FindDefaultConversionProc = (\<lambda>src_enc dest_enc. None)\<rparr>"
      "[0x61, 0x20, 0xe4, 0xb8, 0xad, 0x2f]" "\<lambda>c. False" None] utf8_sample utf8_entry
  by (auto simp: PG_VALID_BE_ENCODING_def PG_UNUSED_ENCODING_def encoding_ids)

text \<open>
  C35 (GB18030): in a GB18030 database the round trip fails for every two-byte character whose second byte
  is a character that the call does not escape: ESCAPE leaves this byte as it is, and UNESCAPE then checks the
  first byte alone and rejects it.
\<close>

theorem url_gb18030:
  assumes "DatabaseEncoding env = PG_GB18030" "mb_char pg_gb18030_verifychar [a, b]"
    and "utl_url_is_unreserved b \<or> (r \<noteq> Some True \<and> utl_url_is_reserved b)"
  shows "mb_valid (pg_encoding_verifymbchar (DatabaseEncoding env)) [a, b]
    \<and> (\<exists>u. ivorysql_utl_url_escape env high (Some [a, b]) r None = Inr (Some u)
        \<and> ivorysql_utl_url_unescape env high (Some u) None = Inl (CharsetError InvalidByteSequence))"
proof -
  note gb = gb18030_entry [folded assms(1)]
  have h: "IS_HIGHBIT_SET a" "b \<noteq> 0" "a \<noteq> 0" "\<not> IS_HIGHBIT_SET b"
    using assms(2,3) literal_facts [of False b] by (auto simp: mb_char_def pg_gb18030_verifychar_def url_literal_def split: if_splits)
  have a: "\<not> url_literal (r = Some True) a" and b: "url_literal (r = Some True) b"
    using h(1) literal_facts [of _ a] assms(3) by (auto simp: url_literal_def)
  have "pg_encoding_verifymbstr (DatabaseEncoding env) [a] = Some 0"
    using h(1) by (simp add: encoding_functions gb flip: encoding_functions(2))
      (simp add: verify_loop.simps pg_gb18030_verifychar_def)
  then have "pg_verify_mbstr (DatabaseEncoding env) [a] False = Inl InvalidByteSequence"
    by (simp add: pg_verify_mbstr_def valid_entry_functions [OF gb(1)])
  then have f: "flush_pending env (DatabaseEncoding env) [] [a] = Inl (CharsetError InvalidByteSequence)"
    by (simp add: flush_pending_def pg_any_to_server_def charset_res_def)
  define u where "u = concat (map (escape_byte (r = Some True)) [a, b])"
  have "unescape_loop env (DatabaseEncoding env) 0 u [] [] = Inl (CharsetError InvalidByteSequence)"
    using unescape_escaped [OF a h(3), of env "DatabaseEncoding env" 0 "[b]" "[]" "[]"] f b
    by (simp add: u_def escape_byte_literal [of _ b] unescape_literal [OF b])
  then have "ivorysql_utl_url_unescape env high (Some u) None = Inl (CharsetError InvalidByteSequence)"
    by (simp add: ivorysql_utl_url_unescape_def nonzero_takeWhile escape_nonzero u_def del: set_concat concat.simps list.map)
  moreover have "ivorysql_utl_url_escape env high (Some [a, b]) r None = Inr (Some u)"
    unfolding u_def by (rule escape_database) (use h in auto)
  moreover have "mb_valid (pg_encoding_verifymbchar (DatabaseEncoding env)) [a, b]"
    unfolding mb_valid_def by (intro exI [of _ "[[a, b]]"]) (simp add: gb assms(2))
  ultimately show ?thesis by blast
qed

theorem url_gb18030_witness:
  "\<exists>u. ivorysql_utl_url_escape \<lparr>DatabaseEncoding = PG_GB18030, ClientEncoding = PG_UTF8, ToServerConvProc = None,
        ToClientConvProc = None, IsTransactionState = True, FindDefaultConversionProc = (\<lambda>src_enc dest_enc. None)\<rparr> (\<lambda>c. False)
        (Some [0x81, 0x41]) None None = Inr (Some u)
    \<and> ivorysql_utl_url_unescape \<lparr>DatabaseEncoding = PG_GB18030, ClientEncoding = PG_UTF8, ToServerConvProc = None,
        ToClientConvProc = None, IsTransactionState = True, FindDefaultConversionProc = (\<lambda>src_enc dest_enc. None)\<rparr> (\<lambda>c. False) (Some u) None
      = Inl (CharsetError InvalidByteSequence)"
  using url_gb18030 [of "\<lparr>DatabaseEncoding = PG_GB18030, ClientEncoding = PG_UTF8, ToServerConvProc = None,
        ToClientConvProc = None, IsTransactionState = True, FindDefaultConversionProc = (\<lambda>src_enc dest_enc. None)\<rparr>" "0x81" "0x41" None "\<lambda>c. False"]
  by (simp add: mb_char_def pg_gb18030_verifychar_def IS_HIGHBIT_SET_def utl_url_is_unreserved_def)

end
