(* ===== verification/Spec2Isabelle.thy ===== *)
theory Spec2Isabelle
  imports Ora_Trunc Dbms_Output Utl_Encode Sched_Search Utl_Match Pg_Increment Pg_Client_Encoding Utl_Url
begin

text \<open>
  Verification of parts of IvorySQL, a PostgreSQL server with an Oracle mode. Paths are relative to src/.

  \<^bold>\<open>The program and its parts.\<close> The extension contrib/ivorysql\_ora adds Oracle's built-in functions and packages to the
  server. The parts verified here are its date functions, the packages DBMS\_OUTPUT, UTL\_ENCODE, UTL\_MATCH and UTL\_URL and the
  calendar strings of DBMS\_SCHEDULER, together with the code of the server they rest on: the Julian calendar and
  broken-down time of src/backend/utils/adt, the base64 codec and the character encodings of src/common, and the multibyte
  strings and the client encoding of src/backend/utils/mb. The date functions and the scheduler compute through
  \<open>date2j\<close>, \<open>j2date\<close>, \<open>timestamp2tm\<close> and \<open>tm2timestamp\<close>; UTL\_ENCODE calls the base64 codec; UTL\_URL finds a
  character set by name, converts with \<open>pg_server_to_any\<close> and \<open>pg_any_to_server\<close>, and these verify strings through the table
  of encodings.

  \<^bold>\<open>Conventions.\<close> A C function is a definition with its name and its branches; a loop is a recursive function with a
  measure, or a partial function with result \<open>None\<close> for a loop that does not end, whose termination is then a
  theorem. \<open>ereport\<close> is the left case of the sum type \<open>res\<close>, composed by \<open>bindR\<close>; a read outside an array and a dangling
  pointer are errors of their own. Bytes are \<open>8 word\<close> values; \<open>int\<close> and \<open>int64\<close> arithmetic that can overflow is written with
  \<open>wrap32\<close> and \<open>wrap64\<close> or on words, since the server is built with wrapping signed arithmetic; C's division is \<open>sdiv\<close> and
  \<open>smod\<close>. Doubles are rationals with the rounding of each operation as a parameter.

  \<^bold>\<open>The theories.\<close>
  \<^item> Ora\_Prelude: results, C division, wrapping, and the interface \<open>codec\<close> of an encoder with its decoder.
  \<^item> Pg\_Calendar (src/backend/utils/adt/datetime.c, timestamp.c): \<open>date2j\<close>, \<open>j2date\<close>, \<open>timestamp2tm\<close>, \<open>tm2timestamp\<close>. The
    interface \<open>day_numbering\<close> is interpreted on \<open>date2j_core\<close> and \<open>j2date\<close>; the lemmas give the round trips of days and
    timestamps, and the exception that Oracle mode makes for the year 0.
  \<^item> Ora\_Datetime and Ora\_Trunc (builtin\_functions/datetime\_datatype\_functions.c): LAST\_DAY, ADD\_MONTHS, NEXT\_DAY, NEW\_TIME,
    MONTHS\_BETWEEN, TRUNC and ROUND against the calendar, with the cases in which they go wrong.
  \<^item> Dbms\_Output (dbms\_output.c): the buffer as a linked list in a store of addresses. Sessions of calls refine a queue of lines through the
    interfaces \<open>call_refinement\<close> and \<open>fifo_queue\<close>; memory safety and the accounting invariant follow.
  \<^item> Pg\_Base64 (src/common/base64.c) and Utl\_Encode (utl\_encode.c): bit-level encoder and decoder against a reference
    encoding, buffer lengths with their overflow, and the round trip of the package as an interpretation of \<open>codec\<close>.
  \<^item> Sched\_Calendar, Sched\_Parse, Sched\_Days, Sched\_Eval, Sched\_Next, Sched\_Search (scheduler\_calendar.c): definitions of parser and evaluation; accepted
    rules are well-formed; the days of a month; the run times of a period; the step from period to period; the search for
    the next run through the interface \<open>period_search\<close>.
  \<^item> Edit\_Distance and Utl\_Match (utl\_match.c): the least number of edits and the two-row computation of it; the Jaro similarity,
    its loops and its bounds.
  \<^item> Pg\_Utf8 and Pg\_Unicode (src/common/wchar.c, src/include/mb/pg\_wchar.h, src/include/utils/ascii.h): the verification of UTF-8 with the shift-based automaton and the ASCII fast
    path, and the conversion to code points, against the definition of UTF-8.
  \<^item> Pg\_Wchar (wchar.c): lengths and verifiers of all encodings and \<open>pg_wchar_table\<close>. The interface \<open>char_verifier\<close> states what a character
    verifier promises and is interpreted on every verifier of the table.
  \<^item> Pg\_Mbstr, Pg\_Increment, Pg\_Client\_Encoding (mbutils.c): verification, counting, clipping and incrementing of strings in any
    encoding; the choice of a conversion; and the state machine of the client encoding with the invariant that makes every string
    that enters or leaves a session valid.
  \<^item> Pg\_Encnames (src/common/encnames.c): the binary search for an encoding by name.
  \<^item> Utl\_Url (utl\_url.c): ESCAPE and UNESCAPE, a second interpretation of \<open>codec\<close>, and the failure in GB18030.

  \<^bold>\<open>Bounds and fuel.\<close> No function has fuel that the code does not have: the search for the next run goes through 4000 periods because
  \<open>SCHED_MAX_PERIODS\<close> says so, and C37 shows a run it misses. The partial functions \<open>verify_loop\<close>, \<open>clip_loop\<close>, \<open>mbstrlen_loop\<close>,
  \<open>charclip_loop\<close> and \<open>verify_len_loop\<close> are shown to end, the first one on every string and the others on valid ones. Timestamps are
  restricted to the valid range of the type where a statement needs it. The scheduler's search is verified for time zones with a fixed
  offset.

  \<^bold>\<open>Parameters.\<close> The session's time zone functions, the current time and the locale's \<open>tolower\<close> are fields of the session record
  \<open>dt_env\<close>; the locale's \<open>isalnum\<close> on bytes above 127 is an argument; the conversion procedures of the catalog are assumed to write strings that are
  valid in their destination encoding, as the head of mbutils.c documents.

  \<^bold>\<open>Not modelled.\<close> Of the modelled files: parsing and formatting of dates, intervals and time zone types; display
  widths and wide characters other than UTF-8; the SQL-callable wrappers, the message encoding and \<open>pg_unicode_to_server\<close> of
  mbutils.c; the 1 GB limits of \<open>StringInfo\<close> and of result arrays and the wrap-around of line counters; construction of result tuples.
  Of the extension: the jobs, launcher and workers of DBMS\_SCHEDULER, which are background processes over SPI and shared memory; DBMS\_LOCK,
  DBMS\_SESSION, DBMS\_TRANSACTION, DBMS\_UTILITY, DBMS\_RANDOM and UTL\_FILE, which work on server services and files; the
  character and numeric functions and the data types, which rest on the regular expression engine, the numeric type and the
  date parser; MERGE, XML and the system views. Of the server: the Oracle parser, PL/iSQL and everything that PostgreSQL provides
  for storage, planning, execution, replication and process control, which is concurrent code over shared memory and
  files.
\<close>

end
